(* ===== verification/Rhino_Prelude.thy ===== *)
theory Rhino_Prelude
  imports Main "HOL-Library.Word"
begin

text \<open>
  Shared vocabulary of the development: the machine types of
  \<^verbatim>\<open>k_types.h\<close>/\<^verbatim>\<open>k_sys.h\<close>, the generic list lemmas they use, and the interface of an ordered insertion
  (\<open>keyed_insert\<close>), which the block lists, the tick list and the timer list share.
\<close>

unbundle bit_operations_syntax

section \<open>Machine types\<close>

type_synonym u8 = "8 word"
type_synonym u32 = "32 word"
type_synonym tick_t = "64 word"

text \<open>Addresses of task control blocks and of kernel objects.\<close>

type_synonym tid = nat
type_synonym oid = nat

section \<open>Lists\<close>

lemma set_remove1_distinct [simp]: "distinct xs \<Longrightarrow> set (remove1 x xs) = set xs - {x}"
  by (rule set_remove1_eq)

lemma remove1_append_middle:
  "x \<notin> set xs \<Longrightarrow> remove1 x (xs @ x # ys) = xs @ ys"
  by (simp add: remove1_append)

lemma sorted_remove1_map: "sorted (map f xs) \<Longrightarrow> sorted (map f (remove1 x xs))"
  by (induction xs) (auto dest: notin_set_remove1)

lemma sorted_map_cong_set:
  "(\<And>x. x \<in> set xs \<Longrightarrow> f x = g x) \<Longrightarrow> sorted (map f xs) = sorted (map g xs)"
  by (metis map_cong)

lemma mod_lt_double: "a < 2 * n \<Longrightarrow> a mod n = (if a < n then a else a - (n::nat))"
  by (simp add: mod_if)

section \<open>Ordered insertion\<close>

text \<open>
  The kernel keeps three lists ordered by a key with the same loop: walk from the head
  until an element with a strictly greater key is found, and link the new element
  before it (\<open>pend_list_add\<close>, \<open>tick_list_pri_insert\<close>, \<open>timer_list_pri_insert\<close>). The
  two laws below are what such a loop does at the end of the list and at one element.
\<close>

locale keyed_insert =
  fixes key :: "'a \<Rightarrow> 'k::linorder"
    and bound :: "'a \<Rightarrow> 'k"
    and ins :: "'a \<Rightarrow> 'a list \<Rightarrow> 'a list"
  assumes ins_Nil: "ins x [] = [x]"
    and ins_Cons: "ins x (y # ys) = (if bound x < key y then x # y # ys else y # ins x ys)"
begin

lemma ins_split: "ins x ys = takeWhile (\<lambda>y. key y \<le> bound x) ys @ x # dropWhile (\<lambda>y. key y \<le> bound x) ys"
  by (induction ys) (auto simp: ins_Nil ins_Cons)

lemma set_ins [simp]: "set (ins x ys) = insert x (set ys)"
  by (induction ys) (auto simp: ins_Nil ins_Cons)

lemma length_ins [simp]: "length (ins x ys) = Suc (length ys)"
  by (induction ys) (auto simp: ins_Nil ins_Cons)

lemma ins_not_Nil [simp]: "ins x ys \<noteq> []"
  by (cases ys) (auto simp: ins_Nil ins_Cons)

lemma distinct_ins: "x \<notin> set ys \<Longrightarrow> distinct ys \<Longrightarrow> distinct (ins x ys)"
  by (induction ys) (auto simp: ins_Nil ins_Cons)

lemma sorted_ins:
  "key x = bound x \<Longrightarrow> sorted (map key ys) \<Longrightarrow> sorted (map key (ins x ys))"
  by (induction ys) (auto simp: ins_Nil ins_Cons)

lemma remove1_ins: "x \<notin> set ys \<Longrightarrow> remove1 x (ins x ys) = ys"
  by (induction ys) (auto simp: ins_Nil ins_Cons)

text \<open>Elements with an equal key keep their arrival order: the new one goes last.\<close>

lemma filter_ins_same_key:
  "key x = bound x \<Longrightarrow> sorted (map key ys) \<Longrightarrow>
   filter (\<lambda>y. key y = key x) (ins x ys) = filter (\<lambda>y. key y = key x) ys @ [x]"
proof (induction ys)
  case Nil
  then show ?case by (simp add: ins_Nil)
next
  case (Cons y ys)
  have "filter (\<lambda>z. key z = key x) ys = []" if "bound x < key y"
    using that Cons.prems by (auto simp: filter_empty_conv)
  with Cons show ?case by (auto simp: ins_Cons)
qed

end

end
