(* ===== verification/K_List.thy ===== *)
theory K_List
  imports Rhino_Prelude
begin

text \<open>
  The intrusive circular list of \<^verbatim>\<open>core/include/k_list.h\<close>, at pointer level. A heap maps
  a node to its \<open>next\<close>/\<open>prev\<close> links and every function is the sequence of assignments the
  code makes, read from the heap at the moment of each assignment, so aliasing is as in
  the code. \<open>ring\<close> relates a heap to the list of nodes a circle holds; the lemmas show
  that each function implements the list operation the kernel model uses in its place:
  \<open>klist_insert\<close> before the head appends, before an inner node inserts there, \<open>klist_add\<close>
  pushes, \<open>klist_rm\<close> removes, and none of them touches a circle it does not mention.
\<close>

section \<open>The functions\<close>

record klist_t =
  lnext :: nat
  lprev :: nat

type_synonym lheap = "nat \<Rightarrow> klist_t"

abbreviation set_next :: "nat \<Rightarrow> nat \<Rightarrow> lheap \<Rightarrow> lheap" where
  "set_next x v h \<equiv> h(x := (h x)\<lparr>lnext := v\<rparr>)"

abbreviation set_prev :: "nat \<Rightarrow> nat \<Rightarrow> lheap \<Rightarrow> lheap" where
  "set_prev x v h \<equiv> h(x := (h x)\<lparr>lprev := v\<rparr>)"

definition klist_init :: "nat \<Rightarrow> lheap \<Rightarrow> lheap" where
  "klist_init list_head h =
    (let h = set_next list_head list_head h
     in set_prev list_head list_head h)"

definition is_klist_empty :: "nat \<Rightarrow> lheap \<Rightarrow> bool" where
  "is_klist_empty list h \<longleftrightarrow> lnext (h list) = list"

definition klist_insert :: "nat \<Rightarrow> nat \<Rightarrow> lheap \<Rightarrow> lheap" where
  "klist_insert head element h =
    (let h = set_prev element (lprev (h head)) h;
         h = set_next element head h;
         h = set_next (lprev (h head)) element h
     in set_prev head element h)"

definition klist_add :: "nat \<Rightarrow> nat \<Rightarrow> lheap \<Rightarrow> lheap" where
  "klist_add head element h =
    (let h = set_prev element head h;
         h = set_next element (lnext (h head)) h;
         h = set_prev (lnext (h head)) element h
     in set_next head element h)"

definition klist_rm :: "nat \<Rightarrow> lheap \<Rightarrow> lheap" where
  "klist_rm element h =
    (let h = set_next (lprev (h element)) (lnext (h element)) h
     in set_prev (lnext (h element)) (lprev (h element)) h)"

definition klist_rm_init :: "nat \<Rightarrow> lheap \<Rightarrow> lheap" where
  "klist_rm_init element h =
    (let h = set_next (lprev (h element)) (lnext (h element)) h;
         h = set_prev (lnext (h element)) (lprev (h element)) h;
         h = set_prev element element h
     in set_next element element h)"

section \<open>Segments and circles\<close>

fun lseg :: "lheap \<Rightarrow> nat \<Rightarrow> nat list \<Rightarrow> nat \<Rightarrow> bool" where
  "lseg h a [] b \<longleftrightarrow> lnext (h a) = b \<and> lprev (h b) = a"
| "lseg h a (x # xs) b \<longleftrightarrow> lnext (h a) = x \<and> lprev (h x) = a \<and> lseg h x xs b"

definition ring :: "lheap \<Rightarrow> nat list \<Rightarrow> bool" where
  "ring h xs \<longleftrightarrow> xs \<noteq> [] \<and> distinct xs \<and> lseg h (hd xs) (tl xs) (hd xs)"

lemma ring_Cons: "ring h (x # xs) \<longleftrightarrow> x \<notin> set xs \<and> distinct xs \<and> lseg h x xs x"
  by (auto simp: ring_def)

lemma lseg_append [simp]:
  "lseg h a (xs @ y # ys) b \<longleftrightarrow> lseg h a xs y \<and> lseg h y ys b"
  by (induction xs arbitrary: a) auto

text \<open>A segment reads \<open>next\<close> of all but its last node and \<open>prev\<close> of all but its first.\<close>

lemma lseg_cong:
  assumes "\<And>x. x \<in> insert a (set xs) \<Longrightarrow> lnext (h' x) = lnext (h x)"
    and "\<And>x. x \<in> insert b (set xs) \<Longrightarrow> lprev (h' x) = lprev (h x)"
  shows "lseg h' a xs b = lseg h a xs b"
  using assms by (induction xs arbitrary: a) auto

lemma lseg_last:
  "lseg h a (xs @ [y]) b \<longleftrightarrow> lseg h a xs y \<and> lnext (h y) = b \<and> lprev (h b) = y"
  by simp

text \<open>The node a circle closes with: the one before its first node.\<close>

lemma ring_prev: "ring h (x # xs) \<Longrightarrow> lprev (h x) = last (x # xs)"
proof (cases xs rule: rev_cases)
  case Nil
  then show "ring h (x # xs) \<Longrightarrow> lprev (h x) = last (x # xs)" by (simp add: ring_Cons)
next
  case (snoc ys y)
  then show "ring h (x # xs) \<Longrightarrow> lprev (h x) = last (x # xs)" by (simp add: ring_Cons)
qed

lemma ring_rotate: "ring h (xs @ y # ys) \<Longrightarrow> ring h (y # ys @ xs)"
  by (cases xs) (auto simp: ring_Cons)

lemma ring_frame:
  assumes "ring h xs" and "\<And>x. x \<in> set xs \<Longrightarrow> h' x = h x"
  shows "ring h' xs"
proof -
  obtain y ys where xs: "xs = y # ys" using assms(1) by (cases xs) (auto simp: ring_def)
  have "lseg h' y ys y = lseg h y ys y"
    by (rule lseg_cong) (auto simp: xs assms(2))
  with assms(1) show ?thesis by (simp add: xs ring_Cons)
qed

section \<open>What each function does to a circle\<close>

lemma klist_init_ring: "ring (klist_init x h) [x]"
  by (simp add: klist_init_def ring_Cons)

lemma is_klist_empty_ring: "ring h (x # xs) \<Longrightarrow> is_klist_empty x h \<longleftrightarrow> xs = []"
  by (cases xs) (auto simp: is_klist_empty_def ring_Cons)

lemma klist_insert_ring:
  assumes "ring h (x # xs)" and "e \<notin> set (x # xs)"
  shows "ring (klist_insert x e h) (x # xs @ [e])"
proof (cases xs rule: rev_cases)
  case Nil
  with assms show ?thesis by (simp add: ring_Cons klist_insert_def Let_def)
next
  case (snoc ys y)
  let ?h = "klist_insert x e h"
  from assms snoc have py: "lprev (h x) = y" and seg: "lseg h x ys y"
    by (auto simp: ring_Cons)
  have ne: "y \<noteq> x" "e \<noteq> x" "e \<noteq> y" "y \<notin> set ys" "x \<notin> set ys" "e \<notin> set ys"
    using assms snoc by (auto simp: ring_Cons)
  have "lseg ?h x ys y = lseg h x ys y"
    using py ne by (intro lseg_cong) (auto simp: klist_insert_def Let_def)
  with seg ne py assms snoc show ?thesis
    by (auto simp: ring_Cons klist_insert_def Let_def)
qed

text \<open>Inserting before an inner node \<open>q\<close>, as the ordered insertions do.\<close>

lemma klist_insert_ring_before:
  assumes "ring h (x # xs @ q # ys)" and "e \<notin> set (x # xs @ q # ys)"
  shows "ring (klist_insert q e h) (x # xs @ e # q # ys)"
proof -
  have "ring h (q # ys @ x # xs)"
    using ring_rotate [of h "x # xs" q ys] assms(1) by simp
  then have "ring (klist_insert q e h) ((q # ys) @ x # xs @ [e])"
    using klist_insert_ring [of h q "ys @ x # xs" e] assms(2) by simp
  then have "ring (klist_insert q e h) (x # (xs @ [e]) @ q # ys)"
    using ring_rotate [of "klist_insert q e h" "q # ys" x "xs @ [e]"] by simp
  then show ?thesis by simp
qed

lemma klist_add_ring:
  assumes "ring h (x # xs)" and "e \<notin> set (x # xs)"
  shows "ring (klist_add x e h) (x # e # xs)"
proof (cases xs)
  case Nil
  with assms show ?thesis by (simp add: ring_Cons klist_add_def Let_def)
next
  case (Cons y ys)
  let ?h = "klist_add x e h"
  from assms Cons have ny: "lnext (h x) = y" and seg: "lseg h y ys x"
    by (auto simp: ring_Cons)
  have ne: "y \<noteq> x" "e \<noteq> x" "e \<noteq> y" "y \<notin> set ys" "x \<notin> set ys" "e \<notin> set ys"
    using assms Cons by (auto simp: ring_Cons)
  have "lseg ?h y ys x = lseg h y ys x"
    using ny ne by (intro lseg_cong) (auto simp: klist_add_def Let_def)
  with seg ne ny assms Cons show ?thesis
    by (auto simp: ring_Cons klist_add_def Let_def)
qed

lemma klist_rm_links:
  assumes "ring h (e # x # xs)"
  shows "klist_rm e h = set_prev x (last (x # xs)) (set_next (last (x # xs)) x h)"
proof -
  have p: "lprev (h e) = last (x # xs)" using ring_prev [OF assms] by simp
  have n: "lnext (h e) = x" using assms by (simp add: ring_Cons)
  have "e \<noteq> last (x # xs)" using assms by (auto simp: ring_Cons)
  with p n show ?thesis by (simp add: klist_rm_def Let_def)
qed

lemma klist_rm_ring_head:
  assumes "ring h (e # x # xs)"
  shows "ring (klist_rm e h) (x # xs)"
proof (cases xs rule: rev_cases)
  case Nil
  with assms show ?thesis by (simp add: klist_rm_def Let_def ring_Cons)
next
  case (snoc ys y)
  from assms snoc have seg: "lseg h x ys y"
    and ne: "x \<noteq> y" "x \<notin> set ys" "y \<notin> set ys" "distinct ys" "e \<noteq> x" "e \<noteq> y"
    by (auto simp: ring_Cons)
  have "lseg (klist_rm e h) x ys y = lseg h x ys y"
    using ne snoc by (intro lseg_cong) (auto simp: klist_rm_links [OF assms])
  with seg ne snoc show ?thesis
    by (simp add: ring_Cons klist_rm_links [OF assms])
qed

lemma klist_rm_ring:
  assumes "ring h (x # xs @ e # ys)"
  shows "ring (klist_rm e h) (x # xs @ ys)"
proof -
  have "ring h (e # ys @ x # xs)"
    using ring_rotate [of h "x # xs" e ys] assms by simp
  then have "ring (klist_rm e h) (ys @ x # xs)"
    by (cases ys) (auto intro: klist_rm_ring_head)
  then show ?thesis using ring_rotate [of "klist_rm e h" ys x xs] by simp
qed

lemma klist_rm_init_eq: "klist_rm_init e h = klist_init e (klist_rm e h)"
  by (auto simp: klist_rm_init_def klist_rm_def klist_init_def Let_def fun_eq_iff)

lemma klist_rm_init_ring:
  assumes "ring h (x # xs @ e # ys)"
  shows "ring (klist_rm_init e h) (x # xs @ ys) \<and> ring (klist_rm_init e h) [e]"
proof
  have "e \<notin> set (x # xs @ ys)" using assms by (auto simp: ring_Cons)
  then show "ring (klist_rm_init e h) (x # xs @ ys)"
    using klist_rm_ring [OF assms]
    by (auto simp: klist_rm_init_eq klist_init_def intro: ring_frame)
  show "ring (klist_rm_init e h) [e]"
    by (simp add: klist_rm_init_eq klist_init_ring)
qed

section \<open>Other circles are untouched\<close>

lemma ring_closed:
  assumes "ring h xs" and "x \<in> set xs"
  shows "lnext (h x) \<in> set xs \<and> lprev (h x) \<in> set xs"
proof -
  from assms(2) obtain ys zs where "xs = ys @ x # zs" by (auto simp: in_set_conv_decomp)
  with assms(1) have r: "ring h (x # zs @ ys)" by (simp add: ring_rotate)
  then have "lprev (h x) \<in> set (x # zs @ ys)" using ring_prev last_in_set by (metis list.distinct(1))
  moreover have "lnext (h x) \<in> set (x # zs @ ys)" using r by (cases "zs @ ys") (auto simp: ring_Cons)
  ultimately show ?thesis using \<open>xs = ys @ x # zs\<close> by auto
qed

lemma klist_insert_frame:
  assumes "ring h (x # xs)" and "y \<notin> set (x # xs)" and "y \<noteq> e"
  shows "klist_insert x e h y = h y"
proof -
  have "lprev (h x) \<in> set (x # xs)" using ring_closed [OF assms(1)] by simp
  with assms(2,3) show ?thesis by (auto simp: klist_insert_def Let_def)
qed

lemma klist_rm_frame:
  assumes "ring h xs" and "e \<in> set xs" and "y \<notin> set xs"
  shows "klist_rm e h y = h y"
  using ring_closed [OF assms(1,2)] assms(3) by (auto simp: klist_rm_def Let_def)

lemma klist_insert_other_ring:
  assumes "ring h xs" and "x \<in> set xs" and "ring h zs" and "set xs \<inter> set zs = {}" and "e \<notin> set zs"
  shows "ring (klist_insert x e h) zs"
proof (rule ring_frame [OF assms(3)])
  fix y assume y: "y \<in> set zs"
  from assms(2) obtain us vs where xs: "xs = us @ x # vs" by (auto simp: in_set_conv_decomp)
  with assms(1) have "ring h (x # vs @ us)" by (simp add: ring_rotate)
  moreover have "y \<notin> set (x # vs @ us)" using y assms(4) xs by auto
  moreover have "y \<noteq> e" using y assms(5) by auto
  ultimately show "klist_insert x e h y = h y" by (rule klist_insert_frame)
qed

lemma klist_rm_other_ring:
  assumes "ring h xs" and "e \<in> set xs" and "ring h zs" and "set xs \<inter> set zs = {}"
  shows "ring (klist_rm e h) zs"
  using assms by (intro ring_frame [OF assms(3)] klist_rm_frame) auto

end
