(* ===== verification/K_Err.thy ===== *)
theory K_Err
  imports Rhino_Prelude
begin

text \<open>
  The status codes of \<^verbatim>\<open>core/include/k_err.h\<close>, and the outcome of a call that may block: it returns a status, or the calling
  task waits and the call returns when the task runs again.
\<close>

datatype (plugins only: code size) kstat_t =
    RHINO_SUCCESS | RHINO_SYS_FATAL_ERR | RHINO_SYS_SP_ERR | RHINO_RUNNING | RHINO_STOPPED
  | RHINO_INV_PARAM | RHINO_NULL_PTR | RHINO_INV_ALIGN | RHINO_KOBJ_TYPE_ERR
  | RHINO_KOBJ_DEL_ERR | RHINO_KOBJ_DOCKER_EXIST | RHINO_KOBJ_BLK | RHINO_KOBJ_SET_FULL
  | RHINO_NOTIFY_FUNC_EXIST | RHINO_MM_POOL_SIZE_ERR | RHINO_MM_ALLOC_SIZE_ERR
  | RHINO_MM_FREE_ADDR_ERR | RHINO_MM_CORRUPT_ERR | RHINO_DYN_MEM_PROC_ERR | RHINO_NO_MEM
  | RHINO_RINGBUF_FULL | RHINO_RINGBUF_EMPTY | RHINO_SCHED_DISABLE
  | RHINO_SCHED_ALREADY_ENABLED | RHINO_SCHED_LOCK_COUNT_OVF | RHINO_INV_SCHED_WAY
  | RHINO_TASK_INV_STACK_SIZE | RHINO_TASK_NOT_SUSPENDED | RHINO_TASK_DEL_NOT_ALLOWED
  | RHINO_TASK_SUSPEND_NOT_ALLOWED | RHINO_SUSPENDED_COUNT_OVF | RHINO_BEYOND_MAX_PRI
  | RHINO_PRI_CHG_NOT_ALLOWED | RHINO_INV_TASK_STATE | RHINO_IDLE_TASK_EXIST
  | RHINO_NO_PEND_WAIT | RHINO_BLK_ABORT | RHINO_BLK_TIMEOUT | RHINO_BLK_DEL
  | RHINO_BLK_INV_STATE | RHINO_BLK_POOL_SIZE_ERR | RHINO_TIMER_STATE_INV
  | RHINO_NO_THIS_EVENT_OPT | RHINO_BUF_QUEUE_INV_SIZE | RHINO_BUF_QUEUE_SIZE_ZERO
  | RHINO_BUF_QUEUE_FULL | RHINO_BUF_QUEUE_MSG_SIZE_OVERFLOW | RHINO_QUEUE_FULL
  | RHINO_QUEUE_NOT_FULL | RHINO_SEM_OVF | RHINO_SEM_TASK_WAITING
  | RHINO_MUTEX_NOT_RELEASED_BY_OWNER | RHINO_MUTEX_OWNER_NESTED | RHINO_MUTEX_NESTED_OVF
  | RHINO_INTRPT_NESTED_LEVEL_OVERFLOW | RHINO_INV_INTRPT_NESTED_LEVEL
  | RHINO_NOT_CALLED_BY_INTRPT | RHINO_TRY_AGAIN | RHINO_WORKQUEUE_EXIST
  | RHINO_WORKQUEUE_NOT_EXIST | RHINO_WORKQUEUE_WORK_EXIST | RHINO_WORKQUEUE_BUSY
  | RHINO_WORKQUEUE_WORK_RUNNING | RHINO_TASK_STACK_OVF | RHINO_INTRPT_STACK_OVF

datatype kres = Ret kstat_t | Blocked

end
