(* ===== verification/K_Bitmap.thy ===== *)
theory K_Bitmap
  imports Rhino_Prelude
begin

text \<open>
  The priority bitmap of \<^verbatim>\<open>core/include/k_bitmap.h\<close> and the bit searches of
  \<^verbatim>\<open>common/k_ffs.c\<close>, on arrays of 32-bit words. Bit \<open>nr\<close> of a bitmap is the bit counted
  from the most significant end of word \<open>nr >> 5\<close>. The C search reads past the end of an
  array without a set bit; the model returns \<open>None\<close> there. The lemmas show that set and
  clear act on one position, and that the five-step binary search returns the least
  position that is set.
\<close>

section \<open>The functions\<close>

definition BITMAP_MASK :: "nat \<Rightarrow> u32" where
  "BITMAP_MASK nr = push_bit (32 - 1 - (nr AND 0x1F)) 1"

definition BITMAP_WORD :: "nat \<Rightarrow> nat" where
  "BITMAP_WORD nr = drop_bit 5 nr"

definition krhino_bitmap_set :: "u32 list \<Rightarrow> nat \<Rightarrow> u32 list" where
  "krhino_bitmap_set bitmap nr =
     bitmap[BITMAP_WORD nr := bitmap ! BITMAP_WORD nr OR BITMAP_MASK nr]"

definition krhino_bitmap_clear :: "u32 list \<Rightarrow> nat \<Rightarrow> u32 list" where
  "krhino_bitmap_clear bitmap nr =
     bitmap[BITMAP_WORD nr := bitmap ! BITMAP_WORD nr AND NOT (BITMAP_MASK nr)]"

text \<open>The binary search inside one non-zero word (\<open>RHINO_CONFIG_BITMAP_HW\<close> is 0).\<close>

definition ffb_step :: "u32 \<Rightarrow> nat \<Rightarrow> u32 \<times> nat \<Rightarrow> u32 \<times> nat" where
  "ffb_step m k tn = (case tn of (tmp, nr) \<Rightarrow>
     if tmp AND m = 0 then (push_bit k tmp, nr + k) else (tmp, nr))"

definition find_first_bit_word :: "u32 \<Rightarrow> nat" where
  "find_first_bit_word tmp =
    (let tn = ffb_step 0xFFFF0000 16 (tmp, 0);
         tn = ffb_step 0xFF000000 8 tn;
         tn = ffb_step 0xF0000000 4 tn;
         tn = ffb_step 0xC0000000 2 tn;
         (tmp, nr) = tn
     in if tmp AND 0x80000000 = 0 then nr + 1 else nr)"

fun krhino_find_first_bit :: "u32 list \<Rightarrow> nat option" where
  "krhino_find_first_bit [] = None"
| "krhino_find_first_bit (w # ws) =
     (if w = 0 then map_option (\<lambda>nr. nr + 32) (krhino_find_first_bit ws)
      else Some (find_first_bit_word w))"

definition ffs32_msb :: "u32 \<Rightarrow> nat" where
  "ffs32_msb bitmap = (if bitmap = 0 then 0 else 32 - find_first_bit_word bitmap)"

definition ffs32_lsb :: "u32 \<Rightarrow> nat" where
  "ffs32_lsb bitmap =
     (if bitmap = 0 then 0
      else let x = bitmap AND - bitmap in 32 - find_first_bit_word x)"

text \<open>The bit of position \<open>nr\<close>, for the statements.\<close>

definition bitmap_test :: "u32 list \<Rightarrow> nat \<Rightarrow> bool" where
  "bitmap_test bitmap nr \<longleftrightarrow> nr div 32 < length bitmap \<and> bit (bitmap ! (nr div 32)) (31 - nr mod 32)"

section \<open>Set and clear\<close>

lemma BITMAP_WORD_div: "BITMAP_WORD nr = nr div 32"
  by (simp add: BITMAP_WORD_def drop_bit_eq_div)

lemma and_31_mod: "(nr::nat) AND 31 = nr mod 32"
proof -
  have "nr AND 31 = nr AND mask 5" by (simp add: mask_eq_exp_minus_1)
  also have "\<dots> = nr mod 32" by (simp add: take_bit_eq_mod flip: take_bit_eq_mask)
  finally show ?thesis .
qed

lemma BITMAP_MASK_eq: "BITMAP_MASK nr = push_bit (31 - nr mod 32) 1"
  by (simp add: BITMAP_MASK_def and_31_mod)

lemma bit_BITMAP_MASK: "bit (BITMAP_MASK nr) n \<longleftrightarrow> n = 31 - nr mod 32"
proof -
  have "31 - nr mod 32 < 32" by simp
  then show ?thesis by (auto simp: BITMAP_MASK_eq bit_exp_iff)
qed

lemma mod32_inj: "(31 - p mod 32 = 31 - q mod 32) \<longleftrightarrow> p mod 32 = (q::nat) mod 32"
proof -
  have "p mod 32 \<le> 31" "q mod 32 \<le> 31" by (simp_all add: less_Suc_eq_le [symmetric])
  then show ?thesis by arith
qed

lemma div_mod_32_eq: "p div 32 = q div 32 \<Longrightarrow> p mod 32 = q mod 32 \<Longrightarrow> p = (q::nat)"
  by (metis div_mult_mod_eq)

lemma length_bitmap_set [simp]: "length (krhino_bitmap_set bm nr) = length bm"
  by (simp add: krhino_bitmap_set_def)

lemma length_bitmap_clear [simp]: "length (krhino_bitmap_clear bm nr) = length bm"
  by (simp add: krhino_bitmap_clear_def)

lemma bitmap_test_set:
  "nr div 32 < length bm \<Longrightarrow> bitmap_test (krhino_bitmap_set bm nr) p \<longleftrightarrow> p = nr \<or> bitmap_test bm p"
  by (auto simp: bitmap_test_def krhino_bitmap_set_def BITMAP_WORD_div nth_list_update bit_or_iff
      bit_BITMAP_MASK mod32_inj dest: div_mod_32_eq)

lemma bitmap_test_clear:
  "bitmap_test (krhino_bitmap_clear bm nr) p \<longleftrightarrow> p \<noteq> nr \<and> bitmap_test bm p"
proof (cases "nr div 32 < length bm")
  case True
  then show ?thesis
    by (auto simp: bitmap_test_def krhino_bitmap_clear_def BITMAP_WORD_div nth_list_update bit_and_iff
        bit_not_iff bit_BITMAP_MASK mod32_inj dest: div_mod_32_eq)
next
  case False
  then show ?thesis
    by (auto simp: bitmap_test_def krhino_bitmap_clear_def BITMAP_WORD_div)
qed

section \<open>The search inside a word\<close>

text \<open>The top \<open>k\<close> bits of a word are zero.\<close>

definition topz :: "nat \<Rightarrow> u32 \<Rightarrow> bool" where
  "topz k w \<longleftrightarrow> (\<forall>m<k. \<not> bit w (31 - m))"

lemma and_top_mask:
  assumes "k \<le> 32"
  shows "w AND push_bit (32 - k) (mask k) = (0::u32) \<longleftrightarrow> topz k w"
proof
  assume z: "w AND push_bit (32 - k) (mask k) = 0"
  show "topz k w" unfolding topz_def
  proof (intro allI impI)
    fix m assume m: "m < k"
    have "\<not> bit (w AND push_bit (32 - k) (mask k)) (31 - m)" using z by simp
    with m assms show "\<not> bit w (31 - m)"
      by (auto simp: bit_and_iff bit_push_bit_iff bit_mask_iff)
  qed
next
  assume t: "topz k w"
  show "w AND push_bit (32 - k) (mask k) = 0"
  proof (rule bit_word_eqI)
    fix n assume n: "n < LENGTH(32)"
    have "\<not> bit w n" if "32 - k \<le> n"
    proof -
      have "31 - (31 - n) = n" using n by simp
      moreover have "31 - n < k" using that n assms by simp
      ultimately show ?thesis using t by (metis topz_def)
    qed
    then show "bit (w AND push_bit (32 - k) (mask k)) n = bit (0::u32) n"
      by (auto simp: bit_and_iff bit_push_bit_iff)
  qed
qed

lemma top_masks:
  "(0xFFFF0000::u32) = push_bit (32 - 16) (mask 16)"
  "(0xFF000000::u32) = push_bit (32 - 8) (mask 8)"
  "(0xF0000000::u32) = push_bit (32 - 4) (mask 4)"
  "(0xC0000000::u32) = push_bit (32 - 2) (mask 2)"
  "(0x80000000::u32) = push_bit (32 - 1) (mask 1)"
  by (simp_all add: mask_eq_exp_minus_1 push_bit_eq_mult)

lemma topz_32: "topz 32 w \<longleftrightarrow> w = 0"
proof
  assume t: "topz 32 w"
  show "w = 0"
  proof (rule bit_word_eqI)
    fix n assume "n < LENGTH(32)"
    then have "31 - (31 - n) = n" and "31 - n < 32" by simp_all
    then show "bit w n = bit 0 n" using t by (metis topz_def bit_0_eq bot_apply bot_bool_def)
  qed
qed (simp add: topz_def)

lemma bit_push_top: "m + k < 32 \<Longrightarrow> bit (push_bit k (w::u32)) (31 - m) \<longleftrightarrow> bit w (31 - (k + m))"
  by (auto simp: bit_push_bit_iff add.commute)

text \<open>
  One halving step: if the top \<open>2 * k\<close> bits hold a set bit, then after the step the top
  \<open>k\<close> bits do, and the word is still the input shifted by the position counted so far.
\<close>

definition step_inv :: "nat \<Rightarrow> u32 \<Rightarrow> u32 \<times> nat \<Rightarrow> bool" where
  "step_inv k x wn \<longleftrightarrow>
     snd wn + k \<le> 32 \<and> fst wn = push_bit (snd wn) x \<and> topz (snd wn) x \<and> \<not> topz k (fst wn)"

lemma step_inv_half:
  assumes "step_inv (2 * k) x (w, n)" and "0 < k"
  shows "step_inv k x (if topz k w then (push_bit k w, n + k) else (w, n))"
proof (cases "topz k w")
  case True
  from assms have n: "n + 2 * k \<le> 32" and w: "w = push_bit n x" and tn: "topz n x"
    and nt: "\<not> topz (2 * k) w" by (auto simp: step_inv_def)
  from nt obtain m where m: "m < 2 * k" "bit w (31 - m)" by (auto simp: topz_def)
  with True have "k \<le> m" by (auto simp: topz_def not_less [symmetric])
  then obtain j where j: "m = k + j" by (auto simp: le_iff_add)
  have "bit (push_bit k w) (31 - j)" using m j n by (subst bit_push_top) auto
  then have "\<not> topz k (push_bit k w)" using m(1) j by (auto simp: topz_def)
  moreover have "topz (n + k) x" unfolding topz_def
  proof (intro allI impI)
    fix i assume i: "i < n + k"
    show "\<not> bit x (31 - i)"
    proof (cases "i < n")
      case True with tn show ?thesis by (simp add: topz_def)
    next
      case False
      then obtain l where l: "i = n + l" by (auto simp: le_iff_add not_less)
      with i True have "\<not> bit w (31 - l)" by (simp add: topz_def)
      moreover have "l + n < 32" using i l n assms(2) by simp
      ultimately show ?thesis using w l by (simp add: bit_push_top)
    qed
  qed
  moreover have "push_bit k w = push_bit (n + k) x" by (simp add: w add.commute)
  ultimately show ?thesis using True n by (simp add: step_inv_def)
next
  case False
  with assms show ?thesis by (simp add: step_inv_def)
qed

lemma ffb_step_inv:
  assumes "step_inv (2 * k) x wn" and "0 < k" and "k \<le> 16"
  shows "step_inv k x (ffb_step (push_bit (32 - k) (mask k)) k wn)"
proof -
  obtain w n where wn: "wn = (w, n)" by (cases wn)
  have "(w AND push_bit (32 - k) (mask k) = 0) = topz k w"
    by (rule and_top_mask) (use assms(3) in simp)
  then show ?thesis using step_inv_half [of k x w n] assms(1,2) by (simp add: wn ffb_step_def)
qed

lemma step_inv_final:
  assumes "step_inv 1 x (w, n)"
  shows "n < 32" and "bit x (31 - n)" and "topz n x"
proof -
  from assms have n: "n + 1 \<le> 32" and "w = push_bit n x" and "topz n x" and "\<not> topz 1 w"
    by (auto simp: step_inv_def)
  then show "n < 32" and "topz n x" by auto
  from \<open>\<not> topz 1 w\<close> have "bit w (31 - 0)" by (simp add: topz_def)
  with \<open>w = push_bit n x\<close> n show "bit x (31 - n)" using bit_push_top [of 0 n x] by simp
qed

lemma find_first_bit_word_snd:
  "find_first_bit_word x =
     snd (ffb_step 0x80000000 1 (ffb_step 0xC0000000 2 (ffb_step 0xF0000000 4
       (ffb_step 0xFF000000 8 (ffb_step 0xFFFF0000 16 (x, 0))))))"
  unfolding find_first_bit_word_def Let_def
  by (simp only: ffb_step_def [of "0x80000000" 1] split: prod.split if_split) auto

lemma find_first_bit_word_inv:
  assumes "x \<noteq> 0"
  shows "\<exists>w. step_inv 1 x (w, find_first_bit_word x)"
proof -
  have "step_inv (2 * 16) x (x, 0)"
    using assms by (simp add: step_inv_def topz_32) (simp add: topz_def)
  then have "step_inv (2 * 8) x (ffb_step 0xFFFF0000 16 (x, 0))"
    using ffb_step_inv [of 16 x] unfolding top_masks by simp
  then have "step_inv (2 * 4) x (ffb_step 0xFF000000 8 (ffb_step 0xFFFF0000 16 (x, 0)))"
    using ffb_step_inv [of 8 x] unfolding top_masks by simp
  then have "step_inv (2 * 2) x (ffb_step 0xF0000000 4 (ffb_step 0xFF000000 8
      (ffb_step 0xFFFF0000 16 (x, 0))))"
    using ffb_step_inv [of 4 x] unfolding top_masks by simp
  then have "step_inv (2 * 1) x (ffb_step 0xC0000000 2 (ffb_step 0xF0000000 4
      (ffb_step 0xFF000000 8 (ffb_step 0xFFFF0000 16 (x, 0)))))"
    using ffb_step_inv [of 2 x] unfolding top_masks by simp
  then have "step_inv 1 x (ffb_step 0x80000000 1 (ffb_step 0xC0000000 2 (ffb_step 0xF0000000 4
      (ffb_step 0xFF000000 8 (ffb_step 0xFFFF0000 16 (x, 0))))))"
    using ffb_step_inv [of 1 x] unfolding top_masks by simp
  then show ?thesis by (metis find_first_bit_word_snd surjective_pairing)
qed

lemma find_first_bit_word_correct:
  assumes "x \<noteq> 0"
  shows "find_first_bit_word x < 32"
    and "bit x (31 - find_first_bit_word x)"
    and "m < find_first_bit_word x \<Longrightarrow> \<not> bit x (31 - m)"
  using find_first_bit_word_inv [OF assms] step_inv_final by (auto simp: topz_def)

section \<open>The search over a bitmap\<close>

lemma bitmap_test_Cons:
  "bitmap_test (w # ws) p \<longleftrightarrow> (if p < 32 then bit w (31 - p) else bitmap_test ws (p - 32))"
proof (cases "p < 32")
  case True
  then show ?thesis by (simp add: bitmap_test_def)
next
  case False
  then have "p div 32 = Suc ((p - 32) div 32)" and "p mod 32 = (p - 32) mod 32"
    by (simp_all add: div_if mod_if [of p 32])
  with False show ?thesis by (simp add: bitmap_test_def)
qed

text \<open>
  The search returns exactly the least set position: \<open>None\<close> (the read past the end) only
  for a bitmap without a set bit.
\<close>

lemma krhino_find_first_bit_Some:
  "krhino_find_first_bit bm = Some nr \<Longrightarrow>
     bitmap_test bm nr \<and> (\<forall>p<nr. \<not> bitmap_test bm p) \<and> nr < 32 * length bm"
proof (induction bm arbitrary: nr)
  case Nil
  then show ?case by simp
next
  case (Cons w ws)
  show ?case
  proof (cases "w = 0")
    case True
    with Cons.prems obtain n where n: "krhino_find_first_bit ws = Some n" "nr = n + 32" by auto
    from Cons.IH [OF n(1)] n(2) True show ?thesis by (auto simp: bitmap_test_Cons)
  next
    case False
    with Cons.prems find_first_bit_word_correct [of w] show ?thesis
      by (auto simp: bitmap_test_Cons)
  qed
qed

lemma krhino_find_first_bit_None:
  "krhino_find_first_bit bm = None \<Longrightarrow> \<not> bitmap_test bm p"
proof (induction bm arbitrary: p)
  case Nil
  then show ?case by (simp add: bitmap_test_def)
next
  case (Cons w ws)
  then show ?case by (auto simp: bitmap_test_Cons split: if_splits)
qed

lemma krhino_find_first_bit_least:
  "krhino_find_first_bit bm = Some nr \<longleftrightarrow> bitmap_test bm nr \<and> (\<forall>p<nr. \<not> bitmap_test bm p)"
proof
  assume "krhino_find_first_bit bm = Some nr"
  then show "bitmap_test bm nr \<and> (\<forall>p<nr. \<not> bitmap_test bm p)"
    using krhino_find_first_bit_Some by blast
next
  assume r: "bitmap_test bm nr \<and> (\<forall>p<nr. \<not> bitmap_test bm p)"
  then obtain n where n: "krhino_find_first_bit bm = Some n"
    using krhino_find_first_bit_None by (cases "krhino_find_first_bit bm") auto
  from krhino_find_first_bit_Some [OF n] r have "\<not> n < nr" and "\<not> nr < n" by auto
  with n show "krhino_find_first_bit bm = Some nr" by simp
qed

section \<open>Most and least significant set bit\<close>

lemma find_first_bit_word_exp: "n < 32 \<Longrightarrow> find_first_bit_word (2 ^ n) = 31 - n"
proof -
  assume n: "n < 32"
  let ?r = "find_first_bit_word (2 ^ n)"
  have nz: "(2 ^ n :: u32) \<noteq> 0" using n bit_exp_iff [where 'a = u32, of n n] by auto
  have "bit (2 ^ n :: u32) (31 - ?r)" and "?r < 32"
    using find_first_bit_word_correct [OF nz] by auto
  then have "n = 31 - ?r" by (simp add: bit_exp_iff)
  with \<open>?r < 32\<close> n show ?thesis by simp
qed

lemma ffs32_msb_correct:
  "x \<noteq> 0 \<Longrightarrow> bit x (ffs32_msb x - 1) \<and> (\<forall>n\<ge>ffs32_msb x. \<not> bit x n)"
proof -
  assume x: "x \<noteq> 0"
  let ?r = "find_first_bit_word x"
  have r: "?r < 32" "bit x (31 - ?r)" using find_first_bit_word_correct [OF x] by auto
  have "\<not> bit x n" if "32 - ?r \<le> n" for n
  proof (cases "n < 32")
    case True
    with that have "31 - n < ?r" by simp
    then have "\<not> bit x (31 - (31 - n))" using find_first_bit_word_correct(3) [OF x] by blast
    with True show ?thesis by simp
  next
    case False
    then show ?thesis using bit_imp_le_length [of x n] by auto
  qed
  with x r show ?thesis by (simp add: ffs32_msb_def)
qed

end
