(* ===== verification/K_Mem.thy ===== *)
theory K_Mem
  imports Rhino_Prelude
begin

text \<open>
  Byte-addressed memory, for the code that copies bytes (\<open>memcpy\<close>), and 32-bit words as
  the four bytes a little-endian CPU stores them in (\<^verbatim>\<open>core/include/k_endian.h\<close> with
  \<open>RHINO_CONFIG_LITTLE_ENDIAN\<close> 1). \<open>memcpy\<close> takes its source as a function of the
  offset, so that a source may be an address in memory or a local variable.
\<close>

type_synonym mem = "nat \<Rightarrow> u8"

definition memcpy :: "nat \<Rightarrow> (nat \<Rightarrow> u8) \<Rightarrow> nat \<Rightarrow> mem \<Rightarrow> mem" where
  "memcpy dst src n m = (\<lambda>a. if dst \<le> a \<and> a < dst + n then src (a - dst) else m a)"

definition mem_read :: "mem \<Rightarrow> nat \<Rightarrow> nat \<Rightarrow> u8 list" where
  "mem_read m a n = map (\<lambda>i. m (a + i)) [0..<n]"

definition bytes_at :: "u8 list \<Rightarrow> nat \<Rightarrow> u8" where
  "bytes_at bs i = (if i < length bs then bs ! i else 0)"

lemma length_mem_read [simp]: "length (mem_read m a n) = n"
  by (simp add: mem_read_def)

lemma nth_mem_read [simp]: "i < n \<Longrightarrow> mem_read m a n ! i = m (a + i)"
  by (simp add: mem_read_def)

lemma memcpy_0 [simp]: "memcpy d f 0 m = m"
  by (auto simp: memcpy_def fun_eq_iff)

lemma bit_u8_beyond [simp]: "8 \<le> n \<Longrightarrow> \<not> bit (w :: u8) n"
  using bit_imp_le_length [of w n] by auto

lemma mem_read_memcpy: "mem_read (memcpy d f n m) d n = map f [0..<n]"
  by (simp add: mem_read_def memcpy_def)

section \<open>Words as bytes\<close>

definition le_bytes :: "u32 \<Rightarrow> u8 list" where
  "le_bytes x = [ucast x, ucast (drop_bit 8 x), ucast (drop_bit 16 x), ucast (drop_bit 24 x)]"

definition le_u32 :: "u8 list \<Rightarrow> u32" where
  "le_u32 bs = ucast (bs ! 0) OR push_bit 8 (ucast (bs ! 1)) OR
     push_bit 16 (ucast (bs ! 2)) OR push_bit 24 (ucast (bs ! 3))"

definition krhino_ntohl :: "u32 \<Rightarrow> u32" where
  "krhino_ntohl x =
     push_bit 24 (x AND 0x000000ff) OR push_bit 8 (x AND 0x0000ff00) OR
     drop_bit 8 (x AND 0x00ff0000) OR drop_bit 24 (x AND 0xff000000)"

lemma length_le_bytes [simp]: "length (le_bytes x) = 4"
  by (simp add: le_bytes_def)

lemma byte_masks:
  "(0x000000ff::u32) = push_bit 0 (mask 8)" "(0x0000ff00::u32) = push_bit 8 (mask 8)"
  "(0x00ff0000::u32) = push_bit 16 (mask 8)" "(0xff000000::u32) = push_bit 24 (mask 8)"
  by (simp_all add: mask_eq_exp_minus_1 push_bit_eq_mult)

lemma le_u32_le_bytes: "le_u32 (le_bytes x) = x"
proof (rule bit_word_eqI)
  fix n assume "n < LENGTH(32)"
  then consider "n < 8" | "8 \<le> n" "n < 16" | "16 \<le> n" "n < 24" | "24 \<le> n" "n < 32"
    by fastforce
  then show "bit (le_u32 (le_bytes x)) n = bit x n"
    by cases (auto simp: le_u32_def le_bytes_def bit_simps)
qed

lemma le_bytes_le_u32: "length bs = 4 \<Longrightarrow> le_bytes (le_u32 bs) = bs"
proof -
  assume "length bs = 4"
  then obtain a b c d where bs: "bs = [a, b, c, d]"
    by (auto simp: numeral_eq_Suc length_Suc_conv)
  have "ucast (le_u32 bs) = a" "ucast (drop_bit 8 (le_u32 bs)) = b"
    "ucast (drop_bit 16 (le_u32 bs)) = c" "ucast (drop_bit 24 (le_u32 bs)) = d"
    by (auto simp: bs le_u32_def bit_simps intro!: bit_word_eqI)
  then show ?thesis by (simp add: le_bytes_def bs)
qed

lemma le_bytes_ntohl: "le_bytes (krhino_ntohl x) = rev (le_bytes x)"
proof -
  have "ucast (krhino_ntohl x) = (ucast (drop_bit 24 x) :: u8)"
    "ucast (drop_bit 8 (krhino_ntohl x)) = (ucast (drop_bit 16 x) :: u8)"
    "ucast (drop_bit 16 (krhino_ntohl x)) = (ucast (drop_bit 8 x) :: u8)"
    "ucast (drop_bit 24 (krhino_ntohl x)) = (ucast x :: u8)"
    by (auto simp: krhino_ntohl_def byte_masks bit_simps intro!: bit_word_eqI)
  then show ?thesis by (simp add: le_bytes_def)
qed

lemma ntohl_le_u32: "length bs = 4 \<Longrightarrow> krhino_ntohl (le_u32 bs) = le_u32 (rev bs)"
  using le_bytes_ntohl [of "le_u32 bs"] le_u32_le_bytes [of "krhino_ntohl (le_u32 bs)"]
  by (simp add: le_bytes_le_u32)

section \<open>Words in memory\<close>

definition put_u32 :: "nat \<Rightarrow> u32 \<Rightarrow> mem \<Rightarrow> mem" where
  "put_u32 a v m = memcpy a (bytes_at (le_bytes v)) 4 m"

definition get_u32 :: "nat \<Rightarrow> mem \<Rightarrow> u32" where
  "get_u32 a m = le_u32 (mem_read m a 4)"

lemma get_put_u32 [simp]: "get_u32 a (put_u32 a v m) = v"
proof -
  have "map (bytes_at (le_bytes v)) [0..<4] = le_bytes v" by (simp add: bytes_at_def le_bytes_def upt_rec)
  then show ?thesis by (simp add: get_u32_def put_u32_def mem_read_memcpy le_u32_le_bytes)
qed

lemma get_u32_cong: "(\<And>i. i < 4 \<Longrightarrow> m (a + i) = m' (b + i)) \<Longrightarrow> get_u32 a m = get_u32 b m'"
  by (auto simp: get_u32_def mem_read_def intro!: arg_cong [where f = le_u32])

lemma put_u32_byte: "a < b \<or> b + 4 \<le> a \<Longrightarrow> put_u32 b v m a = m a"
  by (auto simp: put_u32_def memcpy_def)

lemma get_put_u32_other: "a + 4 \<le> b \<or> b + 4 \<le> a \<Longrightarrow> get_u32 a (put_u32 b v m) = get_u32 a m"
  by (rule get_u32_cong) (auto intro: put_u32_byte)

lemma get_u32_upd: "b < a \<or> a + 4 \<le> b \<Longrightarrow> get_u32 a (m(b := x)) = get_u32 a m"
  by (rule get_u32_cong) auto

end
