(* ===== verification/K_Ringbuf.thy ===== *)
theory K_Ringbuf
  imports K_Mem K_Err
begin

text \<open>
  The ring buffer of \<^verbatim>\<open>core/k_ringbuf.c\<close>, on byte memory. Pointers are addresses; the
  stored bytes stay in the memory passed to each function. A message of a ring of dynamic
  type is preceded by its length in one to three bytes. \<open>rb_content\<close> is the sequence of
  bytes in the ring and \<open>rb_rep\<close> the sequence of messages; the lemmas show that push and
  pop are those of a first-in first-out queue wherever the ring wraps around, and that the
  length bytes decode to the length. \<open>msg_fifo\<close> is the interface the queues rely on.
\<close>

section \<open>The functions\<close>

definition RINGBUF_TYPE_FIX :: nat where "RINGBUF_TYPE_FIX = 0"
definition RINGBUF_TYPE_DYN :: nat where "RINGBUF_TYPE_DYN = 1"
definition RINGBUF_LEN_MAX_SIZE :: nat where "RINGBUF_LEN_MAX_SIZE = 3"

lemmas rb_types = RINGBUF_TYPE_FIX_def RINGBUF_TYPE_DYN_def

record k_ringbuf_t =
  rb_buf :: nat
  rb_end :: nat
  rb_head :: nat
  rb_tail :: nat
  freesize :: nat
  rb_type :: nat
  blk_size :: nat

definition ringbuf_reset :: "k_ringbuf_t \<Rightarrow> k_ringbuf_t" where
  "ringbuf_reset p = p\<lparr>rb_head := rb_buf p, rb_tail := rb_buf p, freesize := rb_end p - rb_buf p\<rparr>"

definition ringbuf_init :: "nat \<Rightarrow> nat \<Rightarrow> nat \<Rightarrow> nat \<Rightarrow> k_ringbuf_t \<Rightarrow> k_ringbuf_t" where
  "ringbuf_init buf len type block_size p =
     ringbuf_reset (p\<lparr>rb_type := type, rb_buf := buf, rb_end := buf + len, blk_size := block_size\<rparr>)"

definition ringbuf_is_full :: "k_ringbuf_t \<Rightarrow> bool" where
  "ringbuf_is_full p =
    (if rb_type p = RINGBUF_TYPE_DYN \<and> freesize p < 2 then True
     else if rb_type p = RINGBUF_TYPE_FIX \<and> freesize p < blk_size p then True
     else False)"

definition ringbuf_is_empty :: "k_ringbuf_t \<Rightarrow> bool" where
  "ringbuf_is_empty p \<longleftrightarrow> freesize p = rb_end p - rb_buf p"

text \<open>\<open>RHINO_INV_PARAM\<close> is 5 as a number.\<close>

definition COMPRESS_LEN :: "nat \<Rightarrow> nat" where
  "COMPRESS_LEN x =
    (if x \<le> 0x7f then 1 else if x \<le> 0x3fff then 2 else if x \<le> 0x3fffff then 3 else 5)"

definition ringbuf_headlen_compress :: "nat \<Rightarrow> u8 list \<Rightarrow> nat \<times> u8 list" where
  "ringbuf_headlen_compress head_len cmp_buf =
    (let be_len = krhino_ntohl (of_nat head_len);
         p_len = le_bytes be_len;
         len_bytes = COMPRESS_LEN head_len;
         cmp_buf =
           (if len_bytes = 1 then cmp_buf[0 := 0x7f AND p_len ! 3]
            else if len_bytes = 2 then cmp_buf[0 := 0x80 OR p_len ! 2, 1 := p_len ! 3]
            else if len_bytes = 3 then cmp_buf[0 := 0xC0 OR p_len ! 1, 1 := p_len ! 2, 2 := p_len ! 3]
            else cmp_buf)
     in (len_bytes, cmp_buf))"

definition ringbuf_headlen_decompress :: "nat \<Rightarrow> u8 list \<Rightarrow> nat" where
  "ringbuf_headlen_decompress buf_len cmp_buf =
    (let len_buf = replicate (4 - buf_len) 0 @ take buf_len cmp_buf;
         len_buf = (if buf_len > 1 then len_buf[4 - buf_len := len_buf ! (4 - buf_len) AND 0x3f]
                    else len_buf);
         be_len = le_u32 len_buf
     in unat (krhino_ntohl be_len))"

definition push_fix :: "k_ringbuf_t \<Rightarrow> (nat \<Rightarrow> u8) \<Rightarrow> mem \<Rightarrow> k_ringbuf_t \<times> mem" where
  "push_fix p data m =
    (let p = (if rb_tail p = rb_end p then p\<lparr>rb_tail := rb_buf p\<rparr> else p);
         m = memcpy (rb_tail p) data (blk_size p) m;
         p = p\<lparr>rb_tail := rb_tail p + blk_size p\<rparr>
     in (p\<lparr>freesize := freesize p - blk_size p\<rparr>, m))"

text \<open>Copying the length bytes, then the data, each split at the end of the buffer.\<close>

definition push_len ::
  "k_ringbuf_t \<Rightarrow> u8 list \<Rightarrow> nat \<Rightarrow> mem \<Rightarrow> k_ringbuf_t \<times> mem" where
  "push_len p c_len len_bytes m =
    (let p = (if rb_tail p = rb_end p then p\<lparr>rb_tail := rb_buf p\<rparr> else p);
         split_len = rb_end p - rb_tail p;
         (split_len, len_bytes, p, m) =
           (if rb_tail p \<ge> rb_head p \<and> split_len < len_bytes \<and> split_len > 0
            then (split_len, len_bytes - split_len,
                  p\<lparr>rb_tail := rb_buf p, freesize := freesize p - split_len\<rparr>,
                  memcpy (rb_tail p) (bytes_at c_len) split_len m)
            else (0, len_bytes, p, m))
     in if len_bytes > 0
        then (p\<lparr>freesize := freesize p - len_bytes, rb_tail := rb_tail p + len_bytes\<rparr>,
              memcpy (rb_tail p) (\<lambda>i. bytes_at c_len (split_len + i)) len_bytes m)
        else (p, m))"

definition push_data ::
  "k_ringbuf_t \<Rightarrow> (nat \<Rightarrow> u8) \<Rightarrow> nat \<Rightarrow> mem \<Rightarrow> k_ringbuf_t \<times> mem" where
  "push_data p data len m =
    (let p = (if rb_tail p = rb_end p then p\<lparr>rb_tail := rb_buf p\<rparr> else p);
         split_len = rb_end p - rb_tail p;
         (data, len, p, m) =
           (if rb_tail p \<ge> rb_head p \<and> split_len < len \<and> split_len > 0
            then (\<lambda>i. data (split_len + i), len - split_len,
                  p\<lparr>rb_tail := rb_buf p, freesize := freesize p - split_len\<rparr>,
                  memcpy (rb_tail p) data split_len m)
            else (data, len, p, m));
         m = memcpy (rb_tail p) data len m
     in (p\<lparr>rb_tail := rb_tail p + len, freesize := freesize p - len\<rparr>, m))"

definition ringbuf_push ::
  "k_ringbuf_t \<Rightarrow> (nat \<Rightarrow> u8) \<Rightarrow> nat \<Rightarrow> mem \<Rightarrow> kstat_t \<times> k_ringbuf_t \<times> mem" where
  "ringbuf_push p data len m =
    (if ringbuf_is_full p then (RHINO_RINGBUF_FULL, p, m)
     else if rb_type p = RINGBUF_TYPE_FIX then (RHINO_SUCCESS, push_fix p data m)
     else
       let (len_bytes, c_len) = ringbuf_headlen_compress len [0, 0, 0]
       in if len_bytes = 0 \<or> len_bytes > RINGBUF_LEN_MAX_SIZE then (RHINO_INV_PARAM, p, m)
          else if freesize p < len_bytes + len then (RHINO_RINGBUF_FULL, p, m)
          else let (p, m) = push_len p c_len len_bytes m
               in (RHINO_SUCCESS, push_data p data len m))"

text \<open>
  Pop returns the bytes it copies to \<open>pdata\<close>; the value of \<open>*plen\<close> is their number.
\<close>

definition pop_fix :: "k_ringbuf_t \<Rightarrow> mem \<Rightarrow> u8 list \<times> k_ringbuf_t" where
  "pop_fix p m =
    (let p = (if rb_head p = rb_end p then p\<lparr>rb_head := rb_buf p\<rparr> else p);
         pdata = mem_read m (rb_head p) (blk_size p)
     in (pdata, p\<lparr>rb_head := rb_head p + blk_size p, freesize := freesize p + blk_size p\<rparr>))"

text \<open>The number of length bytes, from the first of them; 0 stands for the error return.\<close>

definition pop_len_bytes :: "u8 \<Rightarrow> nat" where
  "pop_len_bytes b =
    (if b AND 0x80 = 0 then 1
     else if b AND 0xC0 = 0x80 then 2
     else if b AND 0xC0 = 0xC0 then 3
     else 0)"

definition pop_len :: "k_ringbuf_t \<Rightarrow> nat \<Rightarrow> mem \<Rightarrow> u8 list \<times> k_ringbuf_t" where
  "pop_len p len_bytes m =
    (let split_len = rb_end p - rb_head p;
         (split_len, c_len, p) =
           (if split_len < len_bytes \<and> split_len > 0
            then (split_len, mem_read m (rb_head p) split_len,
                  p\<lparr>rb_head := rb_buf p, freesize := freesize p + split_len\<rparr>)
            else (0, [], p))
     in if len_bytes - split_len > 0
        then (c_len @ mem_read m (rb_head p) (len_bytes - split_len),
              p\<lparr>rb_head := rb_head p + (len_bytes - split_len),
                freesize := freesize p + (len_bytes - split_len)\<rparr>)
        else (c_len, p))"

definition pop_data :: "k_ringbuf_t \<Rightarrow> nat \<Rightarrow> mem \<Rightarrow> u8 list \<times> k_ringbuf_t" where
  "pop_data p len m =
    (let p = (if rb_head p = rb_end p then p\<lparr>rb_head := rb_buf p\<rparr> else p);
         split_len = rb_end p - rb_head p;
         (pdata, len, p) =
           (if rb_head p > rb_tail p \<and> split_len < len
            then (mem_read m (rb_head p) split_len, len - split_len,
                  p\<lparr>rb_head := rb_buf p, freesize := freesize p + split_len\<rparr>)
            else ([], len, p))
     in (pdata @ mem_read m (rb_head p) len,
         p\<lparr>rb_head := rb_head p + len, freesize := freesize p + len\<rparr>))"

definition ringbuf_pop :: "k_ringbuf_t \<Rightarrow> mem \<Rightarrow> kstat_t \<times> u8 list \<times> k_ringbuf_t" where
  "ringbuf_pop p m =
    (if ringbuf_is_empty p then (RHINO_RINGBUF_EMPTY, [], p)
     else if rb_type p = RINGBUF_TYPE_FIX then (RHINO_SUCCESS, pop_fix p m)
     else
       let p = (if rb_head p = rb_end p then p\<lparr>rb_head := rb_buf p\<rparr> else p);
           len_bytes = pop_len_bytes (m (rb_head p))
       in if len_bytes = 0 then (RHINO_INV_PARAM, [], p)
          else let (c_len, p) = pop_len p len_bytes m;
                   len = ringbuf_headlen_decompress len_bytes c_len
               in (RHINO_SUCCESS, pop_data p len m))"

text \<open>The external functions, with their parameter checks.\<close>

definition krhino_ringbuf_init ::
  "nat \<Rightarrow> nat \<Rightarrow> nat \<Rightarrow> nat \<Rightarrow> k_ringbuf_t \<Rightarrow> kstat_t \<times> k_ringbuf_t" where
  "krhino_ringbuf_init buf len type block_size p =
    (if len = 0 \<or> (type \<noteq> RINGBUF_TYPE_DYN \<and> type \<noteq> RINGBUF_TYPE_FIX) then (RHINO_INV_PARAM, p)
     else if type = RINGBUF_TYPE_FIX \<and> (len = 0 \<or> block_size = 0 \<or> len mod block_size \<noteq> 0)
     then (RHINO_INV_PARAM, p)
     else (RHINO_SUCCESS, ringbuf_init buf len type block_size p))"

definition krhino_ringbuf_is_empty :: "k_ringbuf_t \<Rightarrow> bool" where
  "krhino_ringbuf_is_empty p = ringbuf_is_empty p"

definition krhino_ringbuf_is_full :: "k_ringbuf_t \<Rightarrow> bool" where
  "krhino_ringbuf_is_full p = ringbuf_is_full p"

definition krhino_ringbuf_push ::
  "k_ringbuf_t \<Rightarrow> (nat \<Rightarrow> u8) \<Rightarrow> nat \<Rightarrow> mem \<Rightarrow> kstat_t \<times> k_ringbuf_t \<times> mem" where
  "krhino_ringbuf_push p data len m =
    (if len \<le> 0 \<or> len > 0x3fffff \<or> (rb_type p = RINGBUF_TYPE_FIX \<and> len \<noteq> blk_size p)
     then (RHINO_INV_PARAM, p, m)
     else ringbuf_push p data len m)"

definition krhino_ringbuf_pop ::
  "k_ringbuf_t \<Rightarrow> bool \<Rightarrow> mem \<Rightarrow> kstat_t \<times> u8 list \<times> k_ringbuf_t" where
  "krhino_ringbuf_pop p plen_null m =
    (if rb_type p = RINGBUF_TYPE_DYN \<and> plen_null then (RHINO_INV_PARAM, [], p)
     else ringbuf_pop p m)"

definition krhino_ringbuf_reset :: "k_ringbuf_t \<Rightarrow> kstat_t \<times> k_ringbuf_t" where
  "krhino_ringbuf_reset p = (RHINO_SUCCESS, ringbuf_reset p)"

section \<open>The bytes in the ring\<close>

definition rb_size :: "k_ringbuf_t \<Rightarrow> nat" where
  "rb_size p = rb_end p - rb_buf p"

definition rb_used :: "k_ringbuf_t \<Rightarrow> nat" where
  "rb_used p = rb_size p - freesize p"

definition rb_wf :: "k_ringbuf_t \<Rightarrow> bool" where
  "rb_wf p \<longleftrightarrow> rb_buf p < rb_end p \<and> rb_buf p \<le> rb_head p \<and> rb_head p \<le> rb_end p \<and>
     rb_buf p \<le> rb_tail p \<and> rb_tail p \<le> rb_end p \<and> freesize p \<le> rb_size p \<and>
     (rb_tail p - rb_buf p) mod rb_size p = (rb_head p - rb_buf p + rb_used p) mod rb_size p"

definition rb_cell :: "k_ringbuf_t \<Rightarrow> nat \<Rightarrow> nat" where
  "rb_cell p i = rb_buf p + (rb_head p - rb_buf p + i) mod rb_size p"

definition rb_content :: "k_ringbuf_t \<Rightarrow> mem \<Rightarrow> u8 list" where
  "rb_content p m = map (\<lambda>i. m (rb_cell p i)) [0..<rb_used p]"

lemma ring_offsets:
  fixes n :: nat
  assumes "t \<le> n" "h \<le> n" "u \<le> n" "0 < n" "t mod n = (h + u) mod n"
  shows "t = h + u \<or> t + n = h + u \<or> (t = n \<and> h = 0 \<and> u = 0) \<or> (t = 0 \<and> h = n \<and> u = n)"
proof (cases "h + u < 2 * n")
  case True
  then have "(h + u) mod n = (if h + u < n then h + u else h + u - n)" by (rule mod_lt_double)
  with assms show ?thesis by (cases "t = n") (auto split: if_splits)
next
  case False
  with assms have "h = n" "u = n" by auto
  with assms show ?thesis by (cases "t = n") auto
qed

lemma rb_wf_offsets:
  assumes "rb_wf p"
  obtains n h t u where "0 < n" "rb_size p = n" "rb_end p = rb_buf p + n"
    "rb_head p = rb_buf p + h" "h \<le> n" "rb_tail p = rb_buf p + t" "t \<le> n"
    "rb_used p = u" "u \<le> n" "freesize p = n - u"
    "t = h + u \<or> t + n = h + u \<or> (t = n \<and> h = 0 \<and> u = 0) \<or> (t = 0 \<and> h = n \<and> u = n)"
proof -
  let ?n = "rb_size p" and ?h = "rb_head p - rb_buf p" and ?t = "rb_tail p - rb_buf p" and ?u = "rb_used p"
  have b: "0 < ?n" "?h \<le> ?n" "?t \<le> ?n" "?u \<le> ?n" "freesize p = ?n - ?u"
    using assms by (auto simp: rb_wf_def rb_size_def rb_used_def)
  moreover have "?t mod ?n = (?h + ?u) mod ?n" using assms by (simp add: rb_wf_def)
  ultimately have "?t = ?h + ?u \<or> ?t + ?n = ?h + ?u \<or> (?t = ?n \<and> ?h = 0 \<and> ?u = 0) \<or>
      (?t = 0 \<and> ?h = ?n \<and> ?u = ?n)"
    by (intro ring_offsets)
  then show thesis using b assms by (intro that [of ?n ?h ?t ?u]) (auto simp: rb_wf_def rb_size_def)
qed

text \<open>Copying a run of bytes behind the tail, split where the buffer ends.\<close>

definition rb_put :: "(nat \<Rightarrow> u8) \<Rightarrow> nat \<Rightarrow> k_ringbuf_t \<times> mem \<Rightarrow> k_ringbuf_t \<times> mem" where
  "rb_put src k pm = (case pm of (p, m) \<Rightarrow>
    let p = (if rb_tail p = rb_end p then p\<lparr>rb_tail := rb_buf p\<rparr> else p);
        sp = rb_end p - rb_tail p
    in if rb_tail p \<ge> rb_head p \<and> sp < k
       then (p\<lparr>rb_tail := rb_buf p + (k - sp), freesize := freesize p - k\<rparr>,
             memcpy (rb_buf p) (\<lambda>i. src (sp + i)) (k - sp) (memcpy (rb_tail p) src sp m))
       else (p\<lparr>rb_tail := rb_tail p + k, freesize := freesize p - k\<rparr>, memcpy (rb_tail p) src k m))"

lemma rb_put_frame [simp]:
  "rb_buf (fst (rb_put src k (p, m))) = rb_buf p" "rb_end (fst (rb_put src k (p, m))) = rb_end p"
  "rb_head (fst (rb_put src k (p, m))) = rb_head p" "rb_type (fst (rb_put src k (p, m))) = rb_type p"
  "blk_size (fst (rb_put src k (p, m))) = blk_size p" "rb_size (fst (rb_put src k (p, m))) = rb_size p"
  "freesize (fst (rb_put src k (p, m))) = freesize p - k"
  by (simp_all add: rb_put_def Let_def rb_size_def)

text \<open>The offset of the tail once a tail at the end has been moved to the start.\<close>

definition tail_off :: "k_ringbuf_t \<Rightarrow> nat" where
  "tail_off p = (if rb_tail p = rb_end p then 0 else rb_tail p - rb_buf p)"

lemma tail_off_cases:
  assumes "rb_wf p"
  obtains n h t u where "0 < n" "rb_size p = n" "rb_end p = rb_buf p + n"
    "rb_head p = rb_buf p + h" "h \<le> n" "tail_off p = t" "t < n"
    "rb_used p = u" "u \<le> n" "freesize p = n - u"
    "t = h + u \<or> (t + n = h + u \<and> t \<le> h) \<or> (t = 0 \<and> h = n \<and> u = n)"
proof -
  obtain n h t u where o: "0 < n" "rb_size p = n" "rb_end p = rb_buf p + n"
    "rb_head p = rb_buf p + h" "h \<le> n" "rb_tail p = rb_buf p + t" "t \<le> n"
    "rb_used p = u" "u \<le> n" "freesize p = n - u"
    "t = h + u \<or> t + n = h + u \<or> (t = n \<and> h = 0 \<and> u = 0) \<or> (t = 0 \<and> h = n \<and> u = n)"
    using rb_wf_offsets [OF assms(1)] .
  then have "tail_off p = (if t = n then 0 else t)" by (simp add: tail_off_def)
  with o show thesis by (cases "t = n") (auto intro!: that [of n h "tail_off p" u])
qed

lemma rb_put_eq:
  assumes "rb_wf p"
  shows "rb_put src k (p, m) =
    (let t = tail_off p; n = rb_size p in
     if rb_head p \<le> rb_buf p + t \<and> n < t + k
     then (p\<lparr>rb_tail := rb_buf p + (t + k - n), freesize := freesize p - k\<rparr>,
           memcpy (rb_buf p) (\<lambda>i. src (n - t + i)) (t + k - n) (memcpy (rb_buf p + t) src (n - t) m))
     else (p\<lparr>rb_tail := rb_buf p + t + k, freesize := freesize p - k\<rparr>, memcpy (rb_buf p + t) src k m))"
proof -
  have b: "rb_buf p \<le> rb_tail p" "rb_tail p \<le> rb_end p" "rb_buf p < rb_end p"
    using assms by (auto simp: rb_wf_def)
  show ?thesis
  proof (cases "rb_tail p = rb_end p")
    case True
    with b show ?thesis by (auto simp: rb_put_def Let_def tail_off_def rb_size_def less_diff_conv2)
  next
    case False
    with b have "k - (rb_end p - rb_tail p) = tail_off p + k - rb_size p"
      "rb_end p - rb_tail p < k \<longleftrightarrow> rb_size p < tail_off p + k"
      "rb_tail p = rb_buf p + tail_off p" "rb_end p - rb_tail p = rb_size p - tail_off p"
      by (auto simp: tail_off_def rb_size_def)
    with False show ?thesis by (simp add: rb_put_def Let_def)
  qed
qed

lemma ring_mod_shift:
  fixes n :: nat
  assumes "t = h + u \<or> (t + n = h + u \<and> t \<le> h) \<or> (t = 0 \<and> h = n \<and> u = n)"
    and "j \<le> n - u"
  shows "(h + (u + j)) mod n = (t + j) mod n"
  using assms(1)
proof (elim disjE conjE)
  assume "t = h + u"
  then show ?thesis by (simp add: add.assoc)
next
  assume "t + n = h + u"
  then have "h + (u + j) = t + j + n" by simp
  then show ?thesis by (simp only: mod_add_self2)
qed (use assms(2) in auto)

lemma rb_put_wf:
  assumes "rb_wf p" and "k \<le> freesize p"
  shows "rb_wf (fst (rb_put src k (p, m)))"
proof -
  obtain n h t u where o: "0 < n" "rb_size p = n" "rb_end p = rb_buf p + n"
    "rb_head p = rb_buf p + h" "h \<le> n" "tail_off p = t" "t < n"
    "rb_used p = u" "u \<le> n" "freesize p = n - u"
    and c: "t = h + u \<or> (t + n = h + u \<and> t \<le> h) \<or> (t = 0 \<and> h = n \<and> u = n)"
    using tail_off_cases [OF assms(1)] .
  let ?p = "fst (rb_put src k (p, m))"
  define r where "r = (if h \<le> t \<and> n < t + k then t + k - n else t + k)"
  have tail: "rb_tail ?p = rb_buf p + r"
    using o by (auto simp: rb_put_eq [OF assms(1)] Let_def r_def)
  have u': "rb_used ?p = u + k" using o assms(2) by (simp add: rb_used_def)
  have k: "k \<le> n - u" using assms(2) o by simp
  have "r \<le> n" using c k o(5,7,9) by (auto simp: r_def)
  moreover have "(h + (u + k)) mod n = (t + k) mod n"
    using c k by (rule ring_mod_shift)
  moreover have "r mod n = (t + k) mod n" by (auto simp: r_def le_mod_geq)
  ultimately show ?thesis using o u' tail assms by (simp add: rb_wf_def)
qed

lemma rb_put_mem:
  assumes "rb_wf p" and "k \<le> freesize p" and "c < rb_size p"
  shows "snd (rb_put src k (p, m)) (rb_buf p + c) =
    (if tail_off p \<le> c \<and> c < tail_off p + k then src (c - tail_off p)
     else if c + rb_size p < tail_off p + k then src (c + rb_size p - tail_off p)
     else m (rb_buf p + c))"
proof -
  obtain n h t u where o: "0 < n" "rb_size p = n" "rb_end p = rb_buf p + n"
    "rb_head p = rb_buf p + h" "h \<le> n" "tail_off p = t" "t < n"
    "rb_used p = u" "u \<le> n" "freesize p = n - u"
    and c: "t = h + u \<or> (t + n = h + u \<and> t \<le> h) \<or> (t = 0 \<and> h = n \<and> u = n)"
    using tail_off_cases [OF assms(1)] .
  have "t + k \<le> n" if "\<not> (h \<le> t \<and> n < t + k)"
    using that c assms(2) o(5,7,9,10) by auto
  moreover have "k \<le> n" using assms(2) o by simp
  ultimately show ?thesis using assms(3) o
    by (auto simp: rb_put_eq [OF assms(1)] Let_def memcpy_def add.commute)
qed

lemma rb_put_outside:
  assumes "rb_wf p" and "k \<le> freesize p" and "a < rb_buf p \<or> rb_end p \<le> a"
  shows "snd (rb_put src k (p, m)) a = m a"
proof -
  obtain n h t u where o: "0 < n" "rb_size p = n" "rb_end p = rb_buf p + n"
    "rb_head p = rb_buf p + h" "h \<le> n" "tail_off p = t" "t < n"
    "rb_used p = u" "u \<le> n" "freesize p = n - u"
    and c: "t = h + u \<or> (t + n = h + u \<and> t \<le> h) \<or> (t = 0 \<and> h = n \<and> u = n)"
    using tail_off_cases [OF assms(1)] .
  have "t + k \<le> n" if "\<not> (h \<le> t \<and> n < t + k)"
    using that c assms(2) o(5,7,9,10) by auto
  moreover have "k \<le> n" using assms(2) o by simp
  ultimately show ?thesis using assms(3) o
    by (auto simp: rb_put_eq [OF assms(1)] Let_def memcpy_def)
qed

lemma rb_put_content:
  assumes "rb_wf p" and "k \<le> freesize p"
  shows "rb_content (fst (rb_put src k (p, m))) (snd (rb_put src k (p, m))) =
    rb_content p m @ map src [0..<k]"
proof -
  obtain n h t u where o: "0 < n" "rb_size p = n" "rb_end p = rb_buf p + n"
    "rb_head p = rb_buf p + h" "h \<le> n" "tail_off p = t" "t < n"
    "rb_used p = u" "u \<le> n" "freesize p = n - u"
    and c: "t = h + u \<or> (t + n = h + u \<and> t \<le> h) \<or> (t = 0 \<and> h = n \<and> u = n)"
    using tail_off_cases [OF assms(1)] .
  let ?m = "snd (rb_put src k (p, m))"
  have k: "k \<le> n - u" using assms(2) o by simp
  have old: "?m (rb_buf p + (h + i) mod n) = m (rb_buf p + (h + i) mod n)" if "i < u" for i
  proof -
    have "(h + i) mod n = (if h + i < n then h + i else h + i - n)"
      using that o(5,9) by (intro mod_lt_double) simp
    then show ?thesis using rb_put_mem [OF assms, of "(h + i) mod n"] that c k o(1,2,5,6,7,9)
      by (auto split: if_splits)
  qed
  have new: "?m (rb_buf p + (h + (u + j)) mod n) = src j" if "j < k" for j
  proof -
    have "(h + (u + j)) mod n = (t + j) mod n"
      using c k that by (intro ring_mod_shift) auto
    also have "\<dots> = (if t + j < n then t + j else t + j - n)"
      using that o(7,9) k by (intro mod_lt_double) simp
    finally show ?thesis using rb_put_mem [OF assms, of "(h + (u + j)) mod n"] that k o(1,2,6,7,9)
      by (auto split: if_splits)
  qed
  have used: "rb_used (fst (rb_put src k (p, m))) = u + k"
    using o assms(2) by (simp add: rb_used_def)
  show ?thesis
  proof (rule nth_equalityI)
    show "length (rb_content (fst (rb_put src k (p, m))) ?m) = length (rb_content p m @ map src [0..<k])"
      using used o(8) by (simp add: rb_content_def)
  next
    fix i assume "i < length (rb_content (fst (rb_put src k (p, m))) ?m)"
    then have i: "i < u + k" by (simp add: rb_content_def used)
    show "rb_content (fst (rb_put src k (p, m))) ?m ! i = (rb_content p m @ map src [0..<k]) ! i"
      using i used o(2,4,8) old [of i] new [of "i - u"]
      by (cases "i < u") (auto simp: rb_content_def rb_cell_def nth_append)
  qed
qed

text \<open>Copying a run of bytes from the head on, split where the buffer ends.\<close>

definition head_off :: "k_ringbuf_t \<Rightarrow> nat" where
  "head_off p = (if rb_head p = rb_end p then 0 else rb_head p - rb_buf p)"

definition rb_get :: "nat \<Rightarrow> k_ringbuf_t \<Rightarrow> mem \<Rightarrow> u8 list \<times> k_ringbuf_t" where
  "rb_get k p m =
    (let h = head_off p; n = rb_size p in
     if n < h + k
     then (mem_read m (rb_buf p + h) (n - h) @ mem_read m (rb_buf p) (h + k - n),
           p\<lparr>rb_head := rb_buf p + (h + k - n), freesize := freesize p + k\<rparr>)
     else (mem_read m (rb_buf p + h) k, p\<lparr>rb_head := rb_buf p + h + k, freesize := freesize p + k\<rparr>))"

lemma rb_get_frame [simp]:
  "rb_buf (snd (rb_get k p m)) = rb_buf p" "rb_end (snd (rb_get k p m)) = rb_end p"
  "rb_tail (snd (rb_get k p m)) = rb_tail p" "rb_type (snd (rb_get k p m)) = rb_type p"
  "blk_size (snd (rb_get k p m)) = blk_size p" "rb_size (snd (rb_get k p m)) = rb_size p"
  "freesize (snd (rb_get k p m)) = freesize p + k"
  by (simp_all add: rb_get_def Let_def rb_size_def)

lemma head_off_props:
  assumes "rb_wf p"
  shows "head_off p < rb_size p" and "(rb_head p - rb_buf p + i) mod rb_size p = (head_off p + i) mod rb_size p"
proof -
  show "head_off p < rb_size p" using assms by (auto simp: rb_wf_def head_off_def rb_size_def)
  show "(rb_head p - rb_buf p + i) mod rb_size p = (head_off p + i) mod rb_size p"
    unfolding head_off_def by (simp add: rb_size_def [symmetric])
qed

lemma rb_cell_head_off: "rb_wf p \<Longrightarrow> rb_cell p i = rb_buf p + (head_off p + i) mod rb_size p"
  by (simp add: rb_cell_def head_off_props)

lemma rb_get_head:
  assumes "rb_wf p" and "k \<le> rb_used p"
  shows "rb_buf p \<le> rb_head (snd (rb_get k p m))" and "rb_head (snd (rb_get k p m)) \<le> rb_end p"
    and "(rb_head (snd (rb_get k p m)) - rb_buf p + i) mod rb_size p = (head_off p + (k + i)) mod rb_size p"
proof -
  have h: "head_off p < rb_size p" by (rule head_off_props [OF assms(1)])
  have n: "rb_end p = rb_buf p + rb_size p" "k \<le> rb_size p"
    using assms by (auto simp: rb_wf_def rb_size_def rb_used_def)
  show "rb_buf p \<le> rb_head (snd (rb_get k p m))" using h n by (auto simp: rb_get_def Let_def)
  show "rb_head (snd (rb_get k p m)) \<le> rb_end p" using h n by (auto simp: rb_get_def Let_def)
  show "(rb_head (snd (rb_get k p m)) - rb_buf p + i) mod rb_size p = (head_off p + (k + i)) mod rb_size p"
  proof (cases "rb_size p < head_off p + k")
    case True
    then have "head_off p + (k + i) = head_off p + k - rb_size p + i + rb_size p" by simp
    then have "(head_off p + (k + i)) mod rb_size p = (head_off p + k - rb_size p + i) mod rb_size p"
      by (simp only: mod_add_self2)
    with True show ?thesis by (simp add: rb_get_def Let_def)
  next
    case False
    then show ?thesis by (simp add: rb_get_def Let_def add.assoc)
  qed
qed

lemma rb_get_wf:
  assumes "rb_wf p" and "k \<le> rb_used p"
  shows "rb_wf (snd (rb_get k p m))"
proof -
  have free: "freesize p + k \<le> rb_size p" "rb_used (snd (rb_get k p m)) = rb_used p - k"
    using assms by (auto simp: rb_wf_def rb_used_def)
  have "(rb_tail p - rb_buf p) mod rb_size p = (head_off p + rb_used p) mod rb_size p"
    using assms(1) head_off_props(2) [OF assms(1)] by (simp add: rb_wf_def)
  moreover have "(rb_head (snd (rb_get k p m)) - rb_buf p + (rb_used p - k)) mod rb_size p =
      (head_off p + rb_used p) mod rb_size p"
    using rb_get_head(3) [OF assms, of m "rb_used p - k"] assms(2) by simp
  ultimately show ?thesis using assms(1) free rb_get_head [OF assms] by (simp add: rb_wf_def)
qed

lemma rb_get_content:
  assumes "rb_wf p" and "k \<le> rb_used p"
  shows "rb_content (snd (rb_get k p m)) m = drop k (rb_content p m)"
proof -
  have "rb_used (snd (rb_get k p m)) = rb_used p - k" by (simp add: rb_used_def)
  moreover have "rb_cell (snd (rb_get k p m)) i = rb_cell p (k + i)" for i
    using rb_get_head(3) [OF assms] by (simp add: rb_cell_def rb_cell_head_off [OF assms(1)]
        head_off_props(2) [OF assms(1)])
  ultimately show ?thesis by (auto simp: rb_content_def intro!: nth_equalityI)
qed

lemma rb_get_bytes:
  assumes "rb_wf p" and "k \<le> rb_used p"
  shows "fst (rb_get k p m) = take k (rb_content p m)"
proof -
  let ?h = "head_off p" and ?n = "rb_size p"
  have h: "?h < ?n" by (rule head_off_props [OF assms(1)])
  have k: "k \<le> ?n" using assms by (auto simp: rb_wf_def rb_used_def)
  have "(?h + i) mod ?n = (if ?h + i < ?n then ?h + i else ?h + i - ?n)" if "i < k" for i
    using that h k by (intro mod_lt_double) simp
  then show ?thesis using assms(2) h k
    by (auto simp: rb_get_def Let_def rb_content_def rb_cell_head_off [OF assms(1)] nth_append
        less_diff_conv add.assoc add.commute add.left_commute intro!: nth_equalityI)
qed

section \<open>The length bytes\<close>

definition len_head :: "nat \<Rightarrow> u8 list" where
  "len_head len = take (COMPRESS_LEN len) (snd (ringbuf_headlen_compress len [0, 0, 0]))"

lemma bit_of_nat_beyond: "len < 2 ^ n \<Longrightarrow> n \<le> k \<Longrightarrow> \<not> bit (of_nat len :: u32) k"
proof -
  assume "len < 2 ^ n" and "n \<le> k"
  moreover have "(2::nat) ^ n \<le> 2 ^ k" if "n \<le> k" using that by simp
  ultimately have "len < 2 ^ k" using less_le_trans by blast
  then have "\<not> bit len k" by (simp add: bit_iff_odd)
  then show ?thesis by (simp add: bit_of_nat_iff)
qed

lemma u8_masks:
  "bit (0x80::int) k \<longleftrightarrow> k = 7" "bit (0xC0::int) k \<longleftrightarrow> k = 6 \<or> k = 7"
  "bit (0x3f::int) k \<longleftrightarrow> k < 6" "bit (0x7f::int) k \<longleftrightarrow> k < 7"
proof -
  have m: "(0x80::int) = push_bit 7 (mask 1)" "(0xC0::int) = push_bit 6 (mask 2)"
    "(0x3f::int) = mask 6" "(0x7f::int) = mask 7"
    by (simp_all add: mask_eq_exp_minus_1 push_bit_eq_mult)
  show "bit (0x80::int) k \<longleftrightarrow> k = 7" "bit (0xC0::int) k \<longleftrightarrow> k = 6 \<or> k = 7"
    "bit (0x3f::int) k \<longleftrightarrow> k < 6" "bit (0x7f::int) k \<longleftrightarrow> k < 7"
    unfolding m by (auto simp only: bit_push_bit_iff bit_mask_iff) auto
qed

text \<open>Bytes of a word that has no bits from \<open>n\<close> on.\<close>

lemma high_byte_zero:
  "(\<And>k. n \<le> k \<Longrightarrow> \<not> bit (x::u32) k) \<Longrightarrow> n \<le> j \<Longrightarrow> (ucast (drop_bit j x) :: u8) = 0"
  by (rule bit_word_eqI) (auto simp: bit_simps)

lemma top_byte_masks:
  fixes y :: u8
  shows "\<not> bit y 7 \<Longrightarrow> 0x7f AND y = y"
    and "\<not> bit y 7 \<Longrightarrow> \<not> bit y 6 \<Longrightarrow> (0x80 OR y) AND 0x3f = y"
    and "\<not> bit y 7 \<Longrightarrow> \<not> bit y 6 \<Longrightarrow> (0xC0 OR y) AND 0x3f = y"
    and "\<not> bit y 6 \<Longrightarrow> (0x80 OR y) AND 0xC0 = 0x80"
proof -
  have c: "k < 6 \<or> k = 6 \<or> k = 7" if "k < LENGTH(8)" for k using that by auto
  show "\<not> bit y 7 \<Longrightarrow> 0x7f AND y = y"
    by (rule bit_word_eqI, drule c) (auto simp: u8_masks bit_and_iff bit_mask_iff)
  show "\<not> bit y 7 \<Longrightarrow> \<not> bit y 6 \<Longrightarrow> (0x80 OR y) AND 0x3f = y"
    by (rule bit_word_eqI, drule c) (auto simp: u8_masks bit_simps)
  show "\<not> bit y 7 \<Longrightarrow> \<not> bit y 6 \<Longrightarrow> (0xC0 OR y) AND 0x3f = y"
    by (rule bit_word_eqI, drule c) (auto simp: u8_masks bit_simps)
  show "\<not> bit y 6 \<Longrightarrow> (0x80 OR y) AND 0xC0 = 0x80"
    by (rule bit_word_eqI, drule c) (auto simp: u8_masks bit_simps)
qed

lemma high_bits:
  "(\<And>k. n \<le> k \<Longrightarrow> \<not> bit (x::u32) k) \<Longrightarrow> n \<le> j + i \<Longrightarrow> \<not> bit (ucast (drop_bit j x) :: u8) i"
  by (auto simp: bit_simps)

lemma class_masks:
  fixes y :: u8
  shows "(0x7f AND y) AND 0x80 = 0" and "(0x80 OR y) AND 0x80 \<noteq> 0"
    and "(0xC0 OR y) AND 0x80 \<noteq> 0" and "(0xC0 OR y) AND 0xC0 = 0xC0"
proof -
  show "(0x7f AND y) AND 0x80 = 0" "(0xC0 OR y) AND 0xC0 = 0xC0"
    by (auto simp: u8_masks bit_simps intro!: bit_word_eqI)
  have "bit ((0x80 OR y) AND 0x80) 7" "bit ((0xC0 OR y) AND 0x80) 7" by (simp_all add: u8_masks bit_simps)
  then show "(0x80 OR y) AND 0x80 \<noteq> 0" "(0xC0 OR y) AND 0x80 \<noteq> 0" by auto
qed

lemma p_len_bytes:
  "le_bytes (krhino_ntohl x) =
    [ucast (drop_bit 24 x), ucast (drop_bit 16 x), ucast (drop_bit 8 x), ucast x]"
  unfolding le_bytes_ntohl by (simp add: le_bytes_def)

lemma len_head_eq:
  "len \<le> 0x3fffff \<Longrightarrow> len_head len =
    (let x = (of_nat len :: u32) in
     if len \<le> 0x7f then [0x7f AND ucast x]
     else if len \<le> 0x3fff then [0x80 OR ucast (drop_bit 8 x), ucast x]
     else [0xC0 OR ucast (drop_bit 16 x), ucast (drop_bit 8 x), ucast x])"
  by (simp add: len_head_def ringbuf_headlen_compress_def COMPRESS_LEN_def p_len_bytes Let_def
      numeral_2_eq_2 numeral_3_eq_3)

lemma length_len_head: "len \<le> 0x3fffff \<Longrightarrow> length (len_head len) = COMPRESS_LEN len"
  by (simp add: len_head_eq COMPRESS_LEN_def Let_def)

lemma pop_len_bytes_head:
  assumes "len \<le> 0x3fffff"
  shows "pop_len_bytes (hd (len_head len)) = COMPRESS_LEN len"
proof -
  have "(0x80 OR (ucast (drop_bit 8 (of_nat len :: u32)) :: u8)) AND 0xC0 = 0x80" if "len \<le> 0x3fff"
    using that by (intro top_byte_masks(4) high_bits [of 14] bit_of_nat_beyond) auto
  then show ?thesis using assms
    by (simp add: len_head_eq Let_def pop_len_bytes_def COMPRESS_LEN_def class_masks)
qed

lemma decompress_bytes:
  "ringbuf_headlen_decompress 1 [a] = unat (le_u32 [a, 0, 0, 0])"
  "ringbuf_headlen_decompress 2 [b, a] = unat (le_u32 [a, b AND 0x3f, 0, 0])"
  "ringbuf_headlen_decompress 3 [c, b, a] = unat (le_u32 [a, b, c AND 0x3f, 0])"
  by (simp_all add: ringbuf_headlen_decompress_def Let_def ntohl_le_u32 numeral_eq_Suc)

lemma headlen_round_trip:
  assumes "len \<le> 0x3fffff"
  shows "ringbuf_headlen_decompress (COMPRESS_LEN len) (len_head len) = len"
proof -
  let ?x = "of_nat len :: u32"
  have id: "le_u32 [ucast ?x, ucast (drop_bit 8 ?x), ucast (drop_bit 16 ?x), ucast (drop_bit 24 ?x)] = ?x"
    using le_u32_le_bytes [of ?x] by (simp add: le_bytes_def)
  have x: "unat ?x = len" using assms by (simp add: unat_of_nat)
  have nb: "\<not> bit ?x k" if "22 \<le> k" for k using assms that by (intro bit_of_nat_beyond [of _ 22]) auto
  have z: "(ucast (drop_bit 24 ?x) :: u8) = 0"
    "(0xC0 OR (ucast (drop_bit 16 ?x) :: u8)) AND 0x3f = ucast (drop_bit 16 ?x)"
    using nb high_byte_zero [of 22 ?x 24] high_bits [of 22 ?x 16] by (auto intro!: top_byte_masks(3))
  consider "len \<le> 0x7f" | "0x7f < len" "len \<le> 0x3fff" | "0x3fff < len" by linarith
  then show ?thesis
  proof cases
    case 1
    then have nb1: "\<not> bit ?x k" if "7 \<le> k" for k using that by (intro bit_of_nat_beyond [of _ 7]) auto
    have "(ucast (drop_bit 8 ?x) :: u8) = 0" "(ucast (drop_bit 16 ?x) :: u8) = 0"
      "0x7f AND (ucast ?x :: u8) = ucast ?x"
      using nb1 high_bits [of 7 ?x 0 7] by (auto intro!: high_byte_zero [of 7] top_byte_masks(1))
    with 1 z id x show ?thesis by (simp add: len_head_eq COMPRESS_LEN_def Let_def decompress_bytes(1) [simplified])
  next
    case 2
    then have nb2: "\<not> bit ?x k" if "14 \<le> k" for k using that by (intro bit_of_nat_beyond [of _ 14]) auto
    have "(ucast (drop_bit 16 ?x) :: u8) = 0"
      "(0x80 OR (ucast (drop_bit 8 ?x) :: u8)) AND 0x3f = ucast (drop_bit 8 ?x)"
      using nb2 high_byte_zero [of 14 ?x 16] high_bits [of 14 ?x 8] by (auto intro!: top_byte_masks(2))
    with 2 z id x show ?thesis by (simp add: len_head_eq COMPRESS_LEN_def Let_def decompress_bytes)
  next
    case 3
    with assms z id x show ?thesis by (simp add: len_head_eq COMPRESS_LEN_def Let_def decompress_bytes)
  qed
qed

section \<open>The functions as runs of bytes\<close>

lemma push_len_eq: "rb_wf p \<Longrightarrow> 0 < k \<Longrightarrow> push_len p c k m = rb_put (bytes_at c) k (p, m)"
  by (auto simp: push_len_def rb_put_def Let_def rb_wf_def)

lemma push_data_eq: "rb_wf p \<Longrightarrow> push_data p d k m = rb_put d k (p, m)"
  by (auto simp: push_data_def rb_put_def Let_def rb_wf_def)

lemma push_fix_eq:
  "rb_wf p \<Longrightarrow> tail_off p + blk_size p \<le> rb_size p \<Longrightarrow>
   push_fix p d m = rb_put d (blk_size p) (p, m)"
  by (auto simp: push_fix_def rb_put_eq Let_def tail_off_def rb_wf_def)

lemma pop_len_eq:
  assumes "rb_wf p" and "rb_head p \<noteq> rb_end p" and "0 < k"
  shows "pop_len p k m = rb_get k p m"
proof -
  have b: "rb_buf p \<le> rb_head p" "rb_head p < rb_end p" using assms by (auto simp: rb_wf_def)
  then have "rb_end p - rb_head p = rb_size p - head_off p" "rb_buf p + head_off p = rb_head p"
    "head_off p < rb_size p"
    by (auto simp: head_off_def rb_size_def)
  with assms(3) show ?thesis by (auto simp: pop_len_def rb_get_def Let_def add.commute)
qed

lemma pop_data_eq:
  assumes "rb_wf p" and "k \<le> rb_used p" and "rb_used p < rb_size p"
  shows "pop_data p k m = rb_get k p m"
proof -
  obtain n h t u where o: "0 < n" "rb_size p = n" "rb_end p = rb_buf p + n"
    "rb_head p = rb_buf p + h" "h \<le> n" "rb_tail p = rb_buf p + t" "t \<le> n"
    "rb_used p = u" "u \<le> n" "freesize p = n - u"
    "t = h + u \<or> t + n = h + u \<or> (t = n \<and> h = 0 \<and> u = 0) \<or> (t = 0 \<and> h = n \<and> u = n)"
    using rb_wf_offsets [OF assms(1)] .
  have h: "head_off p = (if h = n then 0 else h)" using o by (simp add: head_off_def)
  have "t < head_off p" if "n < head_off p + k"
    using that o assms(2,3) h by (auto split: if_splits)
  with o h assms(2) show ?thesis by (auto simp: pop_data_def rb_get_def Let_def add.commute)
qed

lemma pop_fix_eq:
  "rb_wf p \<Longrightarrow> head_off p + blk_size p \<le> rb_size p \<Longrightarrow> pop_fix p m = rb_get (blk_size p) p m"
  by (auto simp: pop_fix_def rb_get_def Let_def head_off_def rb_wf_def)

section \<open>The messages in the ring\<close>

definition rb_rep_dyn :: "k_ringbuf_t \<Rightarrow> mem \<Rightarrow> u8 list list \<Rightarrow> bool" where
  "rb_rep_dyn p m msgs \<longleftrightarrow> rb_wf p \<and> rb_type p = RINGBUF_TYPE_DYN \<and>
     (\<forall>x\<in>set msgs. length x \<le> 0x3fffff) \<and>
     rb_content p m = concat (map (\<lambda>x. len_head (length x) @ x) msgs)"

definition rb_rep_fix :: "k_ringbuf_t \<Rightarrow> mem \<Rightarrow> u8 list list \<Rightarrow> bool" where
  "rb_rep_fix p m msgs \<longleftrightarrow> rb_wf p \<and> rb_type p = RINGBUF_TYPE_FIX \<and> 0 < blk_size p \<and>
     blk_size p dvd rb_size p \<and> blk_size p dvd rb_head p - rb_buf p \<and>
     blk_size p dvd rb_tail p - rb_buf p \<and>
     (\<forall>x\<in>set msgs. length x = blk_size p) \<and> rb_content p m = concat msgs"

lemma length_rb_content [simp]: "length (rb_content p m) = rb_used p"
  by (simp add: rb_content_def)

lemma is_empty_used: "rb_wf p \<Longrightarrow> ringbuf_is_empty p \<longleftrightarrow> rb_used p = 0"
  by (auto simp: ringbuf_is_empty_def rb_used_def rb_size_def rb_wf_def)

lemma len_head_not_Nil: "n \<le> 0x3fffff \<Longrightarrow> len_head n \<noteq> []"
  by (simp add: len_head_eq Let_def)

lemma COMPRESS_LEN_pos [simp]: "0 < COMPRESS_LEN n"
  by (simp add: COMPRESS_LEN_def)

lemma COMPRESS_LEN_invalid: "RINGBUF_LEN_MAX_SIZE < COMPRESS_LEN n \<longleftrightarrow> 0x3fffff < n"
  by (simp add: COMPRESS_LEN_def RINGBUF_LEN_MAX_SIZE_def)

lemma fst_headlen_compress [simp]: "fst (ringbuf_headlen_compress n c) = COMPRESS_LEN n"
  by (simp add: ringbuf_headlen_compress_def Let_def)

lemma map_bytes_at: "k \<le> length c \<Longrightarrow> map (bytes_at c) [0..<k] = take k c"
  by (auto simp: bytes_at_def intro!: nth_equalityI)

lemma map_bytes_at_head:
  "len \<le> 0x3fffff \<Longrightarrow> map (bytes_at (snd (ringbuf_headlen_compress len [0, 0, 0]))) [0..<COMPRESS_LEN len] = len_head len"
  by (simp add: len_head_def map_bytes_at ringbuf_headlen_compress_def COMPRESS_LEN_def Let_def)

lemma push_dyn:
  assumes r: "rb_rep_dyn p m msgs"
    and l: "len \<le> 0x3fffff" and free: "2 \<le> freesize p" "COMPRESS_LEN len + len \<le> freesize p"
  shows "\<exists>p' m'. ringbuf_push p data len m = (RHINO_SUCCESS, p', m') \<and>
    rb_rep_dyn p' m' (msgs @ [map data [0..<len]]) \<and>
    freesize p' = freesize p - (COMPRESS_LEN len + len) \<and> rb_buf p' = rb_buf p \<and> rb_end p' = rb_end p \<and>
    (\<forall>a. a < rb_buf p \<or> rb_end p \<le> a \<longrightarrow> m' a = m a)"
proof -
  let ?k = "COMPRESS_LEN len" and ?c = "snd (ringbuf_headlen_compress len [0, 0, 0])"
  let ?q = "rb_put (bytes_at ?c) ?k (p, m)"
  let ?r = "rb_put data len ?q"
  have wf: "rb_wf p" "rb_type p = RINGBUF_TYPE_DYN" using r by (auto simp: rb_rep_dyn_def)
  have k: "?k \<le> freesize p" "len \<le> freesize (fst ?q)" using free by auto
  have wfq: "rb_wf (fst ?q)" by (rule rb_put_wf [OF wf(1) k(1)])
  have push: "ringbuf_push p data len m = (RHINO_SUCCESS, fst ?r, snd ?r)"
    using free l wf wfq
    by (simp add: ringbuf_push_def ringbuf_is_full_def rb_types Let_def split_beta
        push_len_eq push_data_eq COMPRESS_LEN_invalid)
  have "rb_content (fst ?r) (snd ?r) = rb_content p m @ len_head len @ map data [0..<len]"
    using rb_put_content [OF wfq k(2), of data "snd ?q"] rb_put_content [OF wf(1) k(1), of "bytes_at ?c" m]
      map_bytes_at_head [OF l]
    by simp
  then have "rb_rep_dyn (fst ?r) (snd ?r) (msgs @ [map data [0..<len]])"
    using r l rb_put_wf [OF wfq k(2), of data "snd ?q"]
      rb_put_frame(4) [of data len "fst ?q" "snd ?q"] rb_put_frame(4) [of "bytes_at ?c" ?k p m]
    by (simp add: rb_rep_dyn_def)
  moreover have "snd ?r a = m a" if "a < rb_buf p \<or> rb_end p \<le> a" for a
    using that rb_put_outside [OF wfq k(2), of a data "snd ?q"] rb_put_outside [OF wf(1) k(1), of a "bytes_at ?c" m]
    by simp
  moreover have "freesize (fst ?r) = freesize p - (?k + len)" "rb_buf (fst ?r) = rb_buf p" "rb_end (fst ?r) = rb_end p"
    using rb_put_frame [of data len "fst ?q" "snd ?q"] by auto
  ultimately show ?thesis using push by (intro exI [of _ "fst ?r"] exI [of _ "snd ?r"]) blast
qed

lemma push_dyn_refused:
  assumes "rb_type p = RINGBUF_TYPE_DYN"
    and "\<not> (len \<le> 0x3fffff \<and> 2 \<le> freesize p \<and> COMPRESS_LEN len + len \<le> freesize p)"
  shows "\<exists>e. e \<noteq> RHINO_SUCCESS \<and> ringbuf_push p data len m = (e, p, m)"
  using assms
  by (auto simp: ringbuf_push_def ringbuf_is_full_def rb_types Let_def split_beta COMPRESS_LEN_invalid)

lemma pop_dyn_empty: "rb_rep_dyn p m [] \<Longrightarrow> ringbuf_pop p m = (RHINO_RINGBUF_EMPTY, [], p)"
  using length_rb_content [of p m] by (simp add: rb_rep_dyn_def ringbuf_pop_def is_empty_used)

text \<open>Moving a head at the end to the start changes nothing.\<close>

definition head_norm :: "k_ringbuf_t \<Rightarrow> k_ringbuf_t" where
  "head_norm p = (if rb_head p = rb_end p then p\<lparr>rb_head := rb_buf p\<rparr> else p)"

lemma head_norm:
  assumes "rb_wf p"
  shows "rb_wf (head_norm p)" "rb_content (head_norm p) m = rb_content p m"
    "rb_head (head_norm p) \<noteq> rb_end (head_norm p)" "rb_used (head_norm p) = rb_used p"
    "rb_size (head_norm p) = rb_size p" "rb_type (head_norm p) = rb_type p"
    "rb_buf (head_norm p) = rb_buf p" "rb_end (head_norm p) = rb_end p"
    "freesize (head_norm p) = freesize p"
    "0 < rb_used p \<Longrightarrow> m (rb_head (head_norm p)) = hd (rb_content p m)"
proof -
  show 1: "rb_used (head_norm p) = rb_used p" "rb_size (head_norm p) = rb_size p"
    by (simp_all add: head_norm_def rb_used_def rb_size_def)
  have off: "(rb_head (head_norm p) - rb_buf p + i) mod rb_size p = (rb_head p - rb_buf p + i) mod rb_size p" for i
    by (simp add: head_norm_def rb_size_def [symmetric])
  moreover show buf: "rb_buf (head_norm p) = rb_buf p" by (simp add: head_norm_def)
  ultimately show "rb_content (head_norm p) m = rb_content p m"
    using 1 by (simp add: rb_content_def rb_cell_def)
  show "rb_wf (head_norm p)"
    using assms off [of "rb_used p"] 1 by (auto simp: rb_wf_def head_norm_def)
  show "rb_head (head_norm p) \<noteq> rb_end (head_norm p)" "rb_type (head_norm p) = rb_type p"
    "rb_end (head_norm p) = rb_end p" "freesize (head_norm p) = freesize p"
    using assms by (auto simp: head_norm_def rb_wf_def)
  show "m (rb_head (head_norm p)) = hd (rb_content p m)" if "0 < rb_used p"
    using that assms by (auto simp: rb_content_def hd_map rb_cell_head_off head_off_def head_norm_def
        rb_wf_def rb_size_def)
qed

lemma pop_dyn:
  assumes r: "rb_rep_dyn p m (x # msgs)"
  shows "\<exists>p'. ringbuf_pop p m = (RHINO_SUCCESS, x, p') \<and> rb_rep_dyn p' m msgs \<and>
    freesize p' = freesize p + (COMPRESS_LEN (length x) + length x) \<and>
    rb_buf p' = rb_buf p \<and> rb_end p' = rb_end p"
proof -
  let ?k = "COMPRESS_LEN (length x)" and ?h = "len_head (length x)"
  let ?rest = "concat (map (\<lambda>x. len_head (length x) @ x) msgs)"
  let ?p = "head_norm p"
  let ?q = "snd (rb_get ?k ?p m)"
  have wf: "rb_wf p" and type: "rb_type p = RINGBUF_TYPE_DYN" and l: "length x \<le> 0x3fffff"
    and content: "rb_content p m = ?h @ x @ ?rest"
    using r by (auto simp: rb_rep_dyn_def)
  have lh: "length ?h = ?k" by (rule length_len_head [OF l])
  have used: "rb_used p = ?k + length x + length ?rest"
    using length_rb_content [of p m] content lh by simp
  have "hd (rb_content p m) = hd ?h" using content len_head_not_Nil [OF l] by simp
  then have first: "m (rb_head ?p) = hd ?h" using head_norm(10) [OF wf, of m] used by simp
  note n = head_norm [OF wf]
  have k: "?k \<le> rb_used ?p" using used n by simp
  have get1: "rb_wf ?q" "rb_content ?q m = x @ ?rest" "fst (rb_get ?k ?p m) = ?h"
    using rb_get_wf [OF n(1) k] rb_get_content [OF n(1) k, of m] rb_get_bytes [OF n(1) k, of m] content n lh
    by simp_all
  have usedq: "rb_used ?q = length x + length ?rest" using get1(2) length_rb_content [of ?q m] by simp
  have "length x + length ?rest < rb_used p" using used COMPRESS_LEN_pos [of "length x"] by linarith
  also have "\<dots> \<le> rb_size p" by (simp add: rb_used_def)
  finally have lt: "rb_used ?q < rb_size ?q" using usedq n(5) by simp
  have x: "length x \<le> rb_used ?q" using usedq by simp
  have pop: "ringbuf_pop p m = (RHINO_SUCCESS, rb_get (length x) ?q m)"
  proof -
    have "pop_len ?p ?k m = rb_get ?k ?p m" by (rule pop_len_eq [OF n(1,3)]) simp
    moreover have "pop_data ?q (length x) m = rb_get (length x) ?q m" by (rule pop_data_eq [OF get1(1) x lt])
    ultimately show ?thesis
      using used type wf first get1(3) pop_len_bytes_head [OF l] headlen_round_trip [OF l]
      by (simp add: ringbuf_pop_def is_empty_used rb_types head_norm_def [symmetric] Let_def split_beta)
  qed
  let ?r = "snd (rb_get (length x) ?q m)"
  have "rb_get (length x) ?q m = (x, ?r)"
    using rb_get_bytes [OF get1(1) x, of m] get1(2) by (simp add: prod_eq_iff)
  moreover have "rb_rep_dyn ?r m msgs"
    using rb_get_wf [OF get1(1) x] rb_get_content [OF get1(1) x, of m] get1(2) r type n(6)
    by (simp add: rb_rep_dyn_def)
  ultimately show ?thesis using pop n by (intro exI [of _ ?r]) simp
qed

lemma fix_offsets:
  assumes "rb_rep_fix p m msgs"
  shows "tail_off p + blk_size p \<le> rb_size p" "head_off p + blk_size p \<le> rb_size p"
    "blk_size p dvd tail_off p" "blk_size p dvd head_off p"
proof -
  have d: "blk_size p dvd rb_size p" "0 < blk_size p" and wf: "rb_wf p"
    using assms by (auto simp: rb_rep_fix_def)
  have step: "a + blk_size p \<le> rb_size p" if "a < rb_size p" "blk_size p dvd a" for a
    using that d by (metis dvd_imp_le dvd_minus_self less_diff_conv2 less_imp_le_nat
        linorder_not_less nat_diff_split add.commute add_le_imp_le_diff zero_less_diff le_diff_conv2 dvd_diff_nat)
  show t: "blk_size p dvd tail_off p" "blk_size p dvd head_off p"
    using assms by (auto simp: rb_rep_fix_def tail_off_def head_off_def)
  have "tail_off p < rb_size p" using tail_off_cases [OF wf] by metis
  with t(1) show "tail_off p + blk_size p \<le> rb_size p" by (rule step [rotated])
  show "head_off p + blk_size p \<le> rb_size p"
    using t(2) head_off_props(1) [OF wf] by (rule step [rotated])
qed

lemma push_fix_rep:
  assumes r: "rb_rep_fix p m msgs" and free: "blk_size p \<le> freesize p"
  shows "\<exists>p' m'. ringbuf_push p data len m = (RHINO_SUCCESS, p', m') \<and>
    rb_rep_fix p' m' (msgs @ [map data [0..<blk_size p]]) \<and>
    freesize p' = freesize p - blk_size p \<and> rb_buf p' = rb_buf p \<and> rb_end p' = rb_end p \<and>
    blk_size p' = blk_size p \<and> (\<forall>a. a < rb_buf p \<or> rb_end p \<le> a \<longrightarrow> m' a = m a)"
proof -
  let ?r = "rb_put data (blk_size p) (p, m)"
  have wf: "rb_wf p" and type: "rb_type p = RINGBUF_TYPE_FIX" using r by (auto simp: rb_rep_fix_def)
  note o = fix_offsets [OF r]
  have push: "ringbuf_push p data len m = (RHINO_SUCCESS, fst ?r, snd ?r)"
    using type free push_fix_eq [OF wf o(1)] by (simp add: ringbuf_push_def ringbuf_is_full_def rb_types)
  have tail: "rb_tail (fst ?r) - rb_buf p = tail_off p + blk_size p"
    using o(1) by (simp add: rb_put_eq [OF wf] Let_def)
  have "rb_rep_fix (fst ?r) (snd ?r) (msgs @ [map data [0..<blk_size p]])"
    using r o(3) tail rb_put_wf [OF wf free] rb_put_content [OF wf free, of data m] by (simp add: rb_rep_fix_def)
  with push rb_put_outside [OF wf free] show ?thesis
    by (intro exI [of _ "fst ?r"] exI [of _ "snd ?r"]) simp
qed

lemma push_fix_refused:
  "rb_type p = RINGBUF_TYPE_FIX \<Longrightarrow> freesize p < blk_size p \<Longrightarrow>
   ringbuf_push p data len m = (RHINO_RINGBUF_FULL, p, m)"
  by (simp add: ringbuf_push_def ringbuf_is_full_def rb_types)

lemma pop_fix_empty: "rb_rep_fix p m [] \<Longrightarrow> ringbuf_pop p m = (RHINO_RINGBUF_EMPTY, [], p)"
  using length_rb_content [of p m] by (simp add: rb_rep_fix_def ringbuf_pop_def is_empty_used)

lemma pop_fix_rep:
  assumes r: "rb_rep_fix p m (x # msgs)"
  shows "\<exists>p'. ringbuf_pop p m = (RHINO_SUCCESS, x, p') \<and> rb_rep_fix p' m msgs \<and>
    freesize p' = freesize p + blk_size p \<and> rb_buf p' = rb_buf p \<and> rb_end p' = rb_end p \<and>
    blk_size p' = blk_size p"
proof -
  let ?r = "rb_get (blk_size p) p m"
  have wf: "rb_wf p" and type: "rb_type p = RINGBUF_TYPE_FIX" and x: "length x = blk_size p" "0 < blk_size p"
    and content: "rb_content p m = x @ concat msgs"
    using r by (auto simp: rb_rep_fix_def)
  note o = fix_offsets [OF r]
  have used: "blk_size p \<le> rb_used p" using length_rb_content [of p m] content x by simp
  have pop: "ringbuf_pop p m = (RHINO_SUCCESS, x, snd ?r)"
    using type x used content rb_get_bytes [OF wf used, of m] pop_fix_eq [OF wf o(2), of m]
    by (simp add: ringbuf_pop_def is_empty_used [OF wf] prod_eq_iff)
  have head: "rb_head (snd ?r) - rb_buf p = head_off p + blk_size p"
    using o(2) by (simp add: rb_get_def Let_def)
  have "rb_rep_fix (snd ?r) m msgs"
    using r o(4) head x content rb_get_wf [OF wf used, of m] rb_get_content [OF wf used, of m]
    by (simp add: rb_rep_fix_def)
  with pop show ?thesis by (intro exI [of _ "snd ?r"]) simp
qed

section \<open>First in, first out\<close>

text \<open>
  A run of operations on a queue of messages: \<open>Some x\<close> tries to put \<open>x\<close>, \<open>None\<close> tries to
  get. The result is the messages that came out, those that were accepted, and the state.
\<close>

fun fifo_run ::
  "('m \<Rightarrow> 's \<Rightarrow> 's option) \<Rightarrow> ('s \<Rightarrow> ('m \<times> 's) option) \<Rightarrow> 'm option list \<Rightarrow> 's \<Rightarrow>
   'm list \<times> 'm list \<times> 's" where
  "fifo_run put get [] s = ([], [], s)"
| "fifo_run put get (Some x # ops) s =
    (case put x s of
       None \<Rightarrow> fifo_run put get ops s
     | Some s' \<Rightarrow> let (out, acc, s'') = fifo_run put get ops s' in (out, x # acc, s''))"
| "fifo_run put get (None # ops) s =
    (case get s of
       None \<Rightarrow> fifo_run put get ops s
     | Some (x, s') \<Rightarrow> let (out, acc, s'') = fifo_run put get ops s' in (x # out, acc, s''))"

locale msg_fifo =
  fixes rep :: "'s \<Rightarrow> 'm list \<Rightarrow> bool"
    and put :: "'m \<Rightarrow> 's \<Rightarrow> 's option"
    and get :: "'s \<Rightarrow> ('m \<times> 's) option"
  assumes put_rep: "rep s ms \<Longrightarrow> put x s = Some s' \<Longrightarrow> rep s' (ms @ [x])"
    and get_empty: "rep s [] \<Longrightarrow> get s = None"
    and get_first: "rep s (x # ms) \<Longrightarrow> \<exists>s'. get s = Some (x, s') \<and> rep s' ms"
begin

text \<open>Nothing accepted is lost, duplicated or reordered.\<close>

lemma run_order:
  "rep s ms \<Longrightarrow> fifo_run put get ops s = (out, acc, s') \<Longrightarrow> \<exists>ms'. rep s' ms' \<and> ms @ acc = out @ ms'"
proof (induction ops arbitrary: s ms out acc)
  case Nil
  then show ?case by auto
next
  case (Cons op ops)
  consider x where "op = Some x" "put x s = None" | x s1 where "op = Some x" "put x s = Some s1"
    | "op = None" "ms = []" | y ys where "op = None" "ms = y # ys"
    by (cases op; cases ms) fastforce+
  then show ?case
  proof cases
    case 1
    with Cons show ?thesis by simp
  next
    case (2 x s1)
    then obtain out1 acc1 where run: "fifo_run put get ops s1 = (out1, acc1, s')" "out = out1" "acc = x # acc1"
      using Cons.prems(2) by (auto split: prod.splits)
    show ?thesis using Cons.IH [OF put_rep [OF Cons.prems(1) 2(2)] run(1)] run(2,3) by simp
  next
    case 3
    with Cons.prems get_empty have "fifo_run put get ops s = (out, acc, s')" by simp
    then show ?thesis by (rule Cons.IH [OF Cons.prems(1)])
  next
    case (4 y ys)
    with get_first Cons.prems(1) obtain s1 where s1: "get s = Some (y, s1)" "rep s1 ys" by metis
    then obtain out1 acc1 where run: "fifo_run put get ops s1 = (out1, acc1, s')" "out = y # out1" "acc = acc1"
      using Cons.prems(2) 4 by (auto split: prod.splits)
    show ?thesis using Cons.IH [OF s1(2) run(1)] run(2,3) 4 by simp
  qed
qed

lemma drain: "rep s ms \<Longrightarrow> fst (fifo_run put get (replicate (length ms) None) s) = ms"
proof (induction ms arbitrary: s)
  case (Cons x ms)
  then obtain s1 where "get s = Some (x, s1)" "rep s1 ms" using get_first by metis
  with Cons.IH [of s1] show ?case by (simp add: split_beta)
qed simp

end

definition rb_rep :: "k_ringbuf_t \<times> mem \<Rightarrow> u8 list list \<Rightarrow> bool" where
  "rb_rep pm msgs \<longleftrightarrow> rb_rep_dyn (fst pm) (snd pm) msgs \<or> rb_rep_fix (fst pm) (snd pm) msgs"

definition ring_put :: "u8 list \<Rightarrow> k_ringbuf_t \<times> mem \<Rightarrow> (k_ringbuf_t \<times> mem) option" where
  "ring_put x pm =
    (case krhino_ringbuf_push (fst pm) (bytes_at x) (length x) (snd pm) of
       (e, p, m) \<Rightarrow> if e = RHINO_SUCCESS then Some (p, m) else None)"

definition ring_get :: "k_ringbuf_t \<times> mem \<Rightarrow> (u8 list \<times> k_ringbuf_t \<times> mem) option" where
  "ring_get pm =
    (case krhino_ringbuf_pop (fst pm) False (snd pm) of
       (e, x, p) \<Rightarrow> if e = RHINO_SUCCESS then Some (x, p, snd pm) else None)"

lemma map_bytes_at_all: "map (bytes_at x) [0..<length x] = x"
  by (simp add: map_bytes_at)

lemma rb_rep_types:
  "rb_rep_dyn p m msgs \<Longrightarrow> rb_type p = RINGBUF_TYPE_DYN" "rb_rep_fix p m msgs \<Longrightarrow> rb_type p = RINGBUF_TYPE_FIX"
  by (auto simp: rb_rep_dyn_def rb_rep_fix_def)

lemma ring_push_rep:
  assumes "rb_rep (p, m) msgs" and fix_len: "rb_type p = RINGBUF_TYPE_FIX \<Longrightarrow> n = blk_size p"
    and push: "ringbuf_push p data n m = (RHINO_SUCCESS, p', m')"
  shows "rb_rep (p', m') (msgs @ [map data [0..<n]])"
proof -
  from assms(1) have "rb_rep_dyn p m msgs \<or> rb_rep_fix p m msgs" by (simp add: rb_rep_def)
  then show ?thesis
  proof
    assume r: "rb_rep_dyn p m msgs"
    have "n \<le> 0x3fffff \<and> 2 \<le> freesize p \<and> COMPRESS_LEN n + n \<le> freesize p"
      using push_dyn_refused [OF rb_rep_types(1) [OF r], of n data m] push by auto
    with push_dyn [OF r, of n data] push show ?thesis by (auto simp: rb_rep_def)
  next
    assume r: "rb_rep_fix p m msgs"
    have "blk_size p \<le> freesize p"
      using push_fix_refused [OF rb_rep_types(2) [OF r], of data n m] push by (auto simp: not_less [symmetric])
    with push_fix_rep [OF r, of data n] push fix_len [OF rb_rep_types(2) [OF r]] show ?thesis
      by (auto simp: rb_rep_def)
  qed
qed

lemma ring_put_rep:
  assumes "rb_rep pm msgs" and "ring_put x pm = Some pm'"
  shows "rb_rep pm' (msgs @ [x])"
proof -
  obtain p m where pm: "pm = (p, m)" by (cases pm)
  obtain p' m' where p': "pm' = (p', m')" by (cases pm')
  have push: "ringbuf_push p (bytes_at x) (length x) m = (RHINO_SUCCESS, p', m')"
    and fix_len: "rb_type p = RINGBUF_TYPE_FIX \<Longrightarrow> length x = blk_size p"
    using assms(2) pm p' by (auto simp: ring_put_def krhino_ringbuf_push_def split: prod.splits if_splits)
  show ?thesis using ring_push_rep [OF assms(1) [unfolded pm] fix_len push] by (simp add: p' map_bytes_at_all)
qed

lemma ring_get_empty: "rb_rep pm [] \<Longrightarrow> ring_get pm = None"
  by (auto simp: rb_rep_def ring_get_def krhino_ringbuf_pop_def pop_dyn_empty pop_fix_empty)

lemma ring_get_first: "rb_rep pm (x # msgs) \<Longrightarrow> \<exists>pm'. ring_get pm = Some (x, pm') \<and> rb_rep pm' msgs"
  using pop_dyn [of "fst pm" "snd pm" x msgs] pop_fix_rep [of "fst pm" "snd pm" x msgs]
  by (auto simp: rb_rep_def ring_get_def krhino_ringbuf_pop_def)

interpretation ring: msg_fifo rb_rep ring_put ring_get
  by unfold_locales (erule (1) ring_put_rep, erule ring_get_empty, erule ring_get_first)

lemma ringbuf_init_rep:
  assumes "krhino_ringbuf_init buf len type block_size p = (RHINO_SUCCESS, p')"
  shows "rb_rep (p', m) []"
proof -
  have p': "p' = ringbuf_init buf len type block_size p" and l: "0 < len"
    and t: "type = RINGBUF_TYPE_DYN \<or> (type = RINGBUF_TYPE_FIX \<and> 0 < block_size \<and> block_size dvd len)"
    using assms by (auto simp: krhino_ringbuf_init_def split: if_splits)
  have "rb_wf p'" "rb_used p' = 0"
    using l by (simp_all add: p' ringbuf_init_def ringbuf_reset_def rb_wf_def rb_used_def rb_size_def)
  then show ?thesis using t
    by (auto simp: rb_rep_def rb_rep_dyn_def rb_rep_fix_def rb_content_def p' ringbuf_init_def
        ringbuf_reset_def rb_size_def)
qed

end
