(* ===== verification/K_State.thy ===== *)
theory K_State
  imports K_Err K_Bitmap K_Ringbuf
begin

text \<open>
  The data of the kernel: task control blocks (\<^verbatim>\<open>k_task.h\<close>), the common head of every
  blocking object (\<^verbatim>\<open>k_obj.h\<close>), semaphores, mutexes, event groups and queues, the run queue
  (\<^verbatim>\<open>k_sched.h\<close>) and the global variables of \<^verbatim>\<open>k_obj.c\<close> for one CPU
  (\<open>RHINO_CONFIG_CPU_NUM\<close> is 1).

  Control blocks and objects live in stores indexed by their addresses. A C object starts
  with its \<open>blk_obj_t\<close>, so the store \<open>blk_objs\<close> holds that head for every object address
  and \<open>sems\<close>, \<open>mutexes\<close>, \<open>events\<close>, \<open>queues\<close>, \<open>buf_queues\<close> hold the rest, as the casts \<open>(blk_obj_t *)sem\<close> and
  \<open>(kmutex_t *)task->blk_obj\<close> read it; \<open>obj_type\<close> says which rest is meant. A circular
  list is the list of the tasks linked in it (K\_List shows that the pointer operations
  implement the list operations); \<open>cur_list_item\<close> is read from the current item on, and
  \<open>[]\<close> is its \<open>NULL\<close>. The chain of mutexes a task holds, linked through the mutexes, is the
  list \<open>mutex_list\<close> of the task.

  \<open>u8_mem\<close> is the memory messages are copied from and to; \<open>u32_mem\<close> holds the 32-bit
  variables of callers that a call writes through a pointer (\<open>uint32_t\<close>, \<open>size_t\<close>, \<open>void *\<close>).

  Two fields record what the C code does on a path it must not take: \<open>k_errs\<close> logs the
  calls of \<open>k_err_proc\<close>, and \<open>k_fault\<close> is set where the code would follow a null pointer,
  read past the priority bitmap or not end.
\<close>

section \<open>Enumerations\<close>

datatype task_stat_t =
    K_SEED | K_RDY | K_PEND | K_SUSPENDED | K_PEND_SUSPENDED | K_SLEEP | K_SLEEP_SUSPENDED | K_DELETED

datatype blk_policy_t = BLK_POLICY_PRI | BLK_POLICY_FIFO

datatype blk_state_t = BLK_FINISH | BLK_ABORT | BLK_TIMEOUT | BLK_DEL | BLK_INVALID

datatype kobj_type_t =
    RHINO_OBJ_TYPE_NONE | RHINO_SEM_OBJ_TYPE | RHINO_MUTEX_OBJ_TYPE | RHINO_QUEUE_OBJ_TYPE
  | RHINO_BUF_QUEUE_OBJ_TYPE | RHINO_TIMER_OBJ_TYPE | RHINO_EVENT_OBJ_TYPE
  | RHINO_MM_BLK_OBJ_TYPE | RHINO_MM_OBJ_TYPE

datatype alloc_flag = K_OBJ_NO_ALLOC | K_OBJ_STATIC_ALLOC | K_OBJ_DYN_ALLOC

datatype sched_policy_t = KSCHED_FIFO | KSCHED_RR

section \<open>Configuration (\<^verbatim>\<open>k_config.h\<close>)\<close>

definition RHINO_CONFIG_PRI_MAX :: nat where "RHINO_CONFIG_PRI_MAX = 62"
definition RHINO_IDLE_PRI :: nat where "RHINO_IDLE_PRI = RHINO_CONFIG_PRI_MAX - 1"
definition RHINO_CONFIG_TIME_SLICE_DEFAULT :: u32 where "RHINO_CONFIG_TIME_SLICE_DEFAULT = 50"
definition SCHED_MAX_LOCK_COUNT :: u8 where "SCHED_MAX_LOCK_COUNT = 200"
definition RHINO_CONFIG_INTRPT_MAX_NESTED_LEVEL :: u8 where
  "RHINO_CONFIG_INTRPT_MAX_NESTED_LEVEL = 188"
definition RHINO_NO_WAIT :: tick_t where "RHINO_NO_WAIT = 0"
definition RHINO_WAIT_FOREVER :: tick_t where "RHINO_WAIT_FOREVER = - 1"

lemmas kconfig = RHINO_CONFIG_PRI_MAX_def RHINO_IDLE_PRI_def

section \<open>Records\<close>

record ktask_t =
  stack_size :: nat
  suspend_count :: u8
  mutex_list :: "oid list"
  tick_match :: tick_t
  tick_remain :: tick_t
  tick_head :: bool
  msg :: u32
  bq_msg_size :: nat
  task_state :: task_stat_t
  blk_state :: blk_state_t
  blk_obj :: "oid option"
  task_sem_obj :: "oid option"
  task_time_slice :: u32
  time_total :: u32
  pend_flags :: u32
  pend_info :: nat
  pend_option :: u8
  sched_policy :: sched_policy_t
  prio :: nat
  b_prio :: nat
  mm_alloc_flag :: alloc_flag

text \<open>A control block cleared by \<open>memset\<close>.\<close>

definition zero_task :: ktask_t where
  "zero_task = \<lparr>stack_size = 0, suspend_count = 0, mutex_list = [], tick_match = 0, tick_remain = 0,
     tick_head = False, msg = 0, bq_msg_size = 0, task_state = K_SEED, blk_state = BLK_FINISH,
     blk_obj = None, task_sem_obj = None, task_time_slice = 0, time_total = 0, pend_flags = 0,
     pend_info = 0, pend_option = 0, sched_policy = KSCHED_FIFO, prio = 0, b_prio = 0,
     mm_alloc_flag = K_OBJ_NO_ALLOC\<rparr>"

record blk_obj_t =
  blk_list :: "tid list"
  blk_policy :: blk_policy_t
  obj_type :: kobj_type_t

record ksem_t =
  sem_count :: u32
  peak_count :: u32
  sem_alloc_flag :: alloc_flag

record kmutex_t =
  mutex_task :: "tid option"
  owner_nested :: u32
  mutex_alloc_flag :: alloc_flag

record kevent_t =
  event_flags :: u32
  event_alloc_flag :: alloc_flag

record kqueue_t =
  ringbuf :: k_ringbuf_t
  queue_start :: nat
  q_size :: nat
  q_cur_num :: nat
  q_peak_num :: nat
  queue_alloc_flag :: alloc_flag

record kbuf_queue_t =
  bq_buf :: nat
  bq_ringbuf :: k_ringbuf_t
  max_msg_size :: nat
  bq_cur_num :: nat
  bq_peak_num :: nat
  min_free_buf_size :: nat
  bq_alloc_flag :: alloc_flag

datatype k_timer_state_t = TIMER_DEACTIVE | TIMER_ACTIVE

record ktimer_t =
  to_head :: bool
  timer_cb :: u32
  timer_cb_arg :: u32
  timer_match :: tick_t
  timer_remain :: tick_t
  init_count :: tick_t
  round_ticks :: tick_t
  timer_priv :: u32
  timer_obj_type :: kobj_type_t
  timer_state :: k_timer_state_t
  timer_alloc_flag :: alloc_flag

record kwork_t =
  work_handle :: u32
  work_arg :: u32
  work_dly :: tick_t
  work_timer :: "oid option"
  work_wq :: "oid option"
  work_exit :: bool

record kworkqueue_t =
  work_list :: "oid list"
  work_current :: "oid option"
  worker :: tid
  wq_sem :: oid

record runqueue_t =
  cur_list_item :: "nat \<Rightarrow> tid list"
  task_bit_map :: "u32 list"
  highest_pri :: nat

record kstate =
  g_sys_stat :: kstat_t
  g_idle_task_spawned :: bool
  g_ready_queue :: runqueue_t
  g_sched_lock :: u8
  g_intrpt_nested_level :: u8
  g_preferred_ready_task :: tid
  g_active_task :: tid
  g_tick_count :: tick_t
  g_tick_head :: "tid list"
  tcb :: "tid \<Rightarrow> ktask_t"
  g_tasks :: "tid list"
  blk_objs :: "oid \<Rightarrow> blk_obj_t"
  sems :: "oid \<Rightarrow> ksem_t"
  mutexes :: "oid \<Rightarrow> kmutex_t"
  events :: "oid \<Rightarrow> kevent_t"
  queues :: "oid \<Rightarrow> kqueue_t"
  buf_queues :: "oid \<Rightarrow> kbuf_queue_t"
  g_timer_head :: "oid list"
  g_timer_count :: tick_t
  timers :: "oid \<Rightarrow> ktimer_t"
  g_workqueue_list_head :: "oid list"
  workqueues :: "oid \<Rightarrow> kworkqueue_t"
  works :: "oid \<Rightarrow> kwork_t"
  u8_mem :: mem
  u32_mem :: "nat \<Rightarrow> u32"
  k_errs :: "kstat_t list"
  k_fault :: bool

text \<open>
  Timers, work queues and works have stores of their own. The worker task and the semaphore
  inside a \<open>kworkqueue_t\<close> are named by their addresses. The lists \<open>g_timer_head\<close>,
  \<open>g_workqueue_list_head\<close> and \<open>work_list\<close> hold addresses; \<open>to_head\<close> says whether a timer is linked.
\<close>

text \<open>\<open>g_tasks\<close> is the task list of \<open>g_kobj_list\<close> (\<open>task_head\<close>).\<close>

section \<open>Updates\<close>

definition upd_task :: "tid \<Rightarrow> (ktask_t \<Rightarrow> ktask_t) \<Rightarrow> kstate \<Rightarrow> kstate" where
  "upd_task t f s = s\<lparr>tcb := (tcb s)(t := f (tcb s t))\<rparr>"

definition upd_blk :: "oid \<Rightarrow> (blk_obj_t \<Rightarrow> blk_obj_t) \<Rightarrow> kstate \<Rightarrow> kstate" where
  "upd_blk ob f s = s\<lparr>blk_objs := (blk_objs s)(ob := f (blk_objs s ob))\<rparr>"

definition k_err_proc :: "kstat_t \<Rightarrow> kstate \<Rightarrow> kstate" where
  "k_err_proc err s = s\<lparr>k_errs := k_errs s @ [err]\<rparr>"

definition fault :: "kstate \<Rightarrow> kstate" where
  "fault s = s\<lparr>k_fault := True\<rparr>"

text \<open>
  \<open>klist_rm(&task->task_list)\<close> for a task linked in the list of a blocking object: the
  node leaves whichever list it is in.
\<close>

definition blk_list_rm :: "tid \<Rightarrow> kstate \<Rightarrow> kstate" where
  "blk_list_rm t s =
     s\<lparr>blk_objs := (\<lambda>ob. (blk_objs s ob)\<lparr>blk_list := remove1 t (blk_list (blk_objs s ob))\<rparr>)\<rparr>"

lemmas kupd = upd_task_def upd_blk_def k_err_proc_def fault_def blk_list_rm_def

end
