(* ===== verification/K_Sched.thy ===== *)
theory K_Sched
  imports K_State
begin

text \<open>
  The run queue and the scheduler (\<^verbatim>\<open>core/k_sched.c\<close>, one CPU). The \<open>rq_\<close> functions are
  the bodies of the \<open>ready_list_\<close> functions on the queue itself; the functions with the
  names of the code apply them to \<open>g_ready_queue\<close> and read the priority from the control
  block. \<open>rq_wf\<close> is the invariant of the queue: the bitmap marks exactly the non-empty
  priorities and \<open>highest_pri\<close> is the least of them.
\<close>

section \<open>The run queue\<close>

definition runqueue_init :: "runqueue_t \<Rightarrow> runqueue_t" where
  "runqueue_init rq = rq\<lparr>highest_pri := RHINO_CONFIG_PRI_MAX,
     cur_list_item := (\<lambda>p. if p < RHINO_CONFIG_PRI_MAX then [] else cur_list_item rq p)\<rparr>"

definition ready_list_init :: "nat \<Rightarrow> tid \<Rightarrow> runqueue_t \<Rightarrow> runqueue_t" where
  "ready_list_init p t rq =
    (let rq = rq\<lparr>cur_list_item := (cur_list_item rq)(p := [t])\<rparr>;
         rq = rq\<lparr>task_bit_map := krhino_bitmap_set (task_bit_map rq) p\<rparr>
     in if p < highest_pri rq then rq\<lparr>highest_pri := p\<rparr> else rq)"

definition rq_add_tail :: "nat \<Rightarrow> tid \<Rightarrow> runqueue_t \<Rightarrow> runqueue_t" where
  "rq_add_tail p t rq =
    (if cur_list_item rq p = [] then ready_list_init p t rq
     else rq\<lparr>cur_list_item := (cur_list_item rq)(p := cur_list_item rq p @ [t])\<rparr>)"

definition rq_add_head :: "nat \<Rightarrow> tid \<Rightarrow> runqueue_t \<Rightarrow> runqueue_t" where
  "rq_add_head p t rq =
    (if cur_list_item rq p = [] then ready_list_init p t rq
     else rq\<lparr>cur_list_item := (cur_list_item rq)(p := t # cur_list_item rq p)\<rparr>)"

text \<open>\<open>None\<close>: an empty list is dereferenced, or the bitmap has no bit left to find.\<close>

definition rq_rm :: "nat \<Rightarrow> tid \<Rightarrow> runqueue_t \<Rightarrow> runqueue_t option" where
  "rq_rm p t rq =
    (case cur_list_item rq p of
       [] \<Rightarrow> None
     | u # v # us \<Rightarrow>
         Some (rq\<lparr>cur_list_item := (cur_list_item rq)
           (p := if u = t then v # us else remove1 t (u # v # us))\<rparr>)
     | [u] \<Rightarrow>
        (let rq = rq\<lparr>cur_list_item := (cur_list_item rq)(p := [])\<rparr>;
             rq = rq\<lparr>task_bit_map := krhino_bitmap_clear (task_bit_map rq) p\<rparr>
         in if p \<noteq> highest_pri rq then Some rq
            else (case krhino_find_first_bit (task_bit_map rq) of
                    None \<Rightarrow> None
                  | Some i \<Rightarrow> Some (rq\<lparr>highest_pri := i\<rparr>))))"

definition rq_head_to_tail :: "nat \<Rightarrow> runqueue_t \<Rightarrow> runqueue_t" where
  "rq_head_to_tail p rq =
     rq\<lparr>cur_list_item := (cur_list_item rq)(p := rotate1 (cur_list_item rq p))\<rparr>"

section \<open>The functions on the kernel state\<close>

definition ready_list_add_tail :: "tid \<Rightarrow> kstate \<Rightarrow> kstate" where
  "ready_list_add_tail t s =
     s\<lparr>g_ready_queue := rq_add_tail (prio (tcb s t)) t (g_ready_queue s)\<rparr>"

definition ready_list_add_head :: "tid \<Rightarrow> kstate \<Rightarrow> kstate" where
  "ready_list_add_head t s =
     s\<lparr>g_ready_queue := rq_add_head (prio (tcb s t)) t (g_ready_queue s)\<rparr>"

definition ready_list_add :: "tid \<Rightarrow> kstate \<Rightarrow> kstate" where
  "ready_list_add t s =
     (if prio (tcb s t) = prio (tcb s (g_active_task s)) then ready_list_add_tail t s
      else ready_list_add_head t s)"

definition ready_list_rm :: "tid \<Rightarrow> kstate \<Rightarrow> kstate" where
  "ready_list_rm t s =
     (case rq_rm (prio (tcb s t)) t (g_ready_queue s) of
        None \<Rightarrow> fault s
      | Some rq \<Rightarrow> s\<lparr>g_ready_queue := rq\<rparr>)"

definition ready_list_head_to_tail :: "tid \<Rightarrow> kstate \<Rightarrow> kstate" where
  "ready_list_head_to_tail t s =
     (if cur_list_item (g_ready_queue s) (prio (tcb s t)) = [] then fault s
      else s\<lparr>g_ready_queue := rq_head_to_tail (prio (tcb s t)) (g_ready_queue s)\<rparr>)"

definition preferred_cpu_ready_task_get :: "kstate \<Rightarrow> kstate" where
  "preferred_cpu_ready_task_get s =
     (case cur_list_item (g_ready_queue s) (highest_pri (g_ready_queue s)) of
        [] \<Rightarrow> fault s
      | t # _ \<Rightarrow> s\<lparr>g_preferred_ready_task := t\<rparr>)"

text \<open>\<open>PendSV_Handler\<close>: the context switch makes the preferred task the active one.\<close>

definition cpu_task_switch :: "kstate \<Rightarrow> kstate" where
  "cpu_task_switch s = s\<lparr>g_active_task := g_preferred_ready_task s\<rparr>"

definition core_sched :: "kstate \<Rightarrow> kstate" where
  "core_sched s =
    (if g_intrpt_nested_level s > 0 then s
     else if g_sched_lock s > 0 then s
     else let s = preferred_cpu_ready_task_get s
          in if g_preferred_ready_task s = g_active_task s then s else cpu_task_switch s)"

definition krhino_sched_disable :: "kstate \<Rightarrow> kstat_t \<times> kstate" where
  "krhino_sched_disable s =
    (if g_intrpt_nested_level s > 0 then (RHINO_NOT_CALLED_BY_INTRPT, s)
     else if g_sched_lock s \<ge> SCHED_MAX_LOCK_COUNT then (RHINO_SCHED_LOCK_COUNT_OVF, s)
     else (RHINO_SUCCESS, s\<lparr>g_sched_lock := g_sched_lock s + 1\<rparr>))"

definition krhino_sched_enable :: "kstate \<Rightarrow> kstat_t \<times> kstate" where
  "krhino_sched_enable s =
    (if g_intrpt_nested_level s > 0 then (RHINO_NOT_CALLED_BY_INTRPT, s)
     else if g_sched_lock s = 0 then (RHINO_SCHED_ALREADY_ENABLED, s)
     else let s = s\<lparr>g_sched_lock := g_sched_lock s - 1\<rparr>
          in if g_sched_lock s > 0 then (RHINO_SCHED_DISABLE, s)
             else (RHINO_SUCCESS, core_sched s))"

text \<open>Round robin among the tasks of the active task's priority, once per tick.\<close>

definition time_slice_update :: "kstate \<Rightarrow> kstate" where
  "time_slice_update s =
    (let task_pri = prio (tcb s (g_active_task s)) in
     case cur_list_item (g_ready_queue s) task_pri of
       [] \<Rightarrow> s
     | task # rest \<Rightarrow>
         if sched_policy (tcb s task) = KSCHED_FIFO then s
         else if rest = [] then s
         else
           let s = (if task_time_slice (tcb s task) > 0
                    then upd_task task (\<lambda>k. k\<lparr>task_time_slice := task_time_slice k - 1\<rparr>) s else s)
           in if task_time_slice (tcb s task) > 0 then s
              else let s = ready_list_head_to_tail task s
                   in upd_task task (\<lambda>k. k\<lparr>task_time_slice := time_total k\<rparr>) s)"

section \<open>The invariant of the run queue\<close>

definition rq_wf :: "runqueue_t \<Rightarrow> bool" where
  "rq_wf rq \<longleftrightarrow>
     length (task_bit_map rq) = 2 \<and>
     (\<forall>p. bitmap_test (task_bit_map rq) p \<longleftrightarrow> cur_list_item rq p \<noteq> []) \<and>
     (\<forall>p\<ge>RHINO_CONFIG_PRI_MAX. cur_list_item rq p = []) \<and>
     highest_pri rq \<le> RHINO_CONFIG_PRI_MAX \<and>
     (\<forall>p<highest_pri rq. cur_list_item rq p = []) \<and>
     (highest_pri rq < RHINO_CONFIG_PRI_MAX \<longrightarrow> cur_list_item rq (highest_pri rq) \<noteq> [])"

lemma rq_add_tail_wf:
  "rq_wf rq \<Longrightarrow> p < RHINO_CONFIG_PRI_MAX \<Longrightarrow> rq_wf (rq_add_tail p t rq)"
  by (auto simp: rq_wf_def rq_add_tail_def ready_list_init_def Let_def bitmap_test_set kconfig)

lemma rq_add_head_wf:
  "rq_wf rq \<Longrightarrow> p < RHINO_CONFIG_PRI_MAX \<Longrightarrow> rq_wf (rq_add_head p t rq)"
  by (auto simp: rq_wf_def rq_add_head_def ready_list_init_def Let_def bitmap_test_set kconfig)

lemma rq_head_to_tail_wf: "rq_wf rq \<Longrightarrow> rq_wf (rq_head_to_tail p rq)"
  by (auto simp: rq_wf_def rq_head_to_tail_def)

lemma cur_list_item_add_tail [simp]:
  "cur_list_item (rq_add_tail p t rq) = (cur_list_item rq)(p := cur_list_item rq p @ [t])"
  by (auto simp: rq_add_tail_def ready_list_init_def Let_def)

lemma cur_list_item_add_head [simp]:
  "cur_list_item (rq_add_head p t rq) = (cur_list_item rq)(p := t # cur_list_item rq p)"
  by (auto simp: rq_add_head_def ready_list_init_def Let_def)

lemma cur_list_item_head_to_tail [simp]:
  "cur_list_item (rq_head_to_tail p rq) = (cur_list_item rq)(p := rotate1 (cur_list_item rq p))"
  by (simp add: rq_head_to_tail_def)

text \<open>
  Removal succeeds, and keeps the invariant, as long as another task stays ready: then
  the bitmap search finds the next highest priority.
\<close>

lemma rq_rm_ok:
  assumes wf: "rq_wf rq" and t: "t \<in> set (cur_list_item rq p)"
    and u: "u \<in> set (cur_list_item rq q)" and ne: "u \<noteq> t"
  shows "\<exists>rq'. rq_rm p t rq = Some rq' \<and> rq_wf rq' \<and>
    cur_list_item rq' = (cur_list_item rq)(p := remove1 t (cur_list_item rq p))"
proof -
  consider v w ws where "cur_list_item rq p = v # w # ws" | "cur_list_item rq p = [t]"
    using t by (cases "cur_list_item rq p"; cases "tl (cur_list_item rq p)") auto
  then show ?thesis
  proof cases
    case 1
    have "remove1 t (v # w # ws) \<noteq> []" by auto
    with 1 wf show ?thesis by (auto simp: rq_rm_def rq_wf_def)
  next
    case 2
    with u ne have q: "q \<noteq> p" "cur_list_item rq q \<noteq> []" by (auto split: if_splits)
    let ?bm = "krhino_bitmap_clear (task_bit_map rq) p"
    have test: "bitmap_test ?bm r \<longleftrightarrow> r \<noteq> p \<and> cur_list_item rq r \<noteq> []" for r
      using wf by (simp add: rq_wf_def bitmap_test_clear)
    show ?thesis
    proof (cases "p = highest_pri rq")
      case False
      with 2 wf test show ?thesis by (auto simp: rq_rm_def rq_wf_def Let_def)
    next
      case True
      from q test obtain i where i: "krhino_find_first_bit ?bm = Some i"
        using krhino_find_first_bit_None by (cases "krhino_find_first_bit ?bm") auto
      then have "bitmap_test ?bm i" and least: "\<forall>r<i. \<not> bitmap_test ?bm r"
        by (auto simp: krhino_find_first_bit_least)
      with test have ip: "i \<noteq> p" "cur_list_item rq i \<noteq> []" by auto
      with wf have "i < RHINO_CONFIG_PRI_MAX" by (auto simp: rq_wf_def not_le [symmetric])
      with 2 True i ip least test wf show ?thesis
        by (auto simp: rq_rm_def rq_wf_def Let_def)
    qed
  qed
qed

lemma rq_wf_highest:
  assumes "rq_wf rq" and "cur_list_item rq p \<noteq> []"
  shows "highest_pri rq \<le> p" and "highest_pri rq < RHINO_CONFIG_PRI_MAX"
    and "cur_list_item rq (highest_pri rq) \<noteq> []"
proof -
  show le: "highest_pri rq \<le> p" using assms by (auto simp: rq_wf_def not_less [symmetric])
  have "p < RHINO_CONFIG_PRI_MAX" using assms by (auto simp: rq_wf_def not_le [symmetric])
  with le show "highest_pri rq < RHINO_CONFIG_PRI_MAX" by simp
  with assms(1) show "cur_list_item rq (highest_pri rq) \<noteq> []" by (simp add: rq_wf_def)
qed

lemma rq_wf_highest_Min:
  assumes "rq_wf rq" and "cur_list_item rq p \<noteq> []"
  shows "highest_pri rq = Min {q. cur_list_item rq q \<noteq> []}"
proof -
  let ?N = "{q. cur_list_item rq q \<noteq> []}"
  have "?N \<subseteq> {..<RHINO_CONFIG_PRI_MAX}" using assms(1) by (auto simp: rq_wf_def not_le [symmetric])
  then have "finite ?N" by (rule finite_subset) simp
  then show ?thesis using rq_wf_highest [OF assms(1)] assms(2)
    by (intro Min_eqI [symmetric]) auto
qed

end
