(* ===== verification/K_Pend.thy ===== *)
theory K_Pend
  imports K_Sched
begin

text \<open>
  The tick list (\<^verbatim>\<open>core/k_tick.c\<close>, insertion and removal) and the block lists
  (\<^verbatim>\<open>core/k_pend.c\<close>): how a task is put to wait on an object, with or without a timeout,
  and how it is taken off again. Both lists are kept ordered by the loop of
  \<open>keyed_insert\<close>.
\<close>

section \<open>The tick list\<close>

fun tick_list_pri_insert :: "(tid \<Rightarrow> ktask_t) \<Rightarrow> tick_t \<Rightarrow> tid \<Rightarrow> tid list \<Rightarrow> tid list" where
  "tick_list_pri_insert tc now task [] = [task]"
| "tick_list_pri_insert tc now task (q # qs) =
     (if tick_match (tc q) - now > tick_remain (tc task) then task # q # qs
      else q # tick_list_pri_insert tc now task qs)"

definition tick_list_insert :: "tid \<Rightarrow> tick_t \<Rightarrow> kstate \<Rightarrow> kstate" where
  "tick_list_insert t time s =
    (if time > 0 then
       let s = upd_task t (\<lambda>k. k\<lparr>tick_match := g_tick_count s + time, tick_remain := time\<rparr>) s;
           s = s\<lparr>g_tick_head := tick_list_pri_insert (tcb s) (g_tick_count s) t (g_tick_head s)\<rparr>
       in upd_task t (\<lambda>k. k\<lparr>tick_head := True\<rparr>) s
     else s)"

definition tick_list_rm :: "tid \<Rightarrow> kstate \<Rightarrow> kstate" where
  "tick_list_rm t s =
    (if tick_head (tcb s t) then
       let s = s\<lparr>g_tick_head := remove1 t (g_tick_head s)\<rparr>
       in upd_task t (\<lambda>k. k\<lparr>tick_head := False\<rparr>) s
     else s)"

section \<open>The block lists\<close>

fun pend_list_add :: "(tid \<Rightarrow> ktask_t) \<Rightarrow> tid \<Rightarrow> tid list \<Rightarrow> tid list" where
  "pend_list_add tc task [] = [task]"
| "pend_list_add tc task (tmp # rest) =
     (if prio (tc tmp) > prio (tc task) then task # tmp # rest
      else tmp # pend_list_add tc task rest)"

definition pend_task_wakeup :: "tid \<Rightarrow> kstate \<Rightarrow> kstate" where
  "pend_task_wakeup t s =
    (let s = (case task_state (tcb s t) of
                K_PEND \<Rightarrow>
                  let s = blk_list_rm t s;
                      s = ready_list_add t s
                  in upd_task t (\<lambda>k. k\<lparr>task_state := K_RDY\<rparr>) s
              | K_PEND_SUSPENDED \<Rightarrow>
                  let s = blk_list_rm t s
                  in upd_task t (\<lambda>k. k\<lparr>task_state := K_SUSPENDED\<rparr>) s
              | _ \<Rightarrow> k_err_proc RHINO_SYS_FATAL_ERR s);
         s = tick_list_rm t s
     in upd_task t (\<lambda>k. k\<lparr>blk_state := BLK_FINISH, blk_obj := None\<rparr>) s)"

definition pend_to_blk_obj :: "oid \<Rightarrow> tid \<Rightarrow> tick_t \<Rightarrow> kstate \<Rightarrow> kstate" where
  "pend_to_blk_obj ob t timeout s =
    (let s = upd_task t (\<lambda>k. k\<lparr>blk_obj := Some ob\<rparr>) s;
         s = (if timeout \<noteq> RHINO_WAIT_FOREVER then tick_list_insert t timeout s else s);
         s = upd_task t (\<lambda>k. k\<lparr>task_state := K_PEND\<rparr>) s;
         s = ready_list_rm t s
     in if blk_policy (blk_objs s ob) = BLK_POLICY_FIFO
        then upd_blk ob (\<lambda>b. b\<lparr>blk_list := blk_list b @ [t]\<rparr>) s
        else upd_blk ob (\<lambda>b. b\<lparr>blk_list := pend_list_add (tcb s) t (blk_list b)\<rparr>) s)"

definition pend_task_rm :: "tid \<Rightarrow> kstate \<Rightarrow> kstate" where
  "pend_task_rm t s =
    (let s = (case task_state (tcb s t) of
                K_PEND \<Rightarrow>
                  let s = blk_list_rm t s;
                      s = ready_list_add t s
                  in upd_task t (\<lambda>k. k\<lparr>task_state := K_RDY\<rparr>) s
              | K_PEND_SUSPENDED \<Rightarrow>
                  let s = blk_list_rm t s
                  in upd_task t (\<lambda>k. k\<lparr>task_state := K_SUSPENDED\<rparr>) s
              | _ \<Rightarrow> k_err_proc RHINO_SYS_FATAL_ERR s);
         s = tick_list_rm t s;
         s = upd_task t (\<lambda>k. k\<lparr>blk_state := BLK_DEL\<rparr>) s
     in upd_task t (\<lambda>k. k\<lparr>blk_obj := None\<rparr>) s)"

definition pend_list_reorder :: "tid \<Rightarrow> kstate \<Rightarrow> kstate" where
  "pend_list_reorder t s =
    (case blk_obj (tcb s t) of
       None \<Rightarrow> fault s
     | Some ob \<Rightarrow>
         if blk_policy (blk_objs s ob) = BLK_POLICY_PRI then
           let s = blk_list_rm t s
           in upd_blk ob (\<lambda>b. b\<lparr>blk_list := pend_list_add (tcb s) t (blk_list b)\<rparr>) s
         else s)"

text \<open>What the blocked call returns when its task runs again.\<close>

definition pend_state_end_proc :: "tid \<Rightarrow> kstate \<Rightarrow> kstat_t \<times> kstate" where
  "pend_state_end_proc t s =
    (case blk_state (tcb s t) of
       BLK_FINISH \<Rightarrow> (RHINO_SUCCESS, s)
     | BLK_ABORT \<Rightarrow> (RHINO_BLK_ABORT, s)
     | BLK_TIMEOUT \<Rightarrow> (RHINO_BLK_TIMEOUT, s)
     | BLK_DEL \<Rightarrow> (RHINO_BLK_DEL, s)
     | _ \<Rightarrow> (RHINO_BLK_INV_STATE, k_err_proc RHINO_BLK_INV_STATE s))"

text \<open>
  \<open>while (!is_klist_empty(head)) pend_task_rm(first)\<close>, and the same loop with another
  action on the first waiting task. Each round must unlink the first task; where it does
  not, the C loop does not end.
\<close>

fun while_blk_list :: "nat \<Rightarrow> (tid \<Rightarrow> kstate \<Rightarrow> kstate) \<Rightarrow> oid \<Rightarrow> kstate \<Rightarrow> kstate" where
  "while_blk_list n f ob s =
    (case blk_list (blk_objs s ob) of
       [] \<Rightarrow> s
     | t # _ \<Rightarrow> (case n of 0 \<Rightarrow> fault s | Suc m \<Rightarrow> while_blk_list m f ob (f t s)))"

declare while_blk_list.simps [simp del]

definition wake_all :: "(tid \<Rightarrow> kstate \<Rightarrow> kstate) \<Rightarrow> oid \<Rightarrow> kstate \<Rightarrow> kstate" where
  "wake_all f ob s = while_blk_list (length (blk_list (blk_objs s ob))) f ob s"

section \<open>Order of the lists\<close>

interpretation pend: keyed_insert "\<lambda>u. prio (tc u)" "\<lambda>u. prio (tc u)" "pend_list_add tc"
  for tc :: "tid \<Rightarrow> ktask_t"
  by unfold_locales auto

interpretation tick: keyed_insert "\<lambda>u. tick_match (tc u) - now" "\<lambda>u. tick_remain (tc u)"
  "tick_list_pri_insert tc now"
  for tc :: "tid \<Rightarrow> ktask_t" and now :: tick_t
  by unfold_locales auto

end
