(* ===== verification/K_Prio.thy ===== *)
theory K_Prio
  imports K_Pend
begin

text \<open>
  Priorities of tasks that hold mutexes: the scans of a task's mutexes
  (\<open>mutex_pri_limit\<close>, \<open>mutex_pri_look\<close> of \<^verbatim>\<open>core/k_mutex.c\<close>), the priority change that
  follows the chain of owners (\<open>task_pri_change\<close> of \<^verbatim>\<open>core/k_task.c\<close>), and the functions of
  \<^verbatim>\<open>k_mutex.c\<close> that use it when a mutex is released or a waiting task leaves.
\<close>

section \<open>Scanning the mutexes of a task\<close>

text \<open>
  Both scans carry \<open>pri\<close> from one mutex to the next: it keeps its value at a mutex nobody
  waits for.
\<close>

fun mutex_pri_limit_loop :: "kstate \<Rightarrow> oid list \<Rightarrow> nat \<Rightarrow> nat \<Rightarrow> nat" where
  "mutex_pri_limit_loop s [] pri high_pri = high_pri"
| "mutex_pri_limit_loop s (mutex_tmp # ms) pri high_pri =
    (let pri = (case blk_list (blk_objs s mutex_tmp) of
                  [] \<Rightarrow> pri
                | first_blk_task # _ \<Rightarrow> prio (tcb s first_blk_task));
         high_pri = (if pri < high_pri then pri else high_pri)
     in mutex_pri_limit_loop s ms pri high_pri)"

definition mutex_pri_limit :: "tid \<Rightarrow> nat \<Rightarrow> kstate \<Rightarrow> nat" where
  "mutex_pri_limit t pri s = mutex_pri_limit_loop s (mutex_list (tcb s t)) pri pri"

text \<open>
  The look also unlinks \<open>mutex_rel\<close>: the pair is the list that is left and the priority.
\<close>

fun mutex_pri_look_loop ::
  "kstate \<Rightarrow> oid option \<Rightarrow> oid list \<Rightarrow> nat \<Rightarrow> nat \<Rightarrow> oid list \<times> nat" where
  "mutex_pri_look_loop s mutex_rel [] pri new_pri = ([], new_pri)"
| "mutex_pri_look_loop s mutex_rel (mutex_tmp # ms) pri new_pri =
    (if mutex_rel = Some mutex_tmp then mutex_pri_look_loop s mutex_rel ms pri new_pri
     else
       let pri = (case blk_list (blk_objs s mutex_tmp) of
                    [] \<Rightarrow> pri
                  | first_blk_task # _ \<Rightarrow> prio (tcb s first_blk_task));
           new_pri = (if new_pri > pri then pri else new_pri);
           (rest, r) = mutex_pri_look_loop s mutex_rel ms pri new_pri
       in (mutex_tmp # rest, r))"

definition mutex_pri_look :: "tid \<Rightarrow> oid option \<Rightarrow> kstate \<Rightarrow> nat \<times> kstate" where
  "mutex_pri_look t mutex_rel s =
    (let (ms, new_pri) = mutex_pri_look_loop s mutex_rel (mutex_list (tcb s t))
                           (b_prio (tcb s t)) (b_prio (tcb s t))
     in (new_pri, upd_task t (\<lambda>k. k\<lparr>mutex_list := ms\<rparr>) s))"

section \<open>Changing a priority\<close>

text \<open>
  One round of the \<open>do \<dots> while (task != NULL)\<close> loop: it ends with a status, or goes on
  with the owner of the mutex the task waits for.
\<close>

definition pri_change_pend ::
  "tid \<Rightarrow> nat \<Rightarrow> kstate \<Rightarrow> (kstat_t \<times> kstate) + (tid \<times> nat \<times> kstate)" where
  "pri_change_pend task new_pri s =
    (let old_pri = prio (tcb s task);
         s = upd_task task (\<lambda>k. k\<lparr>prio := new_pri\<rparr>) s;
         s = pend_list_reorder task s
     in case blk_obj (tcb s task) of
          None \<Rightarrow> Inl (RHINO_SUCCESS, fault s)
        | Some ob \<Rightarrow>
            if obj_type (blk_objs s ob) = RHINO_MUTEX_OBJ_TYPE then
              (case mutex_task (mutexes s ob) of
                 None \<Rightarrow> Inl (RHINO_SUCCESS, fault s)
               | Some mtask \<Rightarrow>
                   if prio (tcb s mtask) > prio (tcb s task) then Inr (mtask, new_pri, s)
                   else if prio (tcb s mtask) = old_pri then
                     let (new_pri, s) = mutex_pri_look mtask None s
                     in if new_pri \<noteq> prio (tcb s mtask) then Inr (mtask, new_pri, s)
                        else Inl (RHINO_SUCCESS, s)
                   else Inl (RHINO_SUCCESS, s))
            else Inl (RHINO_SUCCESS, s))"

definition pri_change_round ::
  "tid \<Rightarrow> nat \<Rightarrow> kstate \<Rightarrow> (kstat_t \<times> kstate) + (tid \<times> nat \<times> kstate)" where
  "pri_change_round task new_pri s =
    (if prio (tcb s task) \<noteq> new_pri then
       (case task_state (tcb s task) of
          K_RDY \<Rightarrow>
            let s = ready_list_rm task s;
                s = upd_task task (\<lambda>k. k\<lparr>prio := new_pri\<rparr>) s;
                s = (if task = g_active_task s then ready_list_add_head task s
                     else ready_list_add_tail task s)
            in Inl (RHINO_SUCCESS, s)
        | K_SLEEP \<Rightarrow> Inl (RHINO_SUCCESS, upd_task task (\<lambda>k. k\<lparr>prio := new_pri\<rparr>) s)
        | K_SUSPENDED \<Rightarrow> Inl (RHINO_SUCCESS, upd_task task (\<lambda>k. k\<lparr>prio := new_pri\<rparr>) s)
        | K_SLEEP_SUSPENDED \<Rightarrow> Inl (RHINO_SUCCESS, upd_task task (\<lambda>k. k\<lparr>prio := new_pri\<rparr>) s)
        | K_PEND \<Rightarrow> pri_change_pend task new_pri s
        | K_PEND_SUSPENDED \<Rightarrow> pri_change_pend task new_pri s
        | _ \<Rightarrow> Inl (RHINO_INV_TASK_STATE, k_err_proc RHINO_INV_TASK_STATE s))
     else Inl (RHINO_SUCCESS, s))"

text \<open>
  \<open>fuel\<close> bounds the number of rounds. Running out of it (the C loop still going) is
  recorded as a fault; K\_Inheritance shows that with the bound chosen in
  \<open>task_pri_change\<close>, one more than the number of tasks, it does not happen when the chain of
  owners has no cycle.
\<close>

fun task_pri_change_loop :: "nat \<Rightarrow> tid \<Rightarrow> nat \<Rightarrow> kstate \<Rightarrow> kstat_t \<times> kstate" where
  "task_pri_change_loop 0 task new_pri s = (RHINO_SUCCESS, fault s)"
| "task_pri_change_loop (Suc fuel) task new_pri s =
    (case pri_change_round task new_pri s of
       Inl r \<Rightarrow> r
     | Inr (task', new_pri', s') \<Rightarrow> task_pri_change_loop fuel task' new_pri' s')"

definition task_pri_change :: "tid \<Rightarrow> nat \<Rightarrow> kstate \<Rightarrow> kstat_t \<times> kstate" where
  "task_pri_change task new_pri s =
     task_pri_change_loop (Suc (length (g_tasks s))) task new_pri s"

section \<open>Releasing\<close>

definition mutex_release :: "tid \<Rightarrow> oid option \<Rightarrow> kstate \<Rightarrow> kstate" where
  "mutex_release t mutex_rel s =
    (let (new_pri, s) = mutex_pri_look t mutex_rel s
     in if new_pri \<noteq> prio (tcb s t) then snd (task_pri_change t new_pri s) else s)"

definition mutex_task_pri_reset :: "tid \<Rightarrow> kstate \<Rightarrow> kstate" where
  "mutex_task_pri_reset t s =
    (case blk_obj (tcb s t) of
       None \<Rightarrow> fault s
     | Some ob \<Rightarrow>
         if obj_type (blk_objs s ob) = RHINO_MUTEX_OBJ_TYPE then
           (case mutex_task (mutexes s ob) of
              None \<Rightarrow> fault s
            | Some mtask \<Rightarrow>
                if prio (tcb s mtask) = prio (tcb s t) then mutex_release mtask None s else s)
         else s)"

section \<open>What the scans compute\<close>

text \<open>The priorities of the first waiting tasks of a list of mutexes.\<close>

definition first_pris :: "kstate \<Rightarrow> oid list \<Rightarrow> nat set" where
  "first_pris s ms = (\<lambda>m. prio (tcb s (hd (blk_list (blk_objs s m))))) `
     {m \<in> set ms. blk_list (blk_objs s m) \<noteq> []}"

lemma first_pris_Nil [simp]: "first_pris s [] = {}"
  by (simp add: first_pris_def)

lemma first_pris_Cons:
  "first_pris s (m # ms) =
    (case blk_list (blk_objs s m) of
       [] \<Rightarrow> first_pris s ms
     | u # _ \<Rightarrow> insert (prio (tcb s u)) (first_pris s ms))"
  by (force simp: first_pris_def split: list.splits)

lemma finite_first_pris [simp]: "finite (first_pris s ms)"
  by (induction ms) (auto simp: first_pris_Cons split: list.splits)

lemma Min_insert_absorb:
  "finite A \<Longrightarrow> Min (insert (if b < a then b else a) A) = Min (insert a (insert b (A::nat set)))"
  by (cases "A = {}") auto

lemma mutex_pri_limit_loop_Min:
  "high_pri \<le> pri \<Longrightarrow>
   mutex_pri_limit_loop s ms pri high_pri = Min (insert high_pri (first_pris s ms))"
proof (induction ms arbitrary: pri high_pri)
  case Nil
  then show ?case by simp
next
  case (Cons m ms)
  show ?case
  proof (cases "blk_list (blk_objs s m) = []")
    case True
    with Cons show ?thesis by (simp add: first_pris_Cons Let_def)
  next
    case False
    then obtain u us where u: "blk_list (blk_objs s m) = u # us" by (cases "blk_list (blk_objs s m)") auto
    let ?p = "prio (tcb s u)"
    have "mutex_pri_limit_loop s ms ?p (if ?p < high_pri then ?p else high_pri)
        = Min (insert (if ?p < high_pri then ?p else high_pri) (first_pris s ms))"
      by (rule Cons.IH) simp
    with u show ?thesis by (simp add: first_pris_Cons Let_def Min_insert_absorb)
  qed
qed

lemma mutex_pri_limit_Min:
  "mutex_pri_limit t pri s = Min (insert pri (first_pris s (mutex_list (tcb s t))))"
  by (simp add: mutex_pri_limit_def mutex_pri_limit_loop_Min)

lemma mutex_pri_look_loop_eq:
  "new_pri \<le> pri \<Longrightarrow>
   mutex_pri_look_loop s rel ms pri new_pri =
     (filter (\<lambda>m. rel \<noteq> Some m) ms,
      Min (insert new_pri (first_pris s (filter (\<lambda>m. rel \<noteq> Some m) ms))))"
proof (induction ms arbitrary: pri new_pri)
  case Nil
  then show ?case by simp
next
  case (Cons m ms)
  show ?case
  proof (cases "blk_list (blk_objs s m) = []")
    case True
    with Cons show ?thesis by (auto simp: first_pris_Cons Let_def)
  next
    case False
    then obtain u us where u: "blk_list (blk_objs s m) = u # us" by (cases "blk_list (blk_objs s m)") auto
    let ?p = "prio (tcb s u)" and ?ms = "filter (\<lambda>m. rel \<noteq> Some m) ms"
    have "mutex_pri_look_loop s rel ms ?p (if ?p < new_pri then ?p else new_pri)
        = (?ms, Min (insert (if ?p < new_pri then ?p else new_pri) (first_pris s ?ms)))"
      by (rule Cons.IH) simp
    moreover have "mutex_pri_look_loop s rel ms pri new_pri = (?ms, Min (insert new_pri (first_pris s ?ms)))"
      by (rule Cons.IH [OF Cons.prems])
    ultimately show ?thesis using u by (auto simp: first_pris_Cons Let_def Min_insert_absorb)
  qed
qed

lemma mutex_pri_look_eq:
  "mutex_pri_look t rel s =
    (let ms = filter (\<lambda>m. rel \<noteq> Some m) (mutex_list (tcb s t))
     in (Min (insert (b_prio (tcb s t)) (first_pris s ms)), upd_task t (\<lambda>k. k\<lparr>mutex_list := ms\<rparr>) s))"
  by (simp add: mutex_pri_look_def mutex_pri_look_loop_eq Let_def)

lemma mutex_pri_look_None:
  "mutex_pri_look t None s = (Min (insert (b_prio (tcb s t)) (first_pris s (mutex_list (tcb s t)))), s)"
  by (simp add: mutex_pri_look_eq upd_task_def Let_def)

end
