(* ===== verification/K_Inv.thy ===== *)
theory K_Inv
  imports K_Prio
begin

text \<open>
  The invariant of the kernel's data and the operations on single tasks that keep it:
  waking, blocking, putting to sleep, suspending and resuming one task. Every list of the
  kernel is tied to the states in the control blocks: the ready lists hold exactly the
  ready tasks, each under its priority; the list of an object holds exactly the tasks that
  pend on it, in order of priority; the tick list holds the tasks with a running timeout,
  in order of the time that remains.
\<close>

section \<open>The parts of the invariant\<close>

definition pended :: "ktask_t \<Rightarrow> bool" where
  "pended k \<longleftrightarrow> task_state k = K_PEND \<or> task_state k = K_PEND_SUSPENDED"

definition sleeping :: "ktask_t \<Rightarrow> bool" where
  "sleeping k \<longleftrightarrow> task_state k = K_SLEEP \<or> task_state k = K_SLEEP_SUSPENDED"

definition live :: "ktask_t \<Rightarrow> bool" where
  "live k \<longleftrightarrow> task_state k \<noteq> K_SEED \<and> task_state k \<noteq> K_DELETED"

definition suspended :: "ktask_t \<Rightarrow> bool" where
  "suspended k \<longleftrightarrow> task_state k = K_SUSPENDED \<or> task_state k = K_PEND_SUSPENDED \<or>
     task_state k = K_SLEEP_SUSPENDED"

lemmas kstates = pended_def sleeping_def live_def suspended_def

definition inv_ready :: "kstate \<Rightarrow> bool" where
  "inv_ready s \<longleftrightarrow>
     rq_wf (g_ready_queue s) \<and>
     (\<forall>p. distinct (cur_list_item (g_ready_queue s) p)) \<and>
     (\<forall>p t. t \<in> set (cur_list_item (g_ready_queue s) p) \<longleftrightarrow>
        task_state (tcb s t) = K_RDY \<and> prio (tcb s t) = p)"

definition inv_blk :: "kstate \<Rightarrow> bool" where
  "inv_blk s \<longleftrightarrow>
     (\<forall>ob. distinct (blk_list (blk_objs s ob))) \<and>
     (\<forall>ob t. t \<in> set (blk_list (blk_objs s ob)) \<longleftrightarrow>
        pended (tcb s t) \<and> blk_obj (tcb s t) = Some ob) \<and>
     (\<forall>t. pended (tcb s t) \<longrightarrow> blk_obj (tcb s t) \<noteq> None) \<and>
     (\<forall>ob. blk_policy (blk_objs s ob) = BLK_POLICY_PRI \<longrightarrow>
        sorted (map (\<lambda>t. prio (tcb s t)) (blk_list (blk_objs s ob))))"

text \<open>The ticks left before the timeout of a task.\<close>

definition ticks_left :: "kstate \<Rightarrow> tid \<Rightarrow> tick_t" where
  "ticks_left s t = tick_match (tcb s t) - g_tick_count s"

definition inv_tick :: "kstate \<Rightarrow> bool" where
  "inv_tick s \<longleftrightarrow>
     distinct (g_tick_head s) \<and>
     (\<forall>t. t \<in> set (g_tick_head s) \<longleftrightarrow> tick_head (tcb s t)) \<and>
     (\<forall>t. tick_head (tcb s t) \<longrightarrow> sleeping (tcb s t) \<or> pended (tcb s t)) \<and>
     (\<forall>t. sleeping (tcb s t) \<longrightarrow> tick_head (tcb s t)) \<and>
     sorted (map (ticks_left s) (g_tick_head s)) \<and>
     (\<forall>t. tick_head (tcb s t) \<longrightarrow> 0 < ticks_left s t \<and> ticks_left s t < 2 ^ 63)"

definition inv_tasks :: "kstate \<Rightarrow> bool" where
  "inv_tasks s \<longleftrightarrow>
     distinct (g_tasks s) \<and> (\<forall>t. t \<in> set (g_tasks s) \<longleftrightarrow> live (tcb s t)) \<and>
     (\<forall>t. live (tcb s t) \<longrightarrow>
        prio (tcb s t) < RHINO_CONFIG_PRI_MAX \<and> b_prio (tcb s t) < RHINO_CONFIG_PRI_MAX \<and>
        (suspended (tcb s t) \<longleftrightarrow> suspend_count (tcb s t) > 0))"

text \<open>The idle task (\<open>g_idle_task[0]\<close>) is always ready, at the lowest priority.\<close>

definition idle_tid :: tid where "idle_tid = 0"

definition inv_idle :: "kstate \<Rightarrow> bool" where
  "inv_idle s \<longleftrightarrow>
     task_state (tcb s idle_tid) = K_RDY \<and> prio (tcb s idle_tid) = RHINO_IDLE_PRI \<and>
     b_prio (tcb s idle_tid) = RHINO_IDLE_PRI \<and> mutex_list (tcb s idle_tid) = []"

text \<open>The kernel never reported a fatal error and never followed a bad pointer.\<close>

definition no_fault :: "kstate \<Rightarrow> bool" where
  "no_fault s \<longleftrightarrow> \<not> k_fault s \<and> k_errs s = []"

definition kinv :: "kstate \<Rightarrow> bool" where
  "kinv s \<longleftrightarrow> inv_ready s \<and> inv_blk s \<and> inv_tick s \<and> inv_tasks s \<and> inv_idle s \<and> no_fault s"

lemma kinvI:
  "inv_ready s \<Longrightarrow> inv_blk s \<Longrightarrow> inv_tick s \<Longrightarrow> inv_tasks s \<Longrightarrow> inv_idle s \<Longrightarrow> no_fault s \<Longrightarrow> kinv s"
  by (simp add: kinv_def)

lemma kinvD:
  assumes "kinv s"
  shows "inv_ready s" "inv_blk s" "inv_tick s" "inv_tasks s" "inv_idle s" "no_fault s"
  using assms by (auto simp: kinv_def)

section \<open>Making a task ready, taking it off the ready lists\<close>

lemma ready_list_add_eq:
  "ready_list_add t s = s\<lparr>g_ready_queue := g_ready_queue (ready_list_add t s)\<rparr>"
  by (simp add: ready_list_add_def ready_list_add_tail_def ready_list_add_head_def)

lemma ready_list_add_frame [simp]:
  "tcb (ready_list_add t s) = tcb s"
  "blk_objs (ready_list_add t s) = blk_objs s"
  "g_tick_head (ready_list_add t s) = g_tick_head s"
  "g_tick_count (ready_list_add t s) = g_tick_count s"
  "g_tasks (ready_list_add t s) = g_tasks s"
  "mutexes (ready_list_add t s) = mutexes s"
  "k_errs (ready_list_add t s) = k_errs s"
  "k_fault (ready_list_add t s) = k_fault s"
  by (auto simp: ready_list_add_def ready_list_add_tail_def ready_list_add_head_def)

lemma set_cur_list_ready_list_add [simp]:
  "set (cur_list_item (g_ready_queue (ready_list_add t s)) p) =
     (if p = prio (tcb s t) then insert t (set (cur_list_item (g_ready_queue s) p))
      else set (cur_list_item (g_ready_queue s) p))"
  by (simp add: ready_list_add_def ready_list_add_tail_def ready_list_add_head_def)

lemma distinct_ready_list_add:
  "\<forall>p. distinct (cur_list_item (g_ready_queue s) p) \<Longrightarrow>
   t \<notin> set (cur_list_item (g_ready_queue s) (prio (tcb s t))) \<Longrightarrow>
   distinct (cur_list_item (g_ready_queue (ready_list_add t s)) p)"
  by (auto simp: ready_list_add_def ready_list_add_tail_def ready_list_add_head_def)

lemma rq_wf_ready_list_add:
  "rq_wf (g_ready_queue s) \<Longrightarrow> prio (tcb s t) < RHINO_CONFIG_PRI_MAX \<Longrightarrow>
   rq_wf (g_ready_queue (ready_list_add t s))"
  by (simp add: ready_list_add_def ready_list_add_tail_def ready_list_add_head_def
      rq_add_tail_wf rq_add_head_wf)

text \<open>Ready-list effects of a task becoming ready: the state it leaves was another one.\<close>

lemma inv_ready_enter:
  assumes "inv_ready s" and "task_state (tcb s t) \<noteq> K_RDY"
    and "prio (tcb s t) < RHINO_CONFIG_PRI_MAX"
    and "g_ready_queue s' = g_ready_queue (ready_list_add t s0)"
    and "g_ready_queue s0 = g_ready_queue s" and "prio (tcb s0 t) = prio (tcb s t)"
    and "\<And>u. u \<noteq> t \<Longrightarrow> task_state (tcb s' u) = task_state (tcb s u) \<and> prio (tcb s' u) = prio (tcb s u)"
    and "task_state (tcb s' t) = K_RDY" and "prio (tcb s' t) = prio (tcb s t)"
  shows "inv_ready s'"
proof -
  have "t \<notin> set (cur_list_item (g_ready_queue s) p)" for p
    using assms(1,2) by (auto simp: inv_ready_def)
  then have "distinct (cur_list_item (g_ready_queue s') p)" for p
    using assms(1,2,4,5,6) distinct_ready_list_add [of s0 t p] by (auto simp: inv_ready_def)
  moreover have "rq_wf (g_ready_queue s')"
    using assms(1,3,4,5,6) by (auto simp: inv_ready_def intro: rq_wf_ready_list_add)
  moreover have "u \<in> set (cur_list_item (g_ready_queue s') p) \<longleftrightarrow>
      task_state (tcb s' u) = K_RDY \<and> prio (tcb s' u) = p" for u p
    using assms by (cases "u = t") (auto simp: inv_ready_def)
  ultimately show ?thesis by (simp add: inv_ready_def)
qed

text \<open>Every other ready list has a task in it as long as the idle task is ready.\<close>

definition rq_without :: "tid \<Rightarrow> kstate \<Rightarrow> runqueue_t" where
  "rq_without t s = the (rq_rm (prio (tcb s t)) t (g_ready_queue s))"

lemma rq_without_props:
  assumes "inv_ready s" and "inv_idle s" and "task_state (tcb s t) = K_RDY" and "t \<noteq> idle_tid"
  shows "rq_rm (prio (tcb s t)) t (g_ready_queue s) = Some (rq_without t s)"
    and "rq_wf (rq_without t s)"
    and "cur_list_item (rq_without t s) = (cur_list_item (g_ready_queue s))(prio (tcb s t) :=
           remove1 t (cur_list_item (g_ready_queue s) (prio (tcb s t))))"
proof -
  have "t \<in> set (cur_list_item (g_ready_queue s) (prio (tcb s t)))"
    and "idle_tid \<in> set (cur_list_item (g_ready_queue s) RHINO_IDLE_PRI)"
    and "rq_wf (g_ready_queue s)"
    using assms(1,2,3) by (auto simp: inv_ready_def inv_idle_def)
  from rq_rm_ok [OF this(3,1,2)] assms(4)
  show "rq_rm (prio (tcb s t)) t (g_ready_queue s) = Some (rq_without t s)"
    and "rq_wf (rq_without t s)"
    and "cur_list_item (rq_without t s) = (cur_list_item (g_ready_queue s))(prio (tcb s t) :=
           remove1 t (cur_list_item (g_ready_queue s) (prio (tcb s t))))"
    by (auto simp: rq_without_def)
qed

lemma ready_list_rm_eq:
  assumes "inv_ready s" and "inv_idle s" and "task_state (tcb s t) = K_RDY" and "t \<noteq> idle_tid"
    and "g_ready_queue s0 = g_ready_queue s" and "prio (tcb s0 t) = prio (tcb s t)"
  shows "ready_list_rm t s0 = s0\<lparr>g_ready_queue := rq_without t s\<rparr>"
  using rq_without_props(1) [OF assms(1-4)] assms(5,6) by (simp add: ready_list_rm_def)

lemma inv_ready_leave:
  assumes "inv_ready s"
    and "rq_wf (g_ready_queue s')"
    and "cur_list_item (g_ready_queue s') = (cur_list_item (g_ready_queue s))(prio (tcb s t) :=
           remove1 t (cur_list_item (g_ready_queue s) (prio (tcb s t))))"
    and "task_state (tcb s t) = K_RDY" and "task_state (tcb s' t) \<noteq> K_RDY"
    and "\<And>u. u \<noteq> t \<Longrightarrow> task_state (tcb s' u) = task_state (tcb s u) \<and> prio (tcb s' u) = prio (tcb s u)"
  shows "inv_ready s'"
proof -
  have "u \<in> set (cur_list_item (g_ready_queue s') p) \<longleftrightarrow>
      task_state (tcb s' u) = K_RDY \<and> prio (tcb s' u) = p" for u p
    using assms by (cases "u = t") (auto simp: inv_ready_def)
  with assms(1,2,3) show ?thesis by (auto simp: inv_ready_def)
qed

text \<open>Everything else: the ready lists, the states and the priorities are as before.\<close>

lemma inv_ready_cong:
  assumes "g_ready_queue s' = g_ready_queue s"
    and "\<And>u. task_state (tcb s' u) = K_RDY \<longleftrightarrow> task_state (tcb s u) = K_RDY"
    and "\<And>u. task_state (tcb s u) = K_RDY \<Longrightarrow> prio (tcb s' u) = prio (tcb s u)"
    and "inv_ready s"
  shows "inv_ready s'"
  using assms unfolding inv_ready_def by (metis (no_types, lifting))

section \<open>Entering and leaving a block list\<close>

lemma inv_blk_leave:
  assumes "inv_blk s" and "\<not> pended (tcb s' t)"
    and "\<And>ob. blk_list (blk_objs s' ob) = remove1 t (blk_list (blk_objs s ob))"
    and "\<And>ob. blk_policy (blk_objs s' ob) = blk_policy (blk_objs s ob)"
    and "\<And>u. u \<noteq> t \<Longrightarrow> pended (tcb s' u) = pended (tcb s u) \<and>
      blk_obj (tcb s' u) = blk_obj (tcb s u) \<and> prio (tcb s' u) = prio (tcb s u)"
  shows "inv_blk s'"
proof -
  have d: "distinct (blk_list (blk_objs s ob))" for ob using assms(1) by (simp add: inv_blk_def)
  have "u \<in> set (blk_list (blk_objs s' ob)) \<longleftrightarrow> pended (tcb s' u) \<and> blk_obj (tcb s' u) = Some ob" for u ob
    using assms d by (cases "u = t") (auto simp: inv_blk_def)
  moreover have "sorted (map (\<lambda>u. prio (tcb s' u)) (blk_list (blk_objs s' ob)))"
    if "blk_policy (blk_objs s' ob) = BLK_POLICY_PRI" for ob
  proof -
    have "map (\<lambda>u. prio (tcb s' u)) (blk_list (blk_objs s' ob)) =
        map (\<lambda>u. prio (tcb s u)) (remove1 t (blk_list (blk_objs s ob)))"
      using d [of ob] by (auto simp: assms(3) assms(5))
    then show ?thesis using that assms(1,4) by (simp add: inv_blk_def sorted_remove1_map)
  qed
  moreover have "blk_obj (tcb s' u) \<noteq> None" if "pended (tcb s' u)" for u
    using assms that by (cases "u = t") (auto simp: inv_blk_def)
  ultimately show ?thesis using d by (auto simp: inv_blk_def assms(3) distinct_remove1)
qed

lemma inv_blk_enter:
  assumes "inv_blk s" and "\<not> pended (tcb s t)"
    and "pended (tcb s' t)" and "blk_obj (tcb s' t) = Some ob"
    and "blk_list (blk_objs s' ob) =
      (if blk_policy (blk_objs s ob) = BLK_POLICY_FIFO then blk_list (blk_objs s ob) @ [t]
       else pend_list_add (tcb s') t (blk_list (blk_objs s ob)))"
    and "\<And>o'. o' \<noteq> ob \<Longrightarrow> blk_list (blk_objs s' o') = blk_list (blk_objs s o')"
    and "\<And>o'. blk_policy (blk_objs s' o') = blk_policy (blk_objs s o')"
    and "\<And>u. u \<noteq> t \<Longrightarrow> pended (tcb s' u) = pended (tcb s u) \<and>
      blk_obj (tcb s' u) = blk_obj (tcb s u) \<and> prio (tcb s' u) = prio (tcb s u)"
  shows "inv_blk s'"
proof -
  have nt: "t \<notin> set (blk_list (blk_objs s o'))" for o' using assms(1,2) by (simp add: inv_blk_def)
  have same: "map (\<lambda>u. prio (tcb s' u)) (blk_list (blk_objs s o')) =
      map (\<lambda>u. prio (tcb s u)) (blk_list (blk_objs s o'))" for o'
    using nt [of o'] assms(8) by (intro map_cong refl) metis
  have "u \<in> set (blk_list (blk_objs s' o')) \<longleftrightarrow> pended (tcb s' u) \<and> blk_obj (tcb s' u) = Some o'" for u o'
    using assms nt by (cases "u = t"; cases "o' = ob") (auto simp: inv_blk_def)
  moreover have "sorted (map (\<lambda>u. prio (tcb s' u)) (blk_list (blk_objs s' o')))"
    if "blk_policy (blk_objs s' o') = BLK_POLICY_PRI" for o'
  proof -
    from that assms(7) have pol: "blk_policy (blk_objs s o') = BLK_POLICY_PRI" by simp
    with assms(1) have so: "sorted (map (\<lambda>u. prio (tcb s' u)) (blk_list (blk_objs s o')))"
      by (simp add: inv_blk_def same)
    show ?thesis
    proof (cases "o' = ob")
      case True
      with assms(5) pol have "blk_list (blk_objs s' o') = pend_list_add (tcb s') t (blk_list (blk_objs s ob))"
        by simp
      with so True show ?thesis using pend.sorted_ins by simp
    next
      case False
      with so assms(6) show ?thesis by simp
    qed
  qed
  moreover have "distinct (blk_list (blk_objs s' o'))" for o'
    using assms(1,5,6) nt by (cases "o' = ob") (auto simp: inv_blk_def pend.distinct_ins)
  moreover have "blk_obj (tcb s' u) \<noteq> None" if "pended (tcb s' u)" for u
    using assms that by (cases "u = t") (auto simp: inv_blk_def)
  ultimately show ?thesis by (simp add: inv_blk_def)
qed

lemma inv_blk_cong:
  assumes "\<And>ob. blk_list (blk_objs s' ob) = blk_list (blk_objs s ob)"
    and "\<And>ob. blk_policy (blk_objs s' ob) = BLK_POLICY_PRI \<Longrightarrow>
      blk_policy (blk_objs s ob) = BLK_POLICY_PRI \<or> blk_list (blk_objs s ob) = []"
    and "\<And>u. pended (tcb s' u) = pended (tcb s u)"
    and "\<And>u. pended (tcb s u) \<Longrightarrow> blk_obj (tcb s' u) = blk_obj (tcb s u) \<and> prio (tcb s' u) = prio (tcb s u)"
    and "inv_blk s"
  shows "inv_blk s'"
proof -
  have eq: "map (\<lambda>u. prio (tcb s' u)) (blk_list (blk_objs s ob)) =
      map (\<lambda>u. prio (tcb s u)) (blk_list (blk_objs s ob))" for ob
    using assms(4,5) by (auto simp: inv_blk_def)
  have "sorted (map (\<lambda>u. prio (tcb s' u)) (blk_list (blk_objs s ob)))"
    if "blk_policy (blk_objs s' ob) = BLK_POLICY_PRI" for ob
    unfolding eq using assms(2) [OF that] assms(5) by (auto simp: inv_blk_def)
  then show ?thesis using assms(1,3,4,5) by (auto simp: inv_blk_def)
qed

section \<open>Entering and leaving the tick list\<close>

lemma inv_tick_leave:
  assumes "inv_tick s" and "g_tick_head s' = remove1 t (g_tick_head s)"
    and "\<not> tick_head (tcb s' t)" and "\<not> sleeping (tcb s' t)"
    and "g_tick_count s' = g_tick_count s"
    and "\<And>u. u \<noteq> t \<Longrightarrow> tick_head (tcb s' u) = tick_head (tcb s u) \<and>
      tick_match (tcb s' u) = tick_match (tcb s u) \<and>
      sleeping (tcb s' u) = sleeping (tcb s u) \<and> pended (tcb s' u) = pended (tcb s u)"
  shows "inv_tick s'"
proof -
  have d: "distinct (g_tick_head s)" using assms(1) by (simp add: inv_tick_def)
  have left: "ticks_left s' u = ticks_left s u" if "u \<noteq> t" for u
    using assms(5,6) that by (simp add: ticks_left_def)
  then have "map (ticks_left s') (g_tick_head s') = map (ticks_left s) (remove1 t (g_tick_head s))"
    using assms(2) d by auto
  then have "sorted (map (ticks_left s') (g_tick_head s'))"
    using assms(1) by (simp add: inv_tick_def sorted_remove1_map)
  moreover have "u \<in> set (g_tick_head s') \<longleftrightarrow> tick_head (tcb s' u)" for u
    using assms d by (cases "u = t") (auto simp: inv_tick_def)
  moreover have "tick_head (tcb s' u) \<longrightarrow> (sleeping (tcb s' u) \<or> pended (tcb s' u)) \<and>
      0 < ticks_left s' u \<and> ticks_left s' u < 2 ^ 63" for u
    using assms left by (cases "u = t") (auto simp: inv_tick_def)
  moreover have "sleeping (tcb s' u) \<longrightarrow> tick_head (tcb s' u)" for u
    using assms by (cases "u = t") (auto simp: inv_tick_def)
  ultimately show ?thesis using d assms(2) by (simp add: inv_tick_def)
qed

lemma inv_tick_enter:
  assumes "inv_tick s" and "\<not> tick_head (tcb s t)"
    and "g_tick_head s' = tick_list_pri_insert tc (g_tick_count s) t (g_tick_head s)"
    and "\<And>u. tick_match (tc u) = tick_match (tcb s' u)" and "tick_remain (tc t) = time"
    and "tick_match (tcb s' t) = g_tick_count s + time" and "0 < time" and "time < 2 ^ 63"
    and "tick_head (tcb s' t)" and "sleeping (tcb s' t) \<or> pended (tcb s' t)"
    and "g_tick_count s' = g_tick_count s"
    and "\<And>u. u \<noteq> t \<Longrightarrow> tick_head (tcb s' u) = tick_head (tcb s u) \<and>
      tick_match (tcb s' u) = tick_match (tcb s u) \<and>
      sleeping (tcb s' u) = sleeping (tcb s u) \<and> pended (tcb s' u) = pended (tcb s u)"
  shows "inv_tick s'"
proof -
  have d: "distinct (g_tick_head s)" and nt: "t \<notin> set (g_tick_head s)"
    using assms(1,2) by (auto simp: inv_tick_def)
  have left: "ticks_left s' u = ticks_left s u" if "u \<noteq> t" for u
    using assms(11,12) that by (simp add: ticks_left_def)
  have left_t: "ticks_left s' t = time" using assms(6,11) by (simp add: ticks_left_def)
  have key: "(\<lambda>u. tick_match (tc u) - g_tick_count s) = ticks_left s'"
    using assms(4,11) by (simp add: ticks_left_def fun_eq_iff)
  have "map (ticks_left s') (g_tick_head s) = map (ticks_left s) (g_tick_head s)"
    using nt left by (intro map_cong refl) metis
  then have "sorted (map (ticks_left s') (g_tick_head s))" using assms(1) by (metis inv_tick_def)
  then have "sorted (map (ticks_left s') (g_tick_head s'))"
    using tick.sorted_ins [where tc = tc and now = "g_tick_count s" and x = t and ys = "g_tick_head s"] assms(3,5) key left_t
    by (simp add: fun_eq_iff)
  moreover have "distinct (g_tick_head s')"
    using tick.distinct_ins [OF nt d] by (simp add: assms(3))
  moreover have "u \<in> set (g_tick_head s') \<longleftrightarrow> tick_head (tcb s' u)" for u
    using assms by (cases "u = t") (auto simp: inv_tick_def)
  moreover have "tick_head (tcb s' u) \<longrightarrow> (sleeping (tcb s' u) \<or> pended (tcb s' u)) \<and>
      0 < ticks_left s' u \<and> ticks_left s' u < 2 ^ 63" for u
    using assms left left_t by (cases "u = t") (auto simp: inv_tick_def)
  moreover have "sleeping (tcb s' u) \<longrightarrow> tick_head (tcb s' u)" for u
    using assms by (cases "u = t") (auto simp: inv_tick_def)
  ultimately show ?thesis by (simp add: inv_tick_def)
qed

lemma inv_tick_cong:
  assumes "g_tick_head s' = g_tick_head s" and "g_tick_count s' = g_tick_count s"
    and "\<And>u. tick_head (tcb s' u) = tick_head (tcb s u) \<and> tick_match (tcb s' u) = tick_match (tcb s u)"
    and "\<And>u. sleeping (tcb s' u) = sleeping (tcb s u)"
    and "\<And>u. tick_head (tcb s u) \<Longrightarrow> pended (tcb s' u) = pended (tcb s u)"
    and "inv_tick s"
  shows "inv_tick s'"
proof -
  have "ticks_left s' = ticks_left s" using assms(2,3) by (simp add: ticks_left_def fun_eq_iff)
  with assms show ?thesis by (simp add: inv_tick_def)
qed

section \<open>Operations that change nothing the invariant speaks of\<close>

lemma inv_tasks_cong:
  assumes "g_tasks s' = g_tasks s" and "\<And>u. live (tcb s' u) = live (tcb s u)"
    and "\<And>u. live (tcb s u) \<Longrightarrow> prio (tcb s' u) < RHINO_CONFIG_PRI_MAX"
    and "\<And>u. live (tcb s u) \<Longrightarrow> b_prio (tcb s' u) < RHINO_CONFIG_PRI_MAX"
    and "\<And>u. live (tcb s u) \<Longrightarrow> suspended (tcb s' u) \<longleftrightarrow> suspend_count (tcb s' u) > 0"
    and "inv_tasks s"
  shows "inv_tasks s'"
  using assms by (simp add: inv_tasks_def)

lemma kinv_prio: "kinv s \<Longrightarrow> live (tcb s t) \<Longrightarrow> prio (tcb s t) < RHINO_CONFIG_PRI_MAX"
  and kinv_b_prio: "kinv s \<Longrightarrow> live (tcb s t) \<Longrightarrow> b_prio (tcb s t) < RHINO_CONFIG_PRI_MAX"
  and kinv_suspended: "kinv s \<Longrightarrow> live (tcb s t) \<Longrightarrow> suspended (tcb s t) \<longleftrightarrow> suspend_count (tcb s t) > 0"
  by (auto simp: kinv_def inv_tasks_def)

lemma kinv_not_idle: "kinv s \<Longrightarrow> task_state (tcb s t) \<noteq> K_RDY \<Longrightarrow> t \<noteq> idle_tid"
  by (auto simp: kinv_def inv_idle_def)

lemma pended_live: "pended k \<Longrightarrow> live k"
  by (auto simp: kstates)

text \<open>The part of a control block the invariant depends on.\<close>

definition same_core :: "ktask_t \<Rightarrow> ktask_t \<Rightarrow> bool" where
  "same_core k' k \<longleftrightarrow> task_state k' = task_state k \<and> prio k' = prio k \<and> b_prio k' = b_prio k \<and>
     tick_head k' = tick_head k \<and> tick_match k' = tick_match k \<and>
     suspend_count k' = suspend_count k \<and> mutex_list k' = mutex_list k \<and>
     (pended k \<longrightarrow> blk_obj k' = blk_obj k)"

lemma kinv_cong:
  assumes "g_ready_queue s' = g_ready_queue s" and "g_tick_head s' = g_tick_head s"
    and "g_tick_count s' = g_tick_count s" and "g_tasks s' = g_tasks s"
    and "k_fault s' = k_fault s" and "k_errs s' = k_errs s"
    and "\<And>ob. blk_list (blk_objs s' ob) = blk_list (blk_objs s ob)"
    and "\<And>ob. blk_policy (blk_objs s' ob) = BLK_POLICY_PRI \<Longrightarrow>
      blk_policy (blk_objs s ob) = BLK_POLICY_PRI \<or> blk_list (blk_objs s ob) = []"
    and "\<And>u. same_core (tcb s' u) (tcb s u)" and "kinv s"
  shows "kinv s'"
proof -
  have c: "task_state (tcb s' u) = task_state (tcb s u)" "prio (tcb s' u) = prio (tcb s u)"
    "b_prio (tcb s' u) = b_prio (tcb s u)" "tick_head (tcb s' u) = tick_head (tcb s u)"
    "tick_match (tcb s' u) = tick_match (tcb s u)" "suspend_count (tcb s' u) = suspend_count (tcb s u)"
    "mutex_list (tcb s' u) = mutex_list (tcb s u)"
    "pended (tcb s u) \<Longrightarrow> blk_obj (tcb s' u) = blk_obj (tcb s u)" for u
    using assms(9) [of u] by (auto simp: same_core_def)
  note i = kinvD [OF assms(10)]
  show ?thesis
  proof (rule kinvI)
    show "inv_ready s'" by (rule inv_ready_cong [OF _ _ _ i(1)]) (use assms c in auto)
    show "inv_blk s'" by (rule inv_blk_cong [OF _ _ _ _ i(2)]) (use assms c in \<open>auto simp: pended_def\<close>)
    show "inv_tick s'" by (rule inv_tick_cong [OF _ _ _ _ _ i(3)]) (use assms c in \<open>auto simp: kstates\<close>)
    show "inv_tasks s'"
      by (rule inv_tasks_cong [OF _ _ _ _ _ i(4)]) (use assms c i(4) in \<open>auto simp: kstates inv_tasks_def\<close>)
    show "inv_idle s'" using i(5) c by (simp add: inv_idle_def)
    show "no_fault s'" using i(6) assms by (simp add: no_fault_def)
  qed
qed

lemma same_core_refl [simp]: "same_core k k"
  by (simp add: same_core_def)

lemma kinv_upd_task:
  assumes "kinv s" and "same_core (f (tcb s t)) (tcb s t)"
  shows "kinv (upd_task t f s)"
  by (rule kinv_cong [OF _ _ _ _ _ _ _ _ _ assms(1)]) (use assms(2) in \<open>auto simp: upd_task_def\<close>)

section \<open>A waiting task stops waiting\<close>

text \<open>
  The common effect of \<open>pend_task_wakeup\<close>, \<open>pend_task_rm\<close> and an expired timeout: the
  task leaves the block list and the tick list and is ready, or stays suspended.
\<close>

definition unlink :: "blk_state_t \<Rightarrow> tid \<Rightarrow> kstate \<Rightarrow> kstate" where
  "unlink b t s = s\<lparr>
     tcb := (tcb s)(t := (tcb s t)\<lparr>
       task_state := (if task_state (tcb s t) = K_PEND then K_RDY else K_SUSPENDED),
       tick_head := False, blk_state := b\<rparr>),
     blk_objs := (\<lambda>ob. (blk_objs s ob)\<lparr>blk_list := remove1 t (blk_list (blk_objs s ob))\<rparr>),
     g_tick_head := remove1 t (g_tick_head s),
     g_ready_queue := (if task_state (tcb s t) = K_PEND then g_ready_queue (ready_list_add t s)
                       else g_ready_queue s)\<rparr>"

definition unpend :: "blk_state_t \<Rightarrow> tid \<Rightarrow> kstate \<Rightarrow> kstate" where
  "unpend b t s = upd_task t (\<lambda>k. k\<lparr>blk_obj := None\<rparr>) (unlink b t s)"

lemmas unpend_defs = unpend_def unlink_def upd_task_def

lemma tick_head_id: "\<not> tick_head k \<Longrightarrow> k\<lparr>tick_head := False\<rparr> = k"
  by (cases k) simp

lemma tick_list_rm_eq:
  "inv_tick s \<Longrightarrow> (\<And>u. tick_head (tcb s' u) = tick_head (tcb s u)) \<Longrightarrow> g_tick_head s' = g_tick_head s \<Longrightarrow>
   tick_list_rm t s' = s'\<lparr>tcb := (tcb s')(t := (tcb s' t)\<lparr>tick_head := False\<rparr>),
     g_tick_head := remove1 t (g_tick_head s)\<rparr>"
  by (auto simp: tick_list_rm_def inv_tick_def upd_task_def tick_head_id remove1_idem)

lemma ready_list_add_blk_objs:
  "ready_list_add t (s\<lparr>blk_objs := B\<rparr>) =
     s\<lparr>blk_objs := B, g_ready_queue := g_ready_queue (ready_list_add t s)\<rparr>"
  by (simp add: ready_list_add_def ready_list_add_tail_def ready_list_add_head_def)

lemma pend_task_wakeup_eq:
  assumes "inv_tick s" and "pended (tcb s t)"
  shows "pend_task_wakeup t s = unpend BLK_FINISH t s"
  using assms(2)
  by (auto simp: pended_def pend_task_wakeup_def unpend_defs ready_list_add_blk_objs
      tick_list_rm_eq [OF assms(1)] kupd)

lemma pend_task_rm_eq:
  assumes "inv_tick s" and "pended (tcb s t)"
  shows "pend_task_rm t s = unpend BLK_DEL t s"
  using assms(2)
  by (auto simp: pended_def pend_task_rm_def unpend_defs ready_list_add_blk_objs
      tick_list_rm_eq [OF assms(1)] kupd)

lemma kinv_unlink:
  assumes k: "kinv s" and p: "pended (tcb s t)"
  shows "kinv (unlink b t s)"
proof (rule kinvI)
  let ?s = "unlink b t s"
  note i = kinvD [OF k]
  have live: "live (tcb s t)" using p by (rule pended_live)
  have other: "tcb ?s u = tcb s u" if "u \<noteq> t" for u using that by (simp add: unlink_def)
  have state: "task_state (tcb ?s t) = (if task_state (tcb s t) = K_PEND then K_RDY else K_SUSPENDED)"
    and pr: "prio (tcb ?s t) = prio (tcb s t)"
    by (simp_all add: unlink_def)
  show "inv_ready ?s"
  proof (cases "task_state (tcb s t) = K_PEND")
    case True
    show ?thesis
      by (rule inv_ready_enter [OF i(1), of t _ s])
        (use True other state pr kinv_prio [OF k live] in \<open>auto simp: unlink_def\<close>)
  next
    case False
    show ?thesis
      by (rule inv_ready_cong [OF _ _ _ i(1)])
        (use False p in \<open>auto simp: unlink_def pended_def\<close>)
  qed
  show "inv_blk ?s"
    by (rule inv_blk_leave [OF i(2), of _ t]) (auto simp: unlink_def pended_def)
  show "inv_tick ?s"
    by (rule inv_tick_leave [OF i(3), of _ t]) (auto simp: unlink_def kstates)
  show "inv_tasks ?s"
    by (rule inv_tasks_cong [OF _ _ _ _ _ i(4)])
      (use live i(4) p in \<open>auto simp: unlink_def kstates inv_tasks_def\<close>)
  show "inv_idle ?s"
    using i(5) kinv_not_idle [OF k, of t] p by (auto simp: inv_idle_def unlink_def pended_def)
  show "no_fault ?s" using i(6) by (simp add: no_fault_def unlink_def)
qed

lemma not_pended_unlink: "\<not> pended (tcb (unlink b t s) t)"
  by (simp add: unlink_def pended_def)

lemma kinv_unpend:
  assumes "kinv s" and "pended (tcb s t)"
  shows "kinv (unpend b t s)"
  unfolding unpend_def
  by (rule kinv_upd_task [OF kinv_unlink [OF assms]]) (use not_pended_unlink in \<open>simp add: same_core_def\<close>)

lemma kinv_pend_task_wakeup: "kinv s \<Longrightarrow> pended (tcb s t) \<Longrightarrow> kinv (pend_task_wakeup t s)"
  by (simp add: pend_task_wakeup_eq kinvD(3) kinv_unpend)

lemma kinv_pend_task_rm: "kinv s \<Longrightarrow> pended (tcb s t) \<Longrightarrow> kinv (pend_task_rm t s)"
  by (simp add: pend_task_rm_eq kinvD(3) kinv_unpend)

text \<open>Waking every waiting task of an object ends, and leaves its list empty.\<close>

lemma blk_list_unpend [simp]:
  "blk_list (blk_objs (unpend b t s) ob) = remove1 t (blk_list (blk_objs s ob))"
  by (simp add: unpend_defs)

lemma kinv_first_pended:
  "kinv s \<Longrightarrow> t \<in> set (blk_list (blk_objs s ob)) \<Longrightarrow> pended (tcb s t) \<and> blk_obj (tcb s t) = Some ob"
  by (auto simp: kinv_def inv_blk_def)

lemma wake_all_induct:
  assumes "kinv s" and "P s"
    and step: "\<And>t s. kinv s \<Longrightarrow> P s \<Longrightarrow> t \<in> set (blk_list (blk_objs s ob)) \<Longrightarrow>
      kinv (f t s) \<and> P (f t s) \<and> blk_list (blk_objs (f t s) ob) = remove1 t (blk_list (blk_objs s ob))"
  shows "kinv (wake_all f ob s) \<and> P (wake_all f ob s) \<and> blk_list (blk_objs (wake_all f ob s) ob) = []"
proof -
  have "kinv (while_blk_list n f ob s) \<and> P (while_blk_list n f ob s) \<and>
      blk_list (blk_objs (while_blk_list n f ob s) ob) = []"
    if "kinv s" "P s" "length (blk_list (blk_objs s ob)) = n" for n s
    using that
  proof (induction n arbitrary: s)
    case 0
    then show ?case by (subst (1 2 3) while_blk_list.simps) simp
  next
    case (Suc n)
    then obtain t ts where ts: "blk_list (blk_objs s ob) = t # ts" by (cases "blk_list (blk_objs s ob)") auto
    have "kinv (f t s)" "P (f t s)" "blk_list (blk_objs (f t s) ob) = ts"
      using step [OF Suc.prems(1,2), of t] ts by auto
    with Suc ts show ?case by (subst (1 2 3) while_blk_list.simps) simp
  qed
  with assms(1,2) show ?thesis by (simp add: wake_all_def)
qed

section \<open>A ready task stops being ready\<close>

text \<open>Blocking on an object, sleeping, and being suspended.\<close>

definition timed :: "tick_t \<Rightarrow> bool" where
  "timed timeout \<longleftrightarrow> timeout \<noteq> RHINO_WAIT_FOREVER \<and> 0 < timeout"

definition set_timeout :: "tick_t \<Rightarrow> tick_t \<Rightarrow> ktask_t \<Rightarrow> ktask_t" where
  "set_timeout now time k = k\<lparr>tick_match := now + time, tick_remain := time, tick_head := True\<rparr>"

lemma set_timeout_sel [simp]:
  "task_state (set_timeout now time k) = task_state k" "prio (set_timeout now time k) = prio k"
  "b_prio (set_timeout now time k) = b_prio k" "blk_obj (set_timeout now time k) = blk_obj k"
  "mutex_list (set_timeout now time k) = mutex_list k" "tick_head (set_timeout now time k)"
  "suspend_count (set_timeout now time k) = suspend_count k"
  "tick_match (set_timeout now time k) = now + time" "tick_remain (set_timeout now time k) = time"
  by (simp_all add: set_timeout_def)

lemma tick_list_pri_insert_cong:
  "(\<And>u. tick_match (tc u) = tick_match (tc' u)) \<Longrightarrow> tick_remain (tc t) = tick_remain (tc' t) \<Longrightarrow>
   tick_list_pri_insert tc now t xs = tick_list_pri_insert tc' now t xs"
  by (induction xs) auto

lemma tick_list_insert_eq:
  "0 < time \<Longrightarrow> tick_list_insert t time s =
     s\<lparr>tcb := (tcb s)(t := set_timeout (g_tick_count s) time (tcb s t)),
       g_tick_head := tick_list_pri_insert ((tcb s)(t := set_timeout (g_tick_count s) time (tcb s t)))
         (g_tick_count s) t (g_tick_head s)\<rparr>"
  by (rule kstate.equality)
    (simp_all add: tick_list_insert_def upd_task_def Let_def set_timeout_def,
     rule tick_list_pri_insert_cong, auto)

lemma tick_list_insert_0 [simp]: "tick_list_insert t 0 s = s"
  by (simp add: tick_list_insert_def)

definition pend_on :: "oid \<Rightarrow> tid \<Rightarrow> tick_t \<Rightarrow> kstate \<Rightarrow> kstate" where
  "pend_on ob t timeout s =
    (let k = (tcb s t)\<lparr>blk_obj := Some ob\<rparr>;
         k' = (if timed timeout then set_timeout (g_tick_count s) timeout k else k);
         tc = (tcb s)(t := k'\<lparr>task_state := K_PEND\<rparr>)
     in s\<lparr>tcb := tc,
          blk_objs := (blk_objs s)(ob := (blk_objs s ob)\<lparr>blk_list :=
            (if blk_policy (blk_objs s ob) = BLK_POLICY_FIFO then blk_list (blk_objs s ob) @ [t]
             else pend_list_add tc t (blk_list (blk_objs s ob)))\<rparr>),
          g_tick_head := (if timed timeout then tick_list_pri_insert tc (g_tick_count s) t (g_tick_head s)
                          else g_tick_head s),
          g_ready_queue := rq_without t s\<rparr>)"

lemma pend_to_blk_obj_eq:
  assumes "kinv s" and "task_state (tcb s t) = K_RDY" and "t \<noteq> idle_tid"
  shows "pend_to_blk_obj ob t timeout s = pend_on ob t timeout s"
proof -
  note rm = ready_list_rm_eq [OF kinvD(1) [OF assms(1)] kinvD(5) [OF assms(1)] assms(2,3)]
  consider "timed timeout" | "\<not> timed timeout" "timeout = 0 \<or> timeout = RHINO_WAIT_FOREVER"
    by (auto simp: timed_def word_gt_0)
  then show ?thesis
  proof cases
    case 1
    then show ?thesis
      by (intro kstate.equality)
        (simp_all add: pend_to_blk_obj_def pend_on_def timed_def tick_list_insert_eq rm Let_def kupd
          set_timeout_def, rule tick_list_pri_insert_cong, auto)
  next
    case 2
    then show ?thesis by (auto simp: pend_to_blk_obj_def pend_on_def rm Let_def kupd)
  qed
qed

lemma kinv_pend_on:
  assumes k: "kinv s" and t: "task_state (tcb s t) = K_RDY" "t \<noteq> idle_tid"
    and time: "timeout = RHINO_WAIT_FOREVER \<or> timeout < 2 ^ 63"
  shows "kinv (pend_on ob t timeout s)"
proof (rule kinvI)
  let ?s = "pend_on ob t timeout s"
  note i = kinvD [OF k]
  have other: "tcb ?s u = tcb s u" if "u \<noteq> t" for u using that by (simp add: pend_on_def Let_def)
  have self: "task_state (tcb ?s t) = K_PEND" "prio (tcb ?s t) = prio (tcb s t)"
    "b_prio (tcb ?s t) = b_prio (tcb s t)" "suspend_count (tcb ?s t) = suspend_count (tcb s t)"
    "blk_obj (tcb ?s t) = Some ob" "tick_head (tcb ?s t) \<longleftrightarrow> timed timeout \<or> tick_head (tcb s t)"
    by (simp_all add: pend_on_def Let_def)
  have nth: "\<not> tick_head (tcb s t)" "\<not> pended (tcb s t)" using i(3) t by (auto simp: inv_tick_def kstates)
  show "inv_ready ?s"
    by (rule inv_ready_leave [OF i(1), of _ t])
      (use rq_without_props [OF i(1,5) t] other self t in \<open>auto simp: pend_on_def Let_def\<close>)
  show "inv_blk ?s"
    by (rule inv_blk_enter [OF i(2) nth(2), of _ ob])
      (use self other in \<open>auto simp: pended_def pend_on_def Let_def\<close>)
  show "inv_tick ?s"
  proof (cases "timed timeout")
    case True
    then have "0 < timeout" "timeout < 2 ^ 63" using time by (auto simp: timed_def)
    with True show ?thesis
      by (intro inv_tick_enter [OF i(3) nth(1), of _ "tcb ?s" timeout])
        (use other self in \<open>auto simp: pend_on_def Let_def pended_def\<close>)
  next
    case False
    then show ?thesis
      by (intro inv_tick_cong [OF _ _ _ _ _ i(3)]) (use t in \<open>auto simp: pend_on_def Let_def kstates nth\<close>)
  qed
  show "inv_tasks ?s"
  proof (rule inv_tasks_cong [OF _ _ _ _ _ i(4)])
    fix u
    show "live (tcb ?s u) = live (tcb s u)" using other self t by (cases "u = t") (auto simp: live_def)
    assume l: "live (tcb s u)"
    show "prio (tcb ?s u) < RHINO_CONFIG_PRI_MAX" "b_prio (tcb ?s u) < RHINO_CONFIG_PRI_MAX"
      "suspended (tcb ?s u) \<longleftrightarrow> 0 < suspend_count (tcb ?s u)"
      using kinv_prio [OF k l] kinv_b_prio [OF k l] kinv_suspended [OF k l] other self t
      by (cases "u = t"; simp add: suspended_def)+
  qed (simp add: pend_on_def Let_def)
  show "inv_idle ?s" using i(5) other [of idle_tid] t(2) by (simp add: inv_idle_def)
  show "no_fault ?s" using i(6) by (simp add: no_fault_def pend_on_def Let_def)
qed

end
