(* ===== verification/K_Inheritance.thy ===== *)
theory K_Inheritance
  imports K_Inv
begin

text \<open>
  Priority inheritance. A task that waits for a mutex passes its priority on to the owner,
  and the owner to the owner of the mutex it waits for. \<open>eff s t\<close> is the priority task \<open>t\<close>
  should run at: the highest among its own base priority and the priorities of the tasks
  that wait for a mutex it holds. The theory shows that \<open>task_pri_change\<close> ends after at most
  as many rounds as there are tasks if the chain of owners has no cycle, gives the task the
  priority asked for, and restores \<open>prio = eff\<close> for every task along the chain.
\<close>

section \<open>The invariant and one change of priority\<close>

lemma tcb_blk_list_rm [simp]: "tcb (blk_list_rm t s) = tcb s"
  by (simp add: blk_list_rm_def)

lemma kinv_set_prio_other:
  assumes k: "kinv s" and st: "task_state (tcb s t) \<noteq> K_RDY" "\<not> pended (tcb s t)" and p: "p < RHINO_CONFIG_PRI_MAX"
  shows "kinv (upd_task t (\<lambda>k. k\<lparr>prio := p\<rparr>) s)"
proof (rule kinvI)
  let ?s = "upd_task t (\<lambda>k. k\<lparr>prio := p\<rparr>) s"
  note i = kinvD [OF k]
  show "inv_ready ?s" by (rule inv_ready_cong [OF _ _ _ i(1)]) (use st in \<open>auto simp: upd_task_def\<close>)
  show "inv_blk ?s" by (rule inv_blk_cong [OF _ _ _ _ i(2)]) (use st in \<open>auto simp: upd_task_def pended_def\<close>)
  show "inv_tick ?s" by (rule inv_tick_cong [OF _ _ _ _ _ i(3)]) (auto simp: upd_task_def kstates)
  show "inv_tasks ?s"
    by (rule inv_tasks_cong [OF _ _ _ _ _ i(4)]) (use p i(4) in \<open>auto simp: upd_task_def kstates inv_tasks_def\<close>)
  show "inv_idle ?s" using i(5) st(1) by (auto simp: inv_idle_def upd_task_def)
  show "no_fault ?s" using i(6) by (simp add: no_fault_def upd_task_def)
qed

definition requeue :: "bool \<Rightarrow> tid \<Rightarrow> nat \<Rightarrow> kstate \<Rightarrow> kstate" where
  "requeue front t p s = s\<lparr>
     tcb := (tcb s)(t := (tcb s t)\<lparr>prio := p\<rparr>),
     g_ready_queue := (if front then rq_add_head p t (rq_without t s) else rq_add_tail p t (rq_without t s))\<rparr>"

lemma kinv_requeue:
  assumes k: "kinv s" and st: "task_state (tcb s t) = K_RDY" "t \<noteq> idle_tid" and p: "p < RHINO_CONFIG_PRI_MAX"
  shows "kinv (requeue front t p s)"
proof (rule kinvI)
  let ?s = "requeue front t p s"
  note i = kinvD [OF k]
  note w = rq_without_props [OF i(1,5) st]
  have nt: "t \<notin> set (cur_list_item (rq_without t s) q)" for q
    using i(1) w(3) by (auto simp: inv_ready_def)
  have "distinct (cur_list_item (g_ready_queue ?s) q)" for q
    using i(1) w(3) nt [of p] by (auto simp: inv_ready_def requeue_def distinct_remove1)
  moreover have "u \<in> set (cur_list_item (g_ready_queue ?s) q) \<longleftrightarrow>
      task_state (tcb ?s u) = K_RDY \<and> prio (tcb ?s u) = q" for u q
    using i(1) w(3) st by (cases "u = t") (auto simp: inv_ready_def requeue_def)
  moreover have "rq_wf (g_ready_queue ?s)"
    using w(2) p by (simp add: requeue_def rq_add_head_wf rq_add_tail_wf)
  ultimately show "inv_ready ?s" by (simp add: inv_ready_def)
  show "inv_blk ?s" by (rule inv_blk_cong [OF _ _ _ _ i(2)]) (use st in \<open>auto simp: requeue_def pended_def\<close>)
  show "inv_tick ?s" by (rule inv_tick_cong [OF _ _ _ _ _ i(3)]) (auto simp: requeue_def kstates)
  show "inv_tasks ?s"
    by (rule inv_tasks_cong [OF _ _ _ _ _ i(4)]) (use p i(4) in \<open>auto simp: requeue_def kstates inv_tasks_def\<close>)
  show "inv_idle ?s" using i(5) st(2) by (simp add: inv_idle_def requeue_def)
  show "no_fault ?s" using i(6) by (simp add: no_fault_def requeue_def)
qed

definition reorder :: "tid \<Rightarrow> nat \<Rightarrow> kstate \<Rightarrow> kstate" where
  "reorder t p s = pend_list_reorder t (upd_task t (\<lambda>k. k\<lparr>prio := p\<rparr>) s)"

lemma reorder_eq:
  assumes "inv_blk s" and "pended (tcb s t)" and "blk_obj (tcb s t) = Some ob"
  shows "reorder t p s = s\<lparr>
     tcb := (tcb s)(t := (tcb s t)\<lparr>prio := p\<rparr>),
     blk_objs := (if blk_policy (blk_objs s ob) = BLK_POLICY_PRI
       then (blk_objs s)(ob := (blk_objs s ob)\<lparr>blk_list :=
         pend_list_add ((tcb s)(t := (tcb s t)\<lparr>prio := p\<rparr>)) t (remove1 t (blk_list (blk_objs s ob)))\<rparr>)
       else blk_objs s)\<rparr>"
proof -
  have "(blk_objs s o')\<lparr>blk_list := remove1 t (blk_list (blk_objs s o'))\<rparr> = blk_objs s o'" if "o' \<noteq> ob" for o'
  proof -
    have "t \<notin> set (blk_list (blk_objs s o'))" using assms that by (auto simp: inv_blk_def)
    then show ?thesis by (simp add: remove1_idem)
  qed
  then show ?thesis using assms(3)
    by (auto simp: reorder_def pend_list_reorder_def kupd fun_eq_iff)
qed

lemma kinv_reorder:
  assumes k: "kinv s" and st: "pended (tcb s t)" and p: "p < RHINO_CONFIG_PRI_MAX"
  shows "kinv (reorder t p s)"
proof (rule kinvI)
  let ?s = "reorder t p s"
  note i = kinvD [OF k]
  obtain ob where ob: "blk_obj (tcb s t) = Some ob" using i(2) st by (auto simp: inv_blk_def)
  note eq = reorder_eq [OF i(2) st ob]
  have other: "tcb ?s u = tcb s u" if "u \<noteq> t" for u using that by (simp add: eq)
  have core: "task_state (tcb ?s u) = task_state (tcb s u)" "blk_obj (tcb ?s u) = blk_obj (tcb s u)"
    "tick_head (tcb ?s u) = tick_head (tcb s u)" "tick_match (tcb ?s u) = tick_match (tcb s u)"
    "b_prio (tcb ?s u) = b_prio (tcb s u)" "suspend_count (tcb ?s u) = suspend_count (tcb s u)" for u
    by (simp_all add: eq)
  have pt: "pended (tcb ?s u) = pended (tcb s u)" "sleeping (tcb ?s u) = sleeping (tcb s u)"
    "live (tcb ?s u) = live (tcb s u)" "suspended (tcb ?s u) = suspended (tcb s u)" for u
    by (simp_all add: kstates core)
  have d: "distinct (blk_list (blk_objs s o'))" for o' using i(2) by (simp add: inv_blk_def)
  have mem: "t \<in> set (blk_list (blk_objs s o')) \<longleftrightarrow> o' = ob" for o'
    using i(2) st ob by (auto simp: inv_blk_def)
  have set: "set (blk_list (blk_objs ?s o')) = set (blk_list (blk_objs s o'))" for o'
    using d mem [of ob] by (auto simp: eq)
  have pol: "blk_policy (blk_objs ?s o') = blk_policy (blk_objs s o')" for o' by (simp add: eq)
  have "distinct (blk_list (blk_objs ?s o'))" for o'
    using d [of ob] d [of o'] by (auto simp: eq pend.distinct_ins)
  moreover have "sorted (map (\<lambda>u. prio (tcb ?s u)) (blk_list (blk_objs ?s o')))"
    if q: "blk_policy (blk_objs s o') = BLK_POLICY_PRI" for o'
  proof -
    have so: "sorted (map (\<lambda>u. prio (tcb s u)) (blk_list (blk_objs s o')))"
      using i(2) q by (simp add: inv_blk_def)
    have rest: "sorted (map (\<lambda>u. prio (tcb ?s u)) (remove1 t (blk_list (blk_objs s o'))))"
      using sorted_remove1_map [OF so, of t] d [of o'] other
      by (subst sorted_map_cong_set [where g = "\<lambda>u. prio (tcb s u)"]) auto
    show ?thesis
    proof (cases "o' = ob")
      case True
      then have "blk_list (blk_objs ?s o') = pend_list_add (tcb ?s) t (remove1 t (blk_list (blk_objs s o')))"
        using q by (simp add: eq)
      with pend.sorted_ins rest show ?thesis by simp
    next
      case False
      then have "blk_list (blk_objs ?s o') = remove1 t (blk_list (blk_objs s o'))"
        using mem [of o'] by (simp add: eq remove1_idem)
      with rest show ?thesis by simp
    qed
  qed
  ultimately show "inv_blk ?s" using i(2) by (simp add: inv_blk_def set pol pt core)
  show "inv_ready ?s"
    by (rule inv_ready_cong [OF _ _ _ i(1)]) (use st core in \<open>auto simp: eq pended_def\<close>)
  show "inv_tick ?s"
    by (rule inv_tick_cong [OF _ _ _ _ _ i(3)]) (simp_all add: core pt, simp_all add: eq)
  show "inv_tasks ?s"
    by (rule inv_tasks_cong [OF _ _ _ _ _ i(4)])
      (use p i(4) in \<open>simp_all add: pt core inv_tasks_def\<close>, simp_all add: eq)
  show "inv_idle ?s" using i(5) st by (auto simp: inv_idle_def eq pended_def)
  show "no_fault ?s" using i(6) by (simp add: no_fault_def eq)
qed

section \<open>Tasks that wait for each other\<close>

definition owner_of :: "kstate \<Rightarrow> tid \<Rightarrow> tid option" where
  "owner_of s t =
    (if pended (tcb s t) then
       (case blk_obj (tcb s t) of
          None \<Rightarrow> None
        | Some m \<Rightarrow> if obj_type (blk_objs s m) = RHINO_MUTEX_OBJ_TYPE then mutex_task (mutexes s m) else None)
     else None)"

definition waits_for :: "kstate \<Rightarrow> (tid \<times> tid) set" where
  "waits_for s = {(t, u). owner_of s t = Some u}"

definition is_mutex :: "kstate \<Rightarrow> oid \<Rightarrow> bool" where
  "is_mutex s m \<longleftrightarrow> obj_type (blk_objs s m) = RHINO_MUTEX_OBJ_TYPE"

text \<open>What holds of the mutexes at every point, also in the middle of an operation.\<close>

definition mtx_struct :: "kstate \<Rightarrow> bool" where
  "mtx_struct s \<longleftrightarrow>
     (\<forall>m t. is_mutex s m \<and> mutex_task (mutexes s m) = Some t \<longrightarrow> live (tcb s t) \<and> t \<noteq> idle_tid) \<and>
     (\<forall>m. is_mutex s m \<and> blk_list (blk_objs s m) \<noteq> [] \<longrightarrow> mutex_task (mutexes s m) \<noteq> None) \<and>
     (\<forall>m. is_mutex s m \<longrightarrow> blk_policy (blk_objs s m) = BLK_POLICY_PRI) \<and>
     acyclic (waits_for s)"

text \<open>The list of a task holds exactly the mutexes it owns.\<close>

definition owns_ok :: "kstate \<Rightarrow> tid \<Rightarrow> bool" where
  "owns_ok s t \<longleftrightarrow> distinct (mutex_list (tcb s t)) \<and>
     (\<forall>m. m \<in> set (mutex_list (tcb s t)) \<longleftrightarrow> is_mutex s m \<and> mutex_task (mutexes s m) = Some t)"

definition waiters :: "kstate \<Rightarrow> tid \<Rightarrow> tid set" where
  "waiters s t = (\<Union>m\<in>set (mutex_list (tcb s t)). set (blk_list (blk_objs s m)))"

definition eff :: "kstate \<Rightarrow> tid \<Rightarrow> nat" where
  "eff s t = Min (insert (b_prio (tcb s t)) ((\<lambda>u. prio (tcb s u)) ` waiters s t))"

lemma finite_waiters [simp]: "finite (waiters s t)"
  by (simp add: waiters_def)

lemma eff_le_base: "eff s t \<le> b_prio (tcb s t)"
  by (simp add: eff_def)

lemma waiter_waits:
  assumes "inv_blk s" and "owns_ok s t" and "u \<in> waiters s t"
  shows "(u, t) \<in> waits_for s"
  using assms by (auto simp: waiters_def inv_blk_def owns_ok_def waits_for_def owner_of_def is_mutex_def)

lemma waits_waiter:
  assumes "inv_blk s" and "owns_ok s t" and "(u, t) \<in> waits_for s"
  shows "u \<in> waiters s t"
proof -
  from assms(3) obtain m where m: "pended (tcb s u)" "blk_obj (tcb s u) = Some m" "is_mutex s m"
    "mutex_task (mutexes s m) = Some t"
    by (auto simp: waits_for_def owner_of_def is_mutex_def split: if_splits option.splits)
  then have "u \<in> set (blk_list (blk_objs s m))" using assms(1) by (simp add: inv_blk_def)
  moreover have "m \<in> set (mutex_list (tcb s t))" using m assms(2) by (simp add: owns_ok_def)
  ultimately show ?thesis by (auto simp: waiters_def)
qed

text \<open>The scan of the first waiting tasks finds the priority over all of them.\<close>

lemma look_eff:
  assumes k: "kinv s" and m: "mtx_struct s" and ms: "\<And>m. m \<in> set (mutex_list (tcb s t)) \<Longrightarrow> is_mutex s m"
  shows "Min (insert b (first_pris s (mutex_list (tcb s t)))) =
    Min (insert b ((\<lambda>u. prio (tcb s u)) ` waiters s t))"
proof -
  let ?F = "first_pris s (mutex_list (tcb s t))" and ?W = "(\<lambda>u. prio (tcb s u)) ` waiters s t"
  have sub: "?F \<subseteq> ?W" by (fastforce simp: first_pris_def waiters_def intro!: imageI hd_in_set)
  have "\<exists>f\<in>?F. f \<le> prio (tcb s u)" if u: "u \<in> waiters s t" for u
  proof -
    from u obtain o' where o': "o' \<in> set (mutex_list (tcb s t))" "u \<in> set (blk_list (blk_objs s o'))"
      by (auto simp: waiters_def)
    then have "sorted (map (\<lambda>t. prio (tcb s t)) (blk_list (blk_objs s o')))"
      using kinvD(2) [OF k] m ms by (auto simp: inv_blk_def mtx_struct_def)
    then have "prio (tcb s (hd (blk_list (blk_objs s o')))) \<le> prio (tcb s u)"
      using o'(2) by (cases "blk_list (blk_objs s o')") auto
    moreover have "prio (tcb s (hd (blk_list (blk_objs s o')))) \<in> ?F"
      using o' by (auto simp: first_pris_def)
    ultimately show ?thesis by blast
  qed
  then have "Min (insert b ?F) \<le> x" if "x \<in> insert b ?W" for x
    using that by (auto intro: Min_le_iff [THEN iffD2])
  moreover have "Min (insert b ?F) \<in> insert b ?W" using sub Min_in [of "insert b ?F"] by auto
  ultimately show ?thesis by (intro Min_eqI [symmetric]) auto
qed

section \<open>What a change of priorities leaves alone\<close>

definition prio_frame :: "kstate \<Rightarrow> kstate \<Rightarrow> bool" where
  "prio_frame s s' \<longleftrightarrow>
     (\<exists>tc rq bo. s' = s\<lparr>tcb := tc, g_ready_queue := rq, blk_objs := bo\<rparr>) \<and>
     (\<forall>u. \<exists>p. tcb s' u = (tcb s u)\<lparr>prio := p\<rparr>) \<and>
     (\<forall>ob. \<exists>xs. blk_objs s' ob = (blk_objs s ob)\<lparr>blk_list := xs\<rparr> \<and> set xs = set (blk_list (blk_objs s ob)))"

lemma prio_frameI:
  assumes "s' = s\<lparr>tcb := tc, g_ready_queue := rq, blk_objs := bo\<rparr>"
    and "\<And>u. tc u = (tcb s u)\<lparr>prio := prio (tc u)\<rparr>"
    and "\<And>ob. bo ob = (blk_objs s ob)\<lparr>blk_list := blk_list (bo ob)\<rparr>"
    and "\<And>ob. set (blk_list (bo ob)) = set (blk_list (blk_objs s ob))"
  shows "prio_frame s s'"
proof -
  have "tcb s' = tc" "blk_objs s' = bo" using assms(1) by simp_all
  then show ?thesis unfolding prio_frame_def using assms by blast
qed

lemma prio_frame_refl [simp]: "prio_frame s s"
  by (rule prio_frameI [where tc = "tcb s" and rq = "g_ready_queue s" and bo = "blk_objs s"]) auto

lemma prio_frame_trans:
  assumes "prio_frame s s'" and "prio_frame s' s''"
  shows "prio_frame s s''"
proof -
  have "\<exists>tc rq bo. s'' = s\<lparr>tcb := tc, g_ready_queue := rq, blk_objs := bo\<rparr>"
  proof -
    from assms obtain tc rq bo tc' rq' bo' where "s' = s\<lparr>tcb := tc, g_ready_queue := rq, blk_objs := bo\<rparr>"
      "s'' = s'\<lparr>tcb := tc', g_ready_queue := rq', blk_objs := bo'\<rparr>"
      unfolding prio_frame_def by blast
    then have "s'' = s\<lparr>tcb := tc', g_ready_queue := rq', blk_objs := bo'\<rparr>" by simp
    then show ?thesis by blast
  qed
  moreover have "\<exists>p. tcb s'' u = (tcb s u)\<lparr>prio := p\<rparr>" for u
  proof -
    from assms obtain p q where "tcb s' u = (tcb s u)\<lparr>prio := p\<rparr>" "tcb s'' u = (tcb s' u)\<lparr>prio := q\<rparr>"
      unfolding prio_frame_def by metis
    then show ?thesis by auto
  qed
  moreover have "\<exists>xs. blk_objs s'' ob = (blk_objs s ob)\<lparr>blk_list := xs\<rparr> \<and> set xs = set (blk_list (blk_objs s ob))" for ob
  proof -
    from assms obtain xs ys where
      "blk_objs s' ob = (blk_objs s ob)\<lparr>blk_list := xs\<rparr>" "set xs = set (blk_list (blk_objs s ob))"
      "blk_objs s'' ob = (blk_objs s' ob)\<lparr>blk_list := ys\<rparr>" "set ys = set (blk_list (blk_objs s' ob))"
      unfolding prio_frame_def by metis
    then show ?thesis by auto
  qed
  ultimately show ?thesis by (auto simp: prio_frame_def)
qed

lemma prio_frame_task:
  assumes "prio_frame s s'"
  shows "task_state (tcb s' u) = task_state (tcb s u)" "blk_obj (tcb s' u) = blk_obj (tcb s u)"
    "mutex_list (tcb s' u) = mutex_list (tcb s u)" "b_prio (tcb s' u) = b_prio (tcb s u)"
    "tick_head (tcb s' u) = tick_head (tcb s u)" "suspend_count (tcb s' u) = suspend_count (tcb s u)"
    "blk_state (tcb s' u) = blk_state (tcb s u)" "mm_alloc_flag (tcb s' u) = mm_alloc_flag (tcb s u)"
    "tick_match (tcb s' u) = tick_match (tcb s u)"
proof -
  obtain p where "tcb s' u = (tcb s u)\<lparr>prio := p\<rparr>" using assms unfolding prio_frame_def by blast
  then show "task_state (tcb s' u) = task_state (tcb s u)" "blk_obj (tcb s' u) = blk_obj (tcb s u)"
    "mutex_list (tcb s' u) = mutex_list (tcb s u)" "b_prio (tcb s' u) = b_prio (tcb s u)"
    "tick_head (tcb s' u) = tick_head (tcb s u)" "suspend_count (tcb s' u) = suspend_count (tcb s u)"
    "blk_state (tcb s' u) = blk_state (tcb s u)" "mm_alloc_flag (tcb s' u) = mm_alloc_flag (tcb s u)"
    "tick_match (tcb s' u) = tick_match (tcb s u)"
    by simp_all
qed

lemma prio_frame_blk:
  assumes "prio_frame s s'"
  shows "set (blk_list (blk_objs s' ob)) = set (blk_list (blk_objs s ob))"
    "blk_policy (blk_objs s' ob) = blk_policy (blk_objs s ob)"
    "obj_type (blk_objs s' ob) = obj_type (blk_objs s ob)"
proof -
  obtain xs where "blk_objs s' ob = (blk_objs s ob)\<lparr>blk_list := xs\<rparr>" "set xs = set (blk_list (blk_objs s ob))"
    using assms unfolding prio_frame_def by blast
  then show "set (blk_list (blk_objs s' ob)) = set (blk_list (blk_objs s ob))"
    "blk_policy (blk_objs s' ob) = blk_policy (blk_objs s ob)"
    "obj_type (blk_objs s' ob) = obj_type (blk_objs s ob)"
    by simp_all
qed

lemma prio_frame_globals:
  assumes "prio_frame s s'"
  shows "mutexes s' = mutexes s" "g_tasks s' = g_tasks s" "g_active_task s' = g_active_task s"
    "g_tick_head s' = g_tick_head s" "g_tick_count s' = g_tick_count s" "g_sched_lock s' = g_sched_lock s"
    "g_intrpt_nested_level s' = g_intrpt_nested_level s" "sems s' = sems s" "events s' = events s"
    "queues s' = queues s" "buf_queues s' = buf_queues s" "u8_mem s' = u8_mem s" "u32_mem s' = u32_mem s"
    "g_sys_stat s' = g_sys_stat s" "g_idle_task_spawned s' = g_idle_task_spawned s"
proof -
  obtain tc rq bo where "s' = s\<lparr>tcb := tc, g_ready_queue := rq, blk_objs := bo\<rparr>"
    using assms unfolding prio_frame_def by blast
  then show "mutexes s' = mutexes s" "g_tasks s' = g_tasks s" "g_active_task s' = g_active_task s"
    "g_tick_head s' = g_tick_head s" "g_tick_count s' = g_tick_count s" "g_sched_lock s' = g_sched_lock s"
    "g_intrpt_nested_level s' = g_intrpt_nested_level s" "sems s' = sems s" "events s' = events s"
    "queues s' = queues s" "buf_queues s' = buf_queues s" "u8_mem s' = u8_mem s" "u32_mem s' = u32_mem s"
    "g_sys_stat s' = g_sys_stat s" "g_idle_task_spawned s' = g_idle_task_spawned s"
    by simp_all
qed

lemmas prio_frame_simps = prio_frame_task prio_frame_blk prio_frame_globals

lemma prio_frame_mtx:
  assumes "prio_frame s s'"
  shows "is_mutex s' m = is_mutex s m" "owns_ok s' t = owns_ok s t" "waits_for s' = waits_for s"
    "waiters s' t = waiters s t" "mtx_struct s' = mtx_struct s" "live (tcb s' t) = live (tcb s t)"
    "pended (tcb s' t) = pended (tcb s t)"
proof -
  note f = prio_frame_simps [OF assms]
  show mu: "is_mutex s' m = is_mutex s m" for m by (simp add: is_mutex_def f)
  show "owns_ok s' t = owns_ok s t" by (simp add: owns_ok_def mu f)
  show w: "waits_for s' = waits_for s" by (simp add: waits_for_def owner_of_def pended_def f cong: if_cong option.case_cong)
  show "waiters s' t = waiters s t" by (simp add: waiters_def f)
  have "blk_list (blk_objs s' m) = [] \<longleftrightarrow> blk_list (blk_objs s m) = []" for m
    using f(10) [of m] by (metis set_empty)
  then show "mtx_struct s' = mtx_struct s" by (simp add: mtx_struct_def mu w f live_def)
  show "live (tcb s' t) = live (tcb s t)" "pended (tcb s' t) = pended (tcb s t)" by (simp_all add: kstates f)
qed

lemma prio_frame_eff:
  assumes "prio_frame s s'" and "\<And>u. u \<in> waiters s t \<Longrightarrow> prio (tcb s' u) = prio (tcb s u)"
  shows "eff s' t = eff s t"
proof -
  have "(\<lambda>u. prio (tcb s' u)) ` waiters s' t = (\<lambda>u. prio (tcb s u)) ` waiters s t"
    using assms(2) by (auto simp: prio_frame_mtx [OF assms(1)] intro!: image_eqI)
  then show ?thesis by (simp add: eff_def prio_frame_task [OF assms(1)])
qed

section \<open>One round\<close>

definition set_prio :: "tid \<Rightarrow> nat \<Rightarrow> kstate \<Rightarrow> kstate" where
  "set_prio t p s =
    (if prio (tcb s t) = p then s
     else if task_state (tcb s t) = K_RDY then requeue (t = g_active_task s) t p s
     else if pended (tcb s t) then reorder t p s
     else upd_task t (\<lambda>k. k\<lparr>prio := p\<rparr>) s)"

lemma kinv_set_prio:
  "kinv s \<Longrightarrow> t \<noteq> idle_tid \<Longrightarrow> p < RHINO_CONFIG_PRI_MAX \<Longrightarrow> kinv (set_prio t p s)"
  by (simp add: set_prio_def kinv_requeue kinv_reorder kinv_set_prio_other)

lemma kinv_blk_obj: "kinv s \<Longrightarrow> pended (tcb s t) \<Longrightarrow> \<exists>ob. blk_obj (tcb s t) = Some ob"
  by (auto simp: kinv_def inv_blk_def)

lemma prio_frame_upd_prio: "prio_frame s (upd_task t (\<lambda>k. k\<lparr>prio := p\<rparr>) s)"
  by (rule prio_frameI [where tc = "(tcb s)(t := (tcb s t)\<lparr>prio := p\<rparr>)" and rq = "g_ready_queue s"
        and bo = "blk_objs s"]) (auto simp: upd_task_def)

lemma prio_frame_requeue: "prio_frame s (requeue front t p s)"
  by (rule prio_frameI [where tc = "(tcb s)(t := (tcb s t)\<lparr>prio := p\<rparr>)"
        and rq = "g_ready_queue (requeue front t p s)" and bo = "blk_objs s"]) (auto simp: requeue_def)

lemma prio_frame_reorder:
  assumes "kinv s" and "pended (tcb s t)"
  shows "prio_frame s (reorder t p s)"
proof -
  obtain ob where ob: "blk_obj (tcb s t) = Some ob" using kinv_blk_obj [OF assms] by blast
  note eq = reorder_eq [OF kinvD(2) [OF assms(1)] assms(2) ob]
  have "t \<in> set (blk_list (blk_objs s ob))" "distinct (blk_list (blk_objs s ob))"
    using kinvD(2) [OF assms(1)] assms(2) ob by (auto simp: inv_blk_def)
  then show ?thesis
    by (intro prio_frameI [where tc = "(tcb s)(t := (tcb s t)\<lparr>prio := p\<rparr>)" and rq = "g_ready_queue s"
          and bo = "blk_objs (reorder t p s)"]) (auto simp: eq)
qed

lemma prio_frame_set_prio: "kinv s \<Longrightarrow> prio_frame s (set_prio t p s)"
  by (simp add: set_prio_def prio_frame_requeue prio_frame_reorder prio_frame_upd_prio)

lemma prio_set_prio:
  assumes "kinv s"
  shows "prio (tcb (set_prio t p s) u) = (if u = t then p else prio (tcb s u))"
proof (cases "pended (tcb s t)")
  case True
  then obtain ob where "blk_obj (tcb s t) = Some ob" using kinv_blk_obj [OF assms] by blast
  with True reorder_eq [OF kinvD(2) [OF assms]] show ?thesis
    by (auto simp: set_prio_def requeue_def)
next
  case False
  then show ?thesis by (auto simp: set_prio_def requeue_def upd_task_def)
qed

lemma pri_change_round_eq:
  assumes k: "kinv s" and m: "mtx_struct s" and t: "live (tcb s task)" "task \<noteq> idle_tid"
  shows "pri_change_round task np s =
    (if prio (tcb s task) = np then Inl (RHINO_SUCCESS, s)
     else let s1 = set_prio task np s in
       (case owner_of s task of
          None \<Rightarrow> Inl (RHINO_SUCCESS, s1)
        | Some mt \<Rightarrow>
            if np < prio (tcb s1 mt) then Inr (mt, np, s1)
            else if prio (tcb s1 mt) = prio (tcb s task) then
              let n = Min (insert (b_prio (tcb s1 mt)) (first_pris s1 (mutex_list (tcb s1 mt))))
              in if n \<noteq> prio (tcb s1 mt) then Inr (mt, n, s1) else Inl (RHINO_SUCCESS, s1)
            else Inl (RHINO_SUCCESS, s1)))"
proof (cases "prio (tcb s task) = np")
  case True
  then show ?thesis by (simp add: pri_change_round_def)
next
  case ne: False
  consider "task_state (tcb s task) = K_RDY" | "pended (tcb s task)"
    | "task_state (tcb s task) = K_SLEEP \<or> task_state (tcb s task) = K_SUSPENDED \<or>
       task_state (tcb s task) = K_SLEEP_SUSPENDED"
    using t(1) by (cases "task_state (tcb s task)") (auto simp: kstates)
  then show ?thesis
  proof cases
    case 1
    then show ?thesis using ne ready_list_rm_eq [OF kinvD(1) [OF k] kinvD(5) [OF k] 1 t(2)]
      by (simp add: pri_change_round_def set_prio_def requeue_def owner_of_def pended_def
          upd_task_def ready_list_add_head_def ready_list_add_tail_def Let_def)
  next
    case 3
    then show ?thesis using ne
      by (auto simp: pri_change_round_def set_prio_def owner_of_def pended_def)
  next
    case 2
    then obtain ob where ob: "blk_obj (tcb s task) = Some ob" using kinv_blk_obj [OF k] by blast
    let ?s1 = "reorder task np s"
    have f: "prio_frame s ?s1" by (rule prio_frame_reorder [OF k 2])
    have st: "task_state (tcb s task) = K_PEND \<or> task_state (tcb s task) = K_PEND_SUSPENDED"
      using 2 by (simp add: pended_def)
    have s1: "set_prio task np s = ?s1" using ne st by (auto simp: set_prio_def pended_def)
    have pr: "prio (tcb ?s1 task) = np" using prio_set_prio [OF k, of task np task] s1 by simp
    have "task \<in> set (blk_list (blk_objs s ob))" using kinvD(2) [OF k] 2 ob by (auto simp: inv_blk_def)
    then have mt: "mutex_task (mutexes s ob) \<noteq> None" if "is_mutex s ob"
      using m that by (auto simp: mtx_struct_def)
    have "pri_change_round task np s = pri_change_pend task np s"
      using ne st by (auto simp: pri_change_round_def)
    also have "\<dots> = (if is_mutex s ob then
        (case mutex_task (mutexes s ob) of None \<Rightarrow> Inl (RHINO_SUCCESS, fault ?s1)
         | Some mt \<Rightarrow> if np < prio (tcb ?s1 mt) then Inr (mt, np, ?s1)
            else if prio (tcb ?s1 mt) = prio (tcb s task) then
              let n = Min (insert (b_prio (tcb ?s1 mt)) (first_pris ?s1 (mutex_list (tcb ?s1 mt))))
              in if n \<noteq> prio (tcb ?s1 mt) then Inr (mt, n, ?s1) else Inl (RHINO_SUCCESS, ?s1)
            else Inl (RHINO_SUCCESS, ?s1))
        else Inl (RHINO_SUCCESS, ?s1))"
      unfolding pri_change_pend_def reorder_def [symmetric] Let_def
      using prio_frame_simps [OF f] ob pr
      by (simp add: is_mutex_def mutex_pri_look_None cong: if_cong option.case_cong)
    finally show ?thesis using ne ob mt st s1 2
      by (auto simp: owner_of_def is_mutex_def Let_def split: option.splits)
  qed
qed

section \<open>The chain\<close>

lemma waits_for_fun: "(t, u) \<in> waits_for s \<Longrightarrow> (t, v) \<in> waits_for s \<Longrightarrow> u = v"
  by (simp add: waits_for_def)

lemma trancl_first:
  "(t, u) \<in> waits_for s \<Longrightarrow> (t, v) \<in> (waits_for s)\<^sup>+ \<longleftrightarrow> v = u \<or> (u, v) \<in> (waits_for s)\<^sup>+"
  by (metis trancl.r_into_trancl trancl_into_trancl2 tranclD rtranclD waits_for_fun)

lemma acyclic_waits: "mtx_struct s \<Longrightarrow> (t, t) \<notin> (waits_for s)\<^sup>+"
  by (simp add: mtx_struct_def acyclic_def)

lemma waits_owner_live:
  "mtx_struct s \<Longrightarrow> (t, u) \<in> waits_for s \<Longrightarrow> live (tcb s u) \<and> u \<noteq> idle_tid"
  by (auto simp: mtx_struct_def waits_for_def owner_of_def is_mutex_def split: if_splits option.splits)

lemma finite_reach:
  assumes "kinv s" and "mtx_struct s"
  shows "finite ((waits_for s)\<^sup>* `` {t})"
proof (rule finite_subset)
  show "(waits_for s)\<^sup>* `` {t} \<subseteq> insert t (set (g_tasks s))"
  proof
    fix u assume "u \<in> (waits_for s)\<^sup>* `` {t}"
    then have "u = t \<or> (\<exists>v. (v, u) \<in> waits_for s)" by (auto elim: rtranclE)
    then show "u \<in> insert t (set (g_tasks s))"
      using waits_owner_live [OF assms(2)] kinvD(4) [OF assms(1)] by (auto simp: inv_tasks_def)
  qed
qed simp

lemma card_reach_step:
  assumes "kinv s" and "mtx_struct s" and "(t, u) \<in> waits_for s"
  shows "card ((waits_for s)\<^sup>* `` {u}) < card ((waits_for s)\<^sup>* `` {t})"
proof (rule psubset_card_mono [OF finite_reach [OF assms(1,2)]])
  have "t \<notin> (waits_for s)\<^sup>* `` {u}"
    using acyclic_waits [OF assms(2), of t] assms(3) by (auto dest: rtrancl_into_trancl2)
  moreover have "(waits_for s)\<^sup>* `` {u} \<subseteq> (waits_for s)\<^sup>* `` {t}"
    using assms(3) by (auto intro: converse_rtrancl_into_rtrancl)
  ultimately show "(waits_for s)\<^sup>* `` {u} \<subset> (waits_for s)\<^sup>* `` {t}" by auto
qed

text \<open>The effect of one changed waiting task on the priority of the owner.\<close>

lemma Min_insert_min: "finite A \<Longrightarrow> A \<noteq> {} \<Longrightarrow> Min (insert x A) = min x (Min A :: nat)"
  by (rule Min_insert)

lemma eff_set_prio:
  assumes k: "kinv s" and w: "t \<in> waiters s u"
  defines "A \<equiv> insert (b_prio (tcb s u)) ((\<lambda>v. prio (tcb s v)) ` (waiters s u - {t}))"
  shows "eff s u = min (prio (tcb s t)) (Min A)" "eff (set_prio t p s) u = min p (Min A)"
proof -
  have W: "waiters s u = insert t (waiters s u - {t})" using w by auto
  have A: "finite A" "A \<noteq> {}" by (simp_all add: A_def)
  have "insert (b_prio (tcb s u)) ((\<lambda>v. prio (tcb s v)) ` waiters s u) = insert (prio (tcb s t)) A"
    by (subst W) (auto simp: A_def)
  then show "eff s u = min (prio (tcb s t)) (Min A)" using A by (simp add: eff_def)
  note f = prio_frame_set_prio [OF k, of t p]
  have "insert (b_prio (tcb s u)) ((\<lambda>v. prio (tcb (set_prio t p s) v)) ` waiters s u) = insert p A"
    by (subst W) (auto simp: A_def prio_set_prio [OF k])
  then show "eff (set_prio t p s) u = min p (Min A)"
    using A by (simp add: eff_def prio_frame_mtx [OF f] prio_frame_task [OF f])
qed

definition chain_ok :: "kstate \<Rightarrow> tid \<Rightarrow> bool" where
  "chain_ok s t \<longleftrightarrow> (\<forall>u. (t, u) \<in> (waits_for s)\<^sup>+ \<longrightarrow> owns_ok s u \<and> prio (tcb s u) = eff s u)"

text \<open>A changed priority does not matter beyond the next owner.\<close>

lemma chain_ok_set_prio:
  assumes k: "kinv s" and m: "mtx_struct s" and c: "chain_ok s t" and w: "(t, u) \<in> waits_for s"
  shows "chain_ok (set_prio t p s) u"
  unfolding chain_ok_def
proof (intro allI impI)
  fix v
  note f = prio_frame_set_prio [OF k, of t p]
  assume "(u, v) \<in> (waits_for (set_prio t p s))\<^sup>+"
  then have uv: "(u, v) \<in> (waits_for s)\<^sup>+" by (simp add: prio_frame_mtx [OF f])
  with w have "(t, v) \<in> (waits_for s)\<^sup>+" by (rule trancl_into_trancl2)
  with c have o: "owns_ok s v" "prio (tcb s v) = eff s v" by (auto simp: chain_ok_def)
  have "v \<noteq> t" "v \<noteq> u" using acyclic_waits [OF m] uv trancl_into_trancl2 [OF w uv] by auto
  have "t \<notin> waiters s v"
    using waiter_waits [OF kinvD(2) [OF k] o(1), of t] waits_for_fun [OF w] \<open>v \<noteq> u\<close> by auto
  then have "eff (set_prio t p s) v = eff s v"
    by (intro prio_frame_eff [OF f]) (auto simp: prio_set_prio [OF k])
  with o \<open>v \<noteq> t\<close> show "owns_ok (set_prio t p s) v \<and> prio (tcb (set_prio t p s) v) = eff (set_prio t p s) v"
    by (simp add: prio_frame_mtx [OF f] prio_set_prio [OF k])
qed

text \<open>
  What \<open>task_pri_change\<close> promises: it succeeds, the task has the new priority, tasks off the
  chain keep theirs, and those on the chain have the effective one.
\<close>

definition pri_changed :: "kstate \<Rightarrow> tid \<Rightarrow> nat \<Rightarrow> kstate \<Rightarrow> bool" where
  "pri_changed s t p s' \<longleftrightarrow> kinv s' \<and> prio_frame s s' \<and> prio (tcb s' t) = p \<and> chain_ok s' t \<and>
     (\<forall>u. (t, u) \<notin> (waits_for s)\<^sup>* \<longrightarrow> prio (tcb s' u) = prio (tcb s u))"

lemma pri_changed_step:
  assumes k: "kinv s" and m: "mtx_struct s" and c: "chain_ok s t" and w: "(t, u) \<in> waits_for s"
    and e: "p' = eff (set_prio t p s) u"
    and r: "pri_changed (set_prio t p s) u p' s'"
  shows "pri_changed s t p s'"
proof -
  let ?s = "set_prio t p s"
  note f = prio_frame_set_prio [OF k, of t p]
  note mt = prio_frame_mtx [OF f]
  have ft: "prio_frame s s'" using prio_frame_trans [OF f] r by (auto simp: pri_changed_def)
  have ot: "owns_ok s u" using c w by (auto simp: chain_ok_def)
  have off: "(u, v) \<notin> (waits_for s)\<^sup>*" if "(v, u) \<in> waits_for s" for v
    using acyclic_waits [OF m, of u] rtrancl_into_trancl1 [OF _ that] by auto
  have "prio (tcb s' v) = prio (tcb ?s v)" if "(u, v) \<notin> (waits_for s)\<^sup>*" for v
    using r that by (simp add: pri_changed_def mt)
  note keep = this
  have "eff s' u = eff ?s u"
  proof (rule prio_frame_eff)
    show "prio_frame ?s s'" using r by (simp add: pri_changed_def)
    fix v assume "v \<in> waiters ?s u"
    then have "(v, u) \<in> waits_for s" using waiter_waits [OF kinvD(2) [OF k] ot] by (simp add: mt)
    then show "prio (tcb s' v) = prio (tcb ?s v)" by (intro keep off)
  qed
  then have u: "prio (tcb s' u) = eff s' u" using r e by (simp add: pri_changed_def)
  have w': "waits_for s' = waits_for s" by (rule prio_frame_mtx(3) [OF ft])
  have "chain_ok s' t"
    unfolding chain_ok_def
  proof (intro allI impI)
    fix v assume "(t, v) \<in> (waits_for s')\<^sup>+"
    then have "v = u \<or> (u, v) \<in> (waits_for s')\<^sup>+" using trancl_first [OF w] by (simp add: w')
    then show "owns_ok s' v \<and> prio (tcb s' v) = eff s' v"
      using u r ot by (auto simp: pri_changed_def chain_ok_def prio_frame_mtx [OF ft])
  qed
  moreover have "prio (tcb s' t) = p" using keep [OF off [OF w]] by (simp add: prio_set_prio [OF k])
  moreover have "prio (tcb s' v) = prio (tcb s v)" if "(t, v) \<notin> (waits_for s)\<^sup>*" for v
  proof -
    have "(u, v) \<notin> (waits_for s)\<^sup>*" "v \<noteq> t" using that w by (auto intro: converse_rtrancl_into_rtrancl)
    then show ?thesis using keep by (simp add: prio_set_prio [OF k])
  qed
  ultimately show ?thesis using r ft by (simp add: pri_changed_def)
qed

text \<open>A round that ends: nothing is left to change.\<close>

lemma pri_changed_end:
  assumes k: "kinv s" and m: "mtx_struct s" and c: "chain_ok s t" and t: "t \<noteq> idle_tid"
    and p: "p < RHINO_CONFIG_PRI_MAX"
    and u: "\<And>u. (t, u) \<in> waits_for s \<Longrightarrow> prio (tcb (set_prio t p s) u) = eff (set_prio t p s) u"
  shows "pri_changed s t p (set_prio t p s)"
proof -
  let ?s = "set_prio t p s"
  note f = prio_frame_set_prio [OF k, of t p]
  note mt = prio_frame_mtx [OF f]
  have "chain_ok ?s t"
    unfolding chain_ok_def
  proof (intro allI impI)
    fix v assume "(t, v) \<in> (waits_for ?s)\<^sup>+"
    then have tv: "(t, v) \<in> (waits_for s)\<^sup>+" by (simp add: mt)
    then obtain x where x: "(t, x) \<in> waits_for s" by (auto dest: tranclD)
    then have "v = x \<or> (x, v) \<in> (waits_for s)\<^sup>+" using tv trancl_first by blast
    then show "owns_ok ?s v \<and> prio (tcb ?s v) = eff ?s v"
    proof
      assume "v = x"
      with c x tv u [of x] show ?thesis by (auto simp: chain_ok_def mt)
    next
      assume "(x, v) \<in> (waits_for s)\<^sup>+"
      then show ?thesis using chain_ok_set_prio [OF k m c x, of p] by (simp add: chain_ok_def mt)
    qed
  qed
  moreover have "prio (tcb ?s v) = prio (tcb s v)" if "(t, v) \<notin> (waits_for s)\<^sup>*" for v
    using that by (auto simp: prio_set_prio [OF k])
  ultimately show ?thesis using kinv_set_prio [OF k t p] f by (simp add: pri_changed_def prio_set_prio [OF k])
qed

lemma task_pri_change_loop_ok:
  assumes "kinv s" and "mtx_struct s" and "chain_ok s t" and "live (tcb s t)" and "t \<noteq> idle_tid"
    and "p < RHINO_CONFIG_PRI_MAX" and "card ((waits_for s)\<^sup>* `` {t}) \<le> fuel"
  shows "\<exists>s'. task_pri_change_loop fuel t p s = (RHINO_SUCCESS, s') \<and> pri_changed s t p s'"
  using assms
proof (induction fuel arbitrary: t p s)
  case 0
  then have "(waits_for s)\<^sup>* `` {t} = {}" using finite_reach [OF 0(1,2), of t] by simp
  then show ?case by auto
next
  case (Suc fuel)
  note k = Suc.prems(1) and m = Suc.prems(2) and c = Suc.prems(3)
  let ?s = "set_prio t p s"
  note f = prio_frame_set_prio [OF k, of t p]
  note mt = prio_frame_mtx [OF f]
  note round = pri_change_round_eq [OF k m Suc.prems(4,5), of p]
  have same: "?s = s" if "prio (tcb s t) = p" using that by (simp add: set_prio_def)
  show ?case
  proof (cases "prio (tcb s t) = p \<or> owner_of s t = None")
    case True
    have "prio (tcb ?s u) = eff ?s u" if "(t, u) \<in> waits_for s" for u
      using True that c same by (auto simp: waits_for_def chain_ok_def)
    from pri_changed_end [OF k m c Suc.prems(5,6) this] True same show ?thesis
      by (auto simp: round Let_def)
  next
    case False
    then obtain u where u: "owner_of s t = Some u" and ne: "prio (tcb s t) \<noteq> p" by auto
    then have w: "(t, u) \<in> waits_for s" by (simp add: waits_for_def)
    then have ou: "owns_ok s u" "prio (tcb s u) = eff s u" using c by (auto simp: chain_ok_def)
    have "u \<noteq> t" using acyclic_waits [OF m, of t] w by auto
    then have pu: "prio (tcb ?s u) = eff s u" using ou by (simp add: prio_set_prio [OF k])
    define M where "M = Min (insert (b_prio (tcb s u)) ((\<lambda>v. prio (tcb s v)) ` (waiters s u - {t})))"
    have e: "eff s u = min (prio (tcb s t)) M" "eff ?s u = min p M"
      using eff_set_prio [OF k waits_waiter [OF kinvD(2) [OF k] ou(1) w]] by (simp_all add: M_def)
    have look: "Min (insert (b_prio (tcb ?s u)) (first_pris ?s (mutex_list (tcb ?s u)))) = eff ?s u"
      unfolding eff_def
      by (rule look_eff [OF kinv_set_prio [OF k Suc.prems(5,6)]])
        (use m ou(1) in \<open>auto simp: mt owns_ok_def prio_frame_task [OF f]\<close>)
    have go: "\<exists>s'. task_pri_change_loop fuel u (eff ?s u) ?s = (RHINO_SUCCESS, s') \<and> pri_changed s t p s'"
    proof -
      have lu: "live (tcb s u)" "u \<noteq> idle_tid" using waits_owner_live [OF m w] by auto
      have "\<exists>s'. task_pri_change_loop fuel u (eff ?s u) ?s = (RHINO_SUCCESS, s') \<and>
          pri_changed ?s u (eff ?s u) s'"
      proof (rule Suc.IH)
        show "kinv ?s" by (rule kinv_set_prio [OF k Suc.prems(5,6)])
        show "mtx_struct ?s" "live (tcb ?s u)" using m lu by (simp_all add: mt)
        show "chain_ok ?s u" by (rule chain_ok_set_prio [OF k m c w])
        show "u \<noteq> idle_tid" by (rule lu)
        have "b_prio (tcb ?s u) < RHINO_CONFIG_PRI_MAX"
          using kinv_b_prio [OF k lu(1)] by (simp add: prio_frame_task [OF f])
        then show "eff ?s u < RHINO_CONFIG_PRI_MAX" using eff_le_base [of ?s u] by simp
        show "card ((waits_for ?s)\<^sup>* `` {u}) \<le> fuel"
          using card_reach_step [OF k m w] Suc.prems(7) by (simp add: mt)
      qed
      then show ?thesis using pri_changed_step [OF k m c w refl] by blast
    qed
    have stop: "pri_changed s t p ?s" if "prio (tcb ?s u) = eff ?s u"
      using that waits_for_fun [OF w] by (intro pri_changed_end [OF k m c Suc.prems(5,6)]) auto
    consider "p < eff s u" | "eff s u \<le> p" "eff s u = prio (tcb s t)" | "eff s u \<le> p" "eff s u \<noteq> prio (tcb s t)"
      by linarith
    then show ?thesis
    proof cases
      case 1
      then have "eff ?s u = p" using e by (auto simp: min_def split: if_splits)
      with go 1 show ?thesis using ne u pu by (simp add: round Let_def)
    next
      case 2
      show ?thesis
      proof (cases "eff ?s u = prio (tcb ?s u)")
        case True
        with 2 stop show ?thesis using ne u pu look by (simp add: round Let_def)
      next
        case False
        with 2 go show ?thesis using ne u pu look by (simp add: round Let_def)
      qed
    next
      case 3
      then have "eff ?s u = eff s u" using e by (auto simp: min_def split: if_splits)
      with 3 stop show ?thesis using ne u pu by (simp add: round Let_def)
    qed
  qed
qed

lemma task_pri_change_ok:
  assumes "kinv s" and "mtx_struct s" and "chain_ok s t" and "live (tcb s t)" and "t \<noteq> idle_tid"
    and "p < RHINO_CONFIG_PRI_MAX"
  shows "\<exists>s'. task_pri_change t p s = (RHINO_SUCCESS, s') \<and> pri_changed s t p s'"
proof -
  have "(waits_for s)\<^sup>* `` {t} \<subseteq> set (g_tasks s)"
  proof
    fix u assume "u \<in> (waits_for s)\<^sup>* `` {t}"
    then have "u = t \<or> (\<exists>v. (v, u) \<in> waits_for s)" by (auto elim: rtranclE)
    then have "live (tcb s u)" using assms(4) waits_owner_live [OF assms(2)] by auto
    then show "u \<in> set (g_tasks s)" using kinvD(4) [OF assms(1)] by (simp add: inv_tasks_def)
  qed
  then have "card ((waits_for s)\<^sup>* `` {t}) \<le> card (set (g_tasks s))" by (rule card_mono [OF finite_set])
  also have "\<dots> \<le> Suc (length (g_tasks s))" using card_length [of "g_tasks s"] by simp
  finally show ?thesis unfolding task_pri_change_def by (rule task_pri_change_loop_ok [OF assms])
qed

end
