(* ===== verification/K_PiInv.thy ===== *)
theory K_PiInv
  imports K_Inheritance
begin

text \<open>
  The invariant of mutex ownership and priority inheritance, and the building blocks of
  the operations that keep it: releasing (\<open>mutex_release\<close>), a waiting task leaving
  (\<open>mutex_task_pri_reset\<close>), a task taking a mutex or starting to wait for it, and every
  block and wake-up that has nothing to do with a mutex.
\<close>

section \<open>The invariant\<close>

definition pi_ok :: "kstate \<Rightarrow> tid \<Rightarrow> bool" where
  "pi_ok s t \<longleftrightarrow> owns_ok s t \<and> prio (tcb s t) = eff s t"

definition pi_inv :: "kstate \<Rightarrow> bool" where
  "pi_inv s \<longleftrightarrow> mtx_struct s \<and> (\<forall>t. live (tcb s t) \<longrightarrow> pi_ok s t)"

definition pi_but :: "tid \<Rightarrow> kstate \<Rightarrow> bool" where
  "pi_but t s \<longleftrightarrow> mtx_struct s \<and> (\<forall>u. live (tcb s u) \<and> u \<noteq> t \<longrightarrow> pi_ok s u)"

definition kernel_inv :: "kstate \<Rightarrow> bool" where
  "kernel_inv s \<longleftrightarrow> kinv s \<and> pi_inv s"

lemma kernel_invD: "kernel_inv s \<Longrightarrow> kinv s" "kernel_inv s \<Longrightarrow> pi_inv s" "kernel_inv s \<Longrightarrow> mtx_struct s"
  by (auto simp: kernel_inv_def pi_inv_def)

lemma pi_inv_but: "pi_inv s \<longleftrightarrow> pi_but t s \<and> (live (tcb s t) \<longrightarrow> pi_ok s t)"
  by (auto simp: pi_inv_def pi_but_def)

definition owns_sub :: "kstate \<Rightarrow> tid \<Rightarrow> bool" where
  "owns_sub s t \<longleftrightarrow> (\<forall>m\<in>set (mutex_list (tcb s t)). is_mutex s m \<and> mutex_task (mutexes s m) = Some t)"

lemma owns_ok_sub: "owns_ok s t \<Longrightarrow> owns_sub s t"
  by (auto simp: owns_ok_def owns_sub_def)

lemma owns_sub_waits: "inv_blk s \<Longrightarrow> owns_sub s t \<Longrightarrow> u \<in> waiters s t \<Longrightarrow> (u, t) \<in> waits_for s"
  by (auto simp: waiters_def inv_blk_def owns_sub_def waits_for_def owner_of_def is_mutex_def)

lemma chain_live:
  assumes "mtx_struct s" and "(t, u) \<in> (waits_for s)\<^sup>+"
  shows "live (tcb s u)" "u \<noteq> t" "u \<noteq> idle_tid"
proof -
  from assms(2) obtain v where "(v, u) \<in> waits_for s" by (auto elim: tranclE)
  then show "live (tcb s u)" "u \<noteq> idle_tid" using waits_owner_live [OF assms(1)] by auto
  show "u \<noteq> t" using assms(2) acyclic_waits [OF assms(1)] by auto
qed

lemma pi_but_chain_ok: "pi_but t s \<Longrightarrow> chain_ok s t"
  unfolding chain_ok_def pi_but_def pi_ok_def using chain_live by blast

section \<open>Changing the priority of one task\<close>

text \<open>
  If every other task satisfies the invariant, it still does after the change, and the
  change does not move the effective priority of the task itself.
\<close>

lemma pri_changed_restores:
  assumes k: "kinv s" and b: "pi_but t s" and o: "owns_sub s t" and c: "pri_changed s t p s'"
  shows "pi_but t s'" "eff s' t = eff s t"
proof -
  have m: "mtx_struct s" using b by (simp add: pi_but_def)
  have f: "prio_frame s s'" using c by (simp add: pri_changed_def)
  note mt = prio_frame_mtx [OF f]
  have off: "prio (tcb s' v) = prio (tcb s v)" if "(t, v) \<notin> (waits_for s)\<^sup>*" for v
    using c that by (simp add: pri_changed_def)
  show "eff s' t = eff s t"
  proof (rule prio_frame_eff [OF f])
    fix v assume "v \<in> waiters s t"
    then have "(v, t) \<in> waits_for s" by (rule owns_sub_waits [OF kinvD(2) [OF k] o])
    from rtrancl_into_trancl1 [OF _ this] have "(t, v) \<notin> (waits_for s)\<^sup>*"
      using acyclic_waits [OF m, of t] by blast
    then show "prio (tcb s' v) = prio (tcb s v)" by (rule off)
  qed
  have "pi_ok s' u" if u: "live (tcb s' u)" "u \<noteq> t" for u
  proof (cases "(t, u) \<in> (waits_for s)\<^sup>+")
    case True
    with c show ?thesis by (simp add: pri_changed_def chain_ok_def pi_ok_def mt)
  next
    case False
    then have nr: "(t, u) \<notin> (waits_for s)\<^sup>*" using u(2) by (auto simp: rtrancl_eq_or_trancl)
    have ok: "owns_ok s u" "prio (tcb s u) = eff s u" using b u by (auto simp: pi_but_def pi_ok_def mt)
    have "eff s' u = eff s u"
    proof (rule prio_frame_eff [OF f])
      fix v assume "v \<in> waiters s u"
      then have "(v, u) \<in> waits_for s" by (rule waiter_waits [OF kinvD(2) [OF k] ok(1)])
      from rtrancl_into_trancl1 [OF _ this] have "(t, v) \<notin> (waits_for s)\<^sup>*" using False by blast
      then show "prio (tcb s' v) = prio (tcb s v)" by (rule off)
    qed
    with ok off [OF nr] show ?thesis by (simp add: pi_ok_def mt)
  qed
  with m show "pi_but t s'" by (simp add: pi_but_def mt)
qed

lemma task_pri_change_restores:
  assumes k: "kinv s" and b: "pi_but t s" and o: "owns_sub s t" and t: "live (tcb s t)" "t \<noteq> idle_tid"
    and p: "p < RHINO_CONFIG_PRI_MAX"
  obtains s' where "task_pri_change t p s = (RHINO_SUCCESS, s')" "kinv s'" "prio_frame s s'"
    "pi_but t s'" "prio (tcb s' t) = p" "eff s' t = eff s t" "pri_changed s t p s'"
proof -
  have "mtx_struct s" using b by (simp add: pi_but_def)
  from task_pri_change_ok [OF k this pi_but_chain_ok [OF b] t p]
  obtain s' where s': "task_pri_change t p s = (RHINO_SUCCESS, s')" "pri_changed s t p s'" by blast
  with pri_changed_restores [OF k b o s'(2)] show thesis
    by (intro that) (auto simp: pri_changed_def)
qed

section \<open>Releasing\<close>

definition drop_mutex :: "tid \<Rightarrow> oid option \<Rightarrow> kstate \<Rightarrow> kstate" where
  "drop_mutex t rel s = upd_task t (\<lambda>k. k\<lparr>mutex_list := filter (\<lambda>m. rel \<noteq> Some m) (mutex_list k)\<rparr>) s"

lemma drop_mutex_sel [simp]:
  "mutex_list (tcb (drop_mutex t rel s) u) =
     (if u = t then filter (\<lambda>m. rel \<noteq> Some m) (mutex_list (tcb s t)) else mutex_list (tcb s u))"
  "prio (tcb (drop_mutex t rel s) u) = prio (tcb s u)" "b_prio (tcb (drop_mutex t rel s) u) = b_prio (tcb s u)"
  "task_state (tcb (drop_mutex t rel s) u) = task_state (tcb s u)"
  "blk_obj (tcb (drop_mutex t rel s) u) = blk_obj (tcb s u)"
  "blk_objs (drop_mutex t rel s) = blk_objs s" "mutexes (drop_mutex t rel s) = mutexes s"
  "g_active_task (drop_mutex t rel s) = g_active_task s"
  by (simp_all add: drop_mutex_def upd_task_def)

lemma drop_mutex_mtx [simp]:
  "is_mutex (drop_mutex t rel s) m = is_mutex s m" "waits_for (drop_mutex t rel s) = waits_for s"
  "live (tcb (drop_mutex t rel s) u) = live (tcb s u)" "pended (tcb (drop_mutex t rel s) u) = pended (tcb s u)"
  "mtx_struct (drop_mutex t rel s) = mtx_struct s"
proof -
  show "is_mutex (drop_mutex t rel s) m = is_mutex s m" for m by (simp add: is_mutex_def)
  show w: "waits_for (drop_mutex t rel s) = waits_for s"
    by (simp add: waits_for_def owner_of_def pended_def cong: if_cong option.case_cong)
  show "live (tcb (drop_mutex t rel s) u) = live (tcb s u)" for u by (simp add: live_def)
  show "pended (tcb (drop_mutex t rel s) u) = pended (tcb s u)" by (simp add: pended_def)
  show "mtx_struct (drop_mutex t rel s) = mtx_struct s"
    by (simp add: mtx_struct_def w is_mutex_def live_def)
qed

lemma waiters_drop_mutex: "u \<noteq> t \<Longrightarrow> waiters (drop_mutex t rel s) u = waiters s u"
  by (simp add: waiters_def)

lemma eff_drop_mutex: "u \<noteq> t \<Longrightarrow> eff (drop_mutex t rel s) u = eff s u"
  by (simp add: eff_def waiters_drop_mutex)

lemma pi_but_drop_mutex: "pi_but t s \<Longrightarrow> pi_but t (drop_mutex t rel s)"
  by (simp add: pi_but_def pi_ok_def eff_drop_mutex owns_ok_def)

lemma kinv_drop_mutex:
  assumes "kinv s" and "t \<noteq> idle_tid"
  shows "kinv (drop_mutex t rel s)"
proof -
  note i = kinvD [OF assms(1)]
  let ?s = "drop_mutex t rel s"
  show ?thesis
  proof (rule kinvI)
    show "inv_ready ?s" by (rule inv_ready_cong [OF _ _ _ i(1)]) (auto simp: drop_mutex_def upd_task_def)
    show "inv_blk ?s" by (rule inv_blk_cong [OF _ _ _ _ i(2)]) auto
    show "inv_tick ?s"
      by (rule inv_tick_cong [OF _ _ _ _ _ i(3)]) (auto simp: drop_mutex_def upd_task_def kstates)
    show "inv_tasks ?s" by (rule inv_tasks_cong [OF _ _ _ _ _ i(4)])
        (use i(4) in \<open>auto simp: drop_mutex_def upd_task_def kstates inv_tasks_def\<close>)
    show "inv_idle ?s" using i(5) assms(2) by (simp add: inv_idle_def)
    show "no_fault ?s" using i(6) by (simp add: no_fault_def drop_mutex_def upd_task_def)
  qed
qed

text \<open>After \<open>mutex_release\<close> the task has the priority its remaining mutexes give it.\<close>

lemma mutex_release_eq:
  assumes k: "kinv s" and b: "pi_but t s" and o: "owns_sub (drop_mutex t rel s) t" and t: "t \<noteq> idle_tid"
  defines "d \<equiv> drop_mutex t rel s"
  shows "mutex_release t rel s = (if eff d t \<noteq> prio (tcb d t) then snd (task_pri_change t (eff d t) d) else d)"
proof -
  have kd: "kinv d" unfolding d_def by (rule kinv_drop_mutex [OF k t])
  have md: "mtx_struct d" using pi_but_drop_mutex [OF b] by (simp add: pi_but_def d_def)
  have "first_pris d ms = first_pris s ms" for ms by (simp add: first_pris_def d_def)
  moreover have "upd_task t (\<lambda>k. k\<lparr>mutex_list := filter (\<lambda>m. rel \<noteq> Some m) (mutex_list (tcb s t))\<rparr>) s = d"
    by (simp add: d_def drop_mutex_def upd_task_def)
  ultimately have "mutex_pri_look t rel s =
      (Min (insert (b_prio (tcb d t)) (first_pris d (mutex_list (tcb d t)))), d)"
    by (simp add: mutex_pri_look_eq Let_def d_def)
  also have "Min (insert (b_prio (tcb d t)) (first_pris d (mutex_list (tcb d t)))) = eff d t"
    unfolding eff_def by (rule look_eff [OF kd md]) (use o in \<open>auto simp: owns_sub_def d_def\<close>)
  finally show ?thesis by (simp add: mutex_release_def)
qed

lemma mutex_release_ok:
  assumes k: "kinv s" and b: "pi_but t s" and o: "owns_sub (drop_mutex t rel s) t"
    and t: "live (tcb s t)" "t \<noteq> idle_tid"
  shows "kinv (mutex_release t rel s)" "prio_frame (drop_mutex t rel s) (mutex_release t rel s)"
    "pi_but t (mutex_release t rel s)" "prio (tcb (mutex_release t rel s) t) = eff (mutex_release t rel s) t"
proof -
  let ?d = "drop_mutex t rel s"
  have kd: "kinv ?d" by (rule kinv_drop_mutex [OF k t(2)])
  have bd: "pi_but t ?d" by (rule pi_but_drop_mutex [OF b])
  have "eff ?d t < RHINO_CONFIG_PRI_MAX"
    using eff_le_base [of ?d t] kinv_b_prio [OF kd, of t] t(1) by simp
  moreover have "live (tcb ?d t)" using t(1) by simp
  ultimately obtain s' where s': "task_pri_change t (eff ?d t) ?d = (RHINO_SUCCESS, s')" "kinv s'" "prio_frame ?d s'"
    "pi_but t s'" "prio (tcb s' t) = eff ?d t" "eff s' t = eff ?d t"
    using task_pri_change_restores [OF kd bd o _ t(2)] by blast
  show "kinv (mutex_release t rel s)" "prio_frame ?d (mutex_release t rel s)"
    "pi_but t (mutex_release t rel s)" "prio (tcb (mutex_release t rel s) t) = eff (mutex_release t rel s) t"
    using s' kd bd by (auto simp: mutex_release_eq [OF k b o t(2)])
qed

section \<open>Operations that do not touch the mutexes\<close>

lemma waits_for_iff:
  "inv_blk s \<Longrightarrow> (u, t) \<in> waits_for s \<longleftrightarrow>
     (\<exists>m. is_mutex s m \<and> u \<in> set (blk_list (blk_objs s m)) \<and> mutex_task (mutexes s m) = Some t)"
  by (auto simp: waits_for_def owner_of_def is_mutex_def inv_blk_def split: if_splits option.splits)

lemma waiters_live: "kinv s \<Longrightarrow> u \<in> waiters s t \<Longrightarrow> live (tcb s u)"
  using kinv_first_pended pended_live by (fastforce simp: waiters_def)

lemma pi_inv_cong:
  assumes k: "kinv s" and b': "inv_blk s'"
    and l: "\<And>u. live (tcb s u) \<Longrightarrow> live (tcb s' u)"
    and new: "\<And>u. live (tcb s' u) \<Longrightarrow> \<not> live (tcb s u) \<Longrightarrow>
      mutex_list (tcb s' u) = [] \<and> prio (tcb s' u) = b_prio (tcb s' u)"
    and old: "\<And>u. live (tcb s u) \<Longrightarrow> prio (tcb s' u) = prio (tcb s u) \<and>
      b_prio (tcb s' u) = b_prio (tcb s u) \<and> mutex_list (tcb s' u) = mutex_list (tcb s u)"
    and mu: "\<And>m. is_mutex s' m = is_mutex s m"
    and mt: "\<And>m. is_mutex s m \<Longrightarrow> mutex_task (mutexes s' m) = mutex_task (mutexes s m) \<and>
      set (blk_list (blk_objs s' m)) = set (blk_list (blk_objs s m)) \<and>
      blk_policy (blk_objs s' m) = blk_policy (blk_objs s m)"
    and p: "pi_inv s"
  shows "pi_inv s'"
proof -
  note b = kinvD(2) [OF k]
  have m: "mtx_struct s" using p by (simp add: pi_inv_def)
  have "(u, t) \<in> waits_for s' \<longleftrightarrow> (u, t) \<in> waits_for s" for u t
    unfolding waits_for_iff [OF b] waits_for_iff [OF b'] mu using mt by metis
  then have w: "waits_for s' = waits_for s" by auto
  have "mtx_struct s'"
    using m mt l by (auto simp: mtx_struct_def w mu) (metis empty_set set_empty)+
  moreover have "pi_ok s' u" if u: "live (tcb s' u)" for u
  proof (cases "live (tcb s u)")
    case True
    then have ok: "owns_ok s u" "prio (tcb s u) = eff s u" using p by (auto simp: pi_inv_def pi_ok_def)
    then have "owns_ok s' u" using old [OF True] mt by (auto simp: owns_ok_def mu)
    moreover have ws: "waiters s' u = waiters s u"
      using old [OF True] ok(1) mt by (auto simp: waiters_def owns_ok_def)
    have "(\<lambda>v. prio (tcb s' v)) ` waiters s' u = (\<lambda>v. prio (tcb s v)) ` waiters s u"
      unfolding ws using old waiters_live [OF k] by (intro image_cong) auto
    ultimately show ?thesis using ok(2) old [OF True] by (simp add: pi_ok_def eff_def)
  next
    case False
    with new u have n: "mutex_list (tcb s' u) = []" "prio (tcb s' u) = b_prio (tcb s' u)" by auto
    have "owns_ok s' u" using m False mt by (auto simp: owns_ok_def n mtx_struct_def mu)
    with n show ?thesis by (simp add: pi_ok_def eff_def waiters_def)
  qed
  ultimately show ?thesis by (simp add: pi_inv_def)
qed

text \<open>The same, where no task comes into existence.\<close>

lemma pi_inv_cong_same:
  assumes "kinv s" and "inv_blk s'" and "\<And>u. live (tcb s' u) = live (tcb s u)"
    and "\<And>u. prio (tcb s' u) = prio (tcb s u) \<and> b_prio (tcb s' u) = b_prio (tcb s u) \<and>
      mutex_list (tcb s' u) = mutex_list (tcb s u)"
    and "\<And>m. is_mutex s' m = is_mutex s m"
    and "\<And>m. is_mutex s m \<Longrightarrow> mutex_task (mutexes s' m) = mutex_task (mutexes s m) \<and>
      set (blk_list (blk_objs s' m)) = set (blk_list (blk_objs s m)) \<and>
      blk_policy (blk_objs s' m) = blk_policy (blk_objs s m)"
    and "pi_inv s"
  shows "pi_inv s'"
  by (rule pi_inv_cong [OF assms(1,2) _ _ _ assms(5,6,7)]) (use assms(3,4) in auto)

section \<open>A waiting task leaves\<close>

definition left_blk :: "tid \<Rightarrow> kstate \<Rightarrow> kstate \<Rightarrow> bool" where
  "left_blk t s s1 \<longleftrightarrow> mutexes s1 = mutexes s \<and>
     (\<forall>ob. obj_type (blk_objs s1 ob) = obj_type (blk_objs s ob) \<and>
        blk_policy (blk_objs s1 ob) = blk_policy (blk_objs s ob) \<and>
        set (blk_list (blk_objs s1 ob)) = set (blk_list (blk_objs s ob)) - {t}) \<and>
     (\<forall>u. prio (tcb s1 u) = prio (tcb s u) \<and> b_prio (tcb s1 u) = b_prio (tcb s u) \<and>
        mutex_list (tcb s1 u) = mutex_list (tcb s u)) \<and>
     (\<forall>u. u \<noteq> t \<longrightarrow> live (tcb s1 u) = live (tcb s u)) \<and> blk_obj (tcb s1 t) = blk_obj (tcb s t)"

lemma left_blk_mtx:
  assumes "left_blk t s s1"
  shows "is_mutex s1 m = is_mutex s m" "owns_ok s1 u = owns_ok s u" "waiters s1 u = waiters s u - {t}"
proof -
  show mu: "is_mutex s1 m = is_mutex s m" for m using assms by (simp add: is_mutex_def left_blk_def)
  show "owns_ok s1 u = owns_ok s u" using assms mu by (simp add: owns_ok_def left_blk_def)
  show "waiters s1 u = waiters s u - {t}" using assms by (auto simp: waiters_def left_blk_def)
qed

lemma left_blk_waits:
  assumes "left_blk t s s1" and "inv_blk s" and "inv_blk s1"
  shows "waits_for s1 = waits_for s - {t} \<times> UNIV"
  using assms(1) by (auto simp: waits_for_iff [OF assms(2)] waits_for_iff [OF assms(3)]
      left_blk_mtx [OF assms(1)] left_blk_def)

lemma left_blk_eff: "left_blk t s s1 \<Longrightarrow> t \<notin> waiters s u \<Longrightarrow> eff s1 u = eff s u"
  using left_blk_mtx(3) [of t s s1 u] by (simp add: eff_def left_blk_def)

lemma left_blk_struct:
  assumes l: "left_blk t s s1" and k: "inv_blk s" "inv_blk s1" and m: "mtx_struct s"
    and no: "live (tcb s1 t) \<or> (\<forall>m. is_mutex s m \<longrightarrow> mutex_task (mutexes s m) \<noteq> Some t)"
  shows "mtx_struct s1"
proof -
  have "acyclic (waits_for s1)"
    using m by (auto simp: mtx_struct_def left_blk_waits [OF l k] intro: acyclic_subset)
  moreover have "blk_list (blk_objs s1 ob) \<noteq> [] \<Longrightarrow> blk_list (blk_objs s ob) \<noteq> []" for ob
    using l by (metis Diff_empty Diff_insert_absorb empty_Diff left_blk_def set_empty)
  moreover have "live (tcb s1 u)" if "is_mutex s m" "mutex_task (mutexes s m) = Some u" for m u
    using that no l m by (cases "u = t") (auto simp: left_blk_def mtx_struct_def)
  ultimately show ?thesis
    using m l by (auto simp: mtx_struct_def left_blk_mtx [OF l] left_blk_def)
qed

lemma pri_reset_ok:
  assumes k: "kinv s" and k1: "kinv s1" and p: "pended (tcb s t)" and b: "pi_but t s"
    and l: "left_blk t s s1"
    and t: "live (tcb s1 t) \<Longrightarrow> pi_ok s t"
    and no: "\<not> live (tcb s1 t) \<Longrightarrow> \<forall>m. is_mutex s m \<longrightarrow> mutex_task (mutexes s m) \<noteq> Some t"
  shows "kinv (mutex_task_pri_reset t s1)" "pi_inv (mutex_task_pri_reset t s1)"
    "prio_frame s1 (mutex_task_pri_reset t s1)"
proof -
  note ib = kinvD(2) [OF k] kinvD(2) [OF k1]
  have m: "mtx_struct s" using b by (simp add: pi_but_def)
  have m1: "mtx_struct s1" by (rule left_blk_struct [OF l ib m]) (use no in blast)
  obtain ob where ob: "blk_obj (tcb s t) = Some ob" using kinv_blk_obj [OF k p] by blast
  have ob1: "blk_obj (tcb s1 t) = Some ob" using ob l by (simp add: left_blk_def)
  have tl: "t \<in> set (blk_list (blk_objs s ob))" using ib(1) p ob by (simp add: inv_blk_def)
  have ok: "pi_ok s u" if "live (tcb s1 u)" for u
    using that b t l by (cases "u = t") (auto simp: pi_but_def left_blk_def)
  have keep: "pi_ok s1 u" if "live (tcb s1 u)" "owner_of s t \<noteq> Some u" for u
  proof -
    have "t \<notin> waiters s u"
      using waiter_waits [OF ib(1), of u t] ok [OF that(1)] that(2) by (auto simp: pi_ok_def waits_for_def)
    then show ?thesis using ok [OF that(1)] left_blk_eff [OF l] l
      by (simp add: pi_ok_def left_blk_mtx [OF l] left_blk_def)
  qed
  have "kinv (mutex_task_pri_reset t s1) \<and> pi_inv (mutex_task_pri_reset t s1) \<and>
    prio_frame s1 (mutex_task_pri_reset t s1)"
  proof (cases "owner_of s t")
    case None
    have "\<not> is_mutex s ob"
      using None p ob m tl by (auto simp: owner_of_def is_mutex_def mtx_struct_def)
    then have "mutex_task_pri_reset t s1 = s1"
      using ob1 left_blk_mtx(1) [OF l, of ob] by (simp add: mutex_task_pri_reset_def is_mutex_def)
    with None keep m1 k1 show ?thesis by (simp add: pi_inv_def)
  next
    case (Some w)
    then have mo: "is_mutex s ob" "mutex_task (mutexes s ob) = Some w"
      using p ob by (auto simp: owner_of_def is_mutex_def split: if_splits)
    have tw: "(t, w) \<in> waits_for s" using Some by (simp add: waits_for_def)
    have w: "w \<noteq> t" "live (tcb s w)" "w \<noteq> idle_tid"
      using acyclic_waits [OF m, of t] tw waits_owner_live [OF m tw] by auto
    have lw: "live (tcb s1 w)" using w l by (simp add: left_blk_def)
    have b1: "pi_but w s1" using keep Some m1 by (simp add: pi_but_def)
    have ow: "owns_ok s1 w" using ok [OF lw] by (simp add: pi_ok_def left_blk_mtx [OF l])
    have reset: "mutex_task_pri_reset t s1 =
        (if prio (tcb s w) = prio (tcb s t) then mutex_release w None s1 else s1)"
    proof -
      have "obj_type (blk_objs s1 ob) = RHINO_MUTEX_OBJ_TYPE" "mutex_task (mutexes s1 ob) = Some w"
        "prio (tcb s1 w) = prio (tcb s w)" "prio (tcb s1 t) = prio (tcb s t)"
        using mo l by (simp_all add: is_mutex_def left_blk_def)
      with ob1 show ?thesis by (simp add: mutex_task_pri_reset_def)
    qed
    have d: "drop_mutex w None s1 = s1" by (simp add: drop_mutex_def upd_task_def)
    show ?thesis
    proof (cases "prio (tcb s w) = prio (tcb s t)")
      case True
      note r = mutex_release_ok [OF k1 b1, of None, unfolded d, OF owns_ok_sub [OF ow] lw w(3)]
      have "pi_ok (mutex_release w None s1) w"
        using r(4) ow by (simp add: pi_ok_def prio_frame_mtx [OF r(2)])
      with r True show ?thesis by (simp add: reset pi_inv_but [of _ w])
    next
      case False
      have "t \<in> waiters s w" by (rule waits_waiter [OF ib(1) _ tw]) (use ok [OF lw] in \<open>simp add: pi_ok_def\<close>)
      then have W: "waiters s w = insert t (waiters s1 w)" using left_blk_mtx(3) [OF l, of w] by auto
      have "prio (tcb s w) = min (prio (tcb s t)) (eff s1 w)"
      proof -
        have "insert (b_prio (tcb s w)) ((\<lambda>u. prio (tcb s u)) ` waiters s w) =
            insert (prio (tcb s t)) (insert (b_prio (tcb s1 w)) ((\<lambda>u. prio (tcb s1 u)) ` waiters s1 w))"
          unfolding W using l by (auto simp: left_blk_def)
        then have "eff s w = min (prio (tcb s t)) (eff s1 w)" by (simp add: eff_def)
        then show ?thesis using ok [OF lw] by (simp add: pi_ok_def)
      qed
      with False have "prio (tcb s1 w) = eff s1 w" using l by (auto simp: left_blk_def min_def split: if_splits)
      with ow b1 k1 False show ?thesis by (simp add: reset pi_inv_but [of _ w] pi_ok_def)
    qed
  qed
  then show "kinv (mutex_task_pri_reset t s1)" "pi_inv (mutex_task_pri_reset t s1)"
    "prio_frame s1 (mutex_task_pri_reset t s1)"
    by auto
qed

lemma left_blk_unlink:
  assumes "kinv s" and "pended (tcb s t)"
  shows "left_blk t s (unlink b t s)"
  using kinvD(2) [OF assms(1)] assms(2)
  by (auto simp: left_blk_def unlink_def inv_blk_def kstates)

lemma unlink_reset_ok:
  assumes k: "kernel_inv s" and p: "pended (tcb s t)"
  shows "kinv (mutex_task_pri_reset t (unlink b t s))" "pi_inv (mutex_task_pri_reset t (unlink b t s))"
    "prio_frame (unlink b t s) (mutex_task_pri_reset t (unlink b t s))"
proof -
  note i = kernel_invD [OF k]
  have l: "live (tcb (unlink b t s) t)" using p by (auto simp: unlink_def kstates)
  have bu: "pi_but t s" using i(2) by (auto simp: pi_inv_but [of _ t])
  have pi: "pi_ok s t" using i(2) pended_live [OF p] by (simp add: pi_inv_def)
  note r = pri_reset_ok [OF i(1) kinv_unlink [OF i(1) p] p bu left_blk_unlink [OF i(1) p]]
  show "kinv (mutex_task_pri_reset t (unlink b t s))" "pi_inv (mutex_task_pri_reset t (unlink b t s))"
    "prio_frame (unlink b t s) (mutex_task_pri_reset t (unlink b t s))"
    using r l pi by auto
qed

end
