(* ===== verification/K_Own.thy ===== *)
theory K_Own
  imports K_PiInv
begin

text \<open>
  A mutex changes hands: it is taken by a task (\<open>take_mutex\<close>), handed to its first waiter
  (\<open>hand_over\<close>), freed, or waited for by one more task. Each of them keeps the waiting
  relation acyclic and every priority equal to the effective one. These are the steps of
  \<open>krhino_mutex_lock\<close>, \<open>krhino_mutex_unlock\<close>, \<open>krhino_mutex_del\<close> and \<open>task_mutex_free\<close>.
\<close>

section \<open>Changing owner and list of owned mutexes\<close>

definition set_owner :: "oid \<Rightarrow> tid option \<Rightarrow> u32 \<Rightarrow> kstate \<Rightarrow> kstate" where
  "set_owner m t n s = s\<lparr>mutexes := (mutexes s)(m := (mutexes s m)\<lparr>mutex_task := t, owner_nested := n\<rparr>)\<rparr>"

definition push_mutex :: "oid \<Rightarrow> tid \<Rightarrow> kstate \<Rightarrow> kstate" where
  "push_mutex m t s = upd_task t (\<lambda>k. k\<lparr>mutex_list := m # mutex_list k\<rparr>) s"

definition take_mutex :: "oid \<Rightarrow> tid \<Rightarrow> u32 \<Rightarrow> kstate \<Rightarrow> kstate" where
  "take_mutex m t n s = push_mutex m t (set_owner m (Some t) n s)"

definition hand_over :: "oid \<Rightarrow> tid \<Rightarrow> u32 \<Rightarrow> kstate \<Rightarrow> kstate" where
  "hand_over m w n s = take_mutex m w n (unpend BLK_FINISH w s)"

lemma take_mutex_sel [simp]:
  "blk_objs (take_mutex m t n s) = blk_objs s"
  "g_active_task (take_mutex m t n s) = g_active_task s"
  "g_ready_queue (take_mutex m t n s) = g_ready_queue s"
  "prio (tcb (take_mutex m t n s) u) = prio (tcb s u)"
  "b_prio (tcb (take_mutex m t n s) u) = b_prio (tcb s u)"
  "task_state (tcb (take_mutex m t n s) u) = task_state (tcb s u)"
  "blk_obj (tcb (take_mutex m t n s) u) = blk_obj (tcb s u)"
  "mutex_list (tcb (take_mutex m t n s) u) =
     (if u = t then m # mutex_list (tcb s t) else mutex_list (tcb s u))"
  "mutex_task (mutexes (take_mutex m t n s) m') = (if m' = m then Some t else mutex_task (mutexes s m'))"
  "is_mutex (take_mutex m t n s) m' = is_mutex s m'"
  "pended (tcb (take_mutex m t n s) u) = pended (tcb s u)"
  "live (tcb (take_mutex m t n s) u) = live (tcb s u)"
  by (simp_all add: take_mutex_def push_mutex_def set_owner_def upd_task_def is_mutex_def kstates)

lemma unpend_sel [simp]:
  "mutexes (unpend b w s) = mutexes s"
  "obj_type (blk_objs (unpend b w s) ob) = obj_type (blk_objs s ob)"
  "blk_policy (blk_objs (unpend b w s) ob) = blk_policy (blk_objs s ob)"
  "prio (tcb (unpend b w s) u) = prio (tcb s u)"
  "b_prio (tcb (unpend b w s) u) = b_prio (tcb s u)"
  "mutex_list (tcb (unpend b w s) u) = mutex_list (tcb s u)"
  "g_active_task (unpend b w s) = g_active_task s"
  "is_mutex (unpend b w s) m = is_mutex s m"
  by (simp_all add: unpend_defs is_mutex_def)

lemma unpend_live [simp]: "live (tcb s w) \<Longrightarrow> live (tcb (unpend b w s) u) = live (tcb s u)"
  by (simp add: unpend_defs kstates)

lemma kinv_set_mutex_list:
  assumes "kinv s" and "t \<noteq> idle_tid"
  shows "kinv (upd_task t (\<lambda>k. k\<lparr>mutex_list := f k\<rparr>) s)"
proof -
  note i = kinvD [OF assms(1)]
  let ?s = "upd_task t (\<lambda>k. k\<lparr>mutex_list := f k\<rparr>) s"
  show ?thesis
  proof (rule kinvI)
    show "inv_ready ?s" by (rule inv_ready_cong [OF _ _ _ i(1)]) (auto simp: upd_task_def)
    show "inv_blk ?s" by (rule inv_blk_cong [OF _ _ _ _ i(2)]) (auto simp: upd_task_def kstates)
    show "inv_tick ?s" by (rule inv_tick_cong [OF _ _ _ _ _ i(3)]) (auto simp: upd_task_def kstates)
    show "inv_tasks ?s" by (rule inv_tasks_cong [OF _ _ _ _ _ i(4)])
        (use i(4) in \<open>auto simp: upd_task_def kstates inv_tasks_def\<close>)
    show "inv_idle ?s" using i(5) assms(2) by (simp add: inv_idle_def upd_task_def)
    show "no_fault ?s" using i(6) by (simp add: no_fault_def upd_task_def)
  qed
qed

lemma kinv_set_owner: "kinv s \<Longrightarrow> kinv (set_owner m t n s)"
  by (rule kinv_cong [of _ s]) (auto simp: set_owner_def)

lemma kinv_take_mutex: "kinv s \<Longrightarrow> t \<noteq> idle_tid \<Longrightarrow> kinv (take_mutex m t n s)"
  unfolding take_mutex_def push_mutex_def by (intro kinv_set_mutex_list kinv_set_owner)

lemma kinv_hand_over: "kinv s \<Longrightarrow> pended (tcb s w) \<Longrightarrow> kinv (hand_over m w n s)"
  unfolding hand_over_def
  by (intro kinv_take_mutex kinv_unpend kinv_not_idle [of s]) (auto simp: pended_def)

section \<open>The waiting relation\<close>

text \<open>New edges into a task that waits for nobody close no cycle.\<close>

lemma acyclic_into_sink:
  assumes "acyclic R" and sub: "\<And>x y. (x, y) \<in> R' \<Longrightarrow> (x, y) \<in> R \<or> y = w"
    and sink: "\<And>y. (w, y) \<notin> R'"
  shows "acyclic R'"
proof -
  have path: "(x, y) \<in> R'\<^sup>+ \<Longrightarrow> y \<noteq> w \<Longrightarrow> (x, y) \<in> R\<^sup>+" for x y
  proof (induction rule: trancl_induct)
    case (base y) then show ?case using sub by blast
  next
    case (step y z)
    then have "y \<noteq> w" using sink by blast
    with step sub [of y z] show ?case by (auto intro: trancl_into_trancl)
  qed
  have "(x, x) \<notin> R'\<^sup>+" for x
  proof
    assume c: "(x, x) \<in> R'\<^sup>+"
    then obtain y where "(x, y) \<in> R'" by (auto dest: tranclD)
    with sink have "x \<noteq> w" by auto
    with path [OF c] assms(1) show False by (auto simp: acyclic_def)
  qed
  then show ?thesis by (simp add: acyclic_def)
qed

section \<open>Handing a mutex to its first waiter\<close>

lemma waiters_hand_over:
  assumes k: "kinv s" and bl: "blk_list (blk_objs s m) = w # ws" and nm: "m \<notin> set (mutex_list (tcb s u))"
  shows "waiters (hand_over m w n s) u = waiters s u \<union> (if u = w then set ws else {})"
proof -
  have d: "w \<notin> set ws" using kinvD(2) [OF k] bl by (auto simp: inv_blk_def dest: spec [of _ m])
  have only: "w \<notin> set (blk_list (blk_objs s m'))" if "m' \<noteq> m" for m'
    using kinv_first_pended [OF k, of w m'] kinv_first_pended [OF k, of w m] bl that by auto
  have "(\<Union>m'\<in>set (mutex_list (tcb s u)). set (remove1 w (blk_list (blk_objs s m')))) =
      (\<Union>m'\<in>set (mutex_list (tcb s u)). set (blk_list (blk_objs s m')))"
    using nm only by (intro SUP_cong refl) (metis remove1_idem)
  then show ?thesis using bl d by (auto simp: waiters_def hand_over_def)
qed

lemma eff_hand_over:
  assumes k: "kinv s" and bl: "blk_list (blk_objs s m) = w # ws" and nm: "m \<notin> set (mutex_list (tcb s u))"
    and "u \<noteq> w"
  shows "eff (hand_over m w n s) u = eff s u"
  using waiters_hand_over [OF assms(1-3), of n] assms(4) by (simp add: eff_def hand_over_def)

lemma eff_hand_over_new:
  assumes k: "kinv s" and bl: "blk_list (blk_objs s m) = w # ws" and nm: "m \<notin> set (mutex_list (tcb s w))"
    and pol: "blk_policy (blk_objs s m) = BLK_POLICY_PRI" and e: "prio (tcb s w) = eff s w"
  shows "eff (hand_over m w n s) w = prio (tcb s w)"
proof -
  let ?P = "\<lambda>u. prio (tcb s u)"
  have so: "\<forall>u\<in>set ws. ?P w \<le> ?P u"
    using kinvD(2) [OF k] pol bl by (auto simp: inv_blk_def dest: spec [of _ m])
  have "eff (hand_over m w n s) w = Min (insert (b_prio (tcb s w)) (?P ` waiters s w) \<union> ?P ` set ws)"
    using waiters_hand_over [OF k bl nm, of n] by (simp add: eff_def hand_over_def image_Un)
  also have "\<dots> = ?P w"
  proof (cases "ws = []")
    case True then show ?thesis using e by (simp add: eff_def)
  next
    case False
    then have "Min (insert (b_prio (tcb s w)) (?P ` waiters s w) \<union> ?P ` set ws) =
        min (eff s w) (Min (?P ` set ws))"
      by (subst Min_Un) (auto simp: eff_def waiters_def)
    with False so e show ?thesis by (simp add: min_def)
  qed
  finally show ?thesis .
qed

lemma waits_hand_over:
  assumes k: "kinv s" and bl: "blk_list (blk_objs s m) = w # ws"
  shows "(x, y) \<in> waits_for (hand_over m w n s) \<Longrightarrow> (x, y) \<in> waits_for s \<or> y = w"
    "(w, y) \<notin> waits_for (hand_over m w n s)"
proof -
  have p: "pended (tcb s w)" using kinv_first_pended [OF k, of w m] bl by auto
  note b' = kinvD(2) [OF kinv_hand_over [OF k p, of m n]] and b = kinvD(2) [OF k]
  have d: "distinct (blk_list (blk_objs s ob))" for ob using b by (simp add: inv_blk_def)
  show "(x, y) \<in> waits_for (hand_over m w n s) \<Longrightarrow> (x, y) \<in> waits_for s \<or> y = w"
    unfolding waits_for_iff [OF b] waits_for_iff [OF b']
    by (auto simp: hand_over_def d split: if_splits dest: notin_set_remove1)
  show "(w, y) \<notin> waits_for (hand_over m w n s)"
    unfolding waits_for_iff [OF b'] by (auto simp: hand_over_def d)
qed

lemma hand_over_ok:
  assumes k: "kinv s" and pb: "pi_but t s" and m: "is_mutex s m" "mutex_task (mutexes s m) = Some t"
    and bl: "blk_list (blk_objs s m) = w # ws"
  shows "kinv (hand_over m w n s)" "pi_but t (hand_over m w n s)" "w \<noteq> t"
proof -
  let ?s = "hand_over m w n s"
  have ms: "mtx_struct s" using pb by (simp add: pi_but_def)
  have p: "pended (tcb s w)" "blk_obj (tcb s w) = Some m" using kinv_first_pended [OF k, of w m] bl by auto
  have lw: "live (tcb s w)" and wi: "w \<noteq> idle_tid"
    using pended_live [OF p(1)] kinv_not_idle [OF k, of w] p by (auto simp: pended_def)
  have "(w, t) \<in> waits_for s" using m bl by (auto simp: waits_for_iff [OF kinvD(2) [OF k]])
  then show wt: "w \<noteq> t" using acyclic_waits [OF ms, of t] by auto
  show kh: "kinv ?s" by (rule kinv_hand_over [OF k p(1)])
  have live: "live (tcb ?s u) = live (tcb s u)" for u by (simp add: hand_over_def lw)
  have "acyclic (waits_for ?s)"
    by (rule acyclic_into_sink [of "waits_for s" _ w])
      (use waits_hand_over [OF k bl] ms in \<open>auto simp: mtx_struct_def\<close>)
  then have "mtx_struct ?s"
    using ms lw wi by (auto simp: mtx_struct_def live) (auto simp: hand_over_def split: if_splits)
  moreover have "pi_ok ?s u" if u: "live (tcb ?s u)" "u \<noteq> t" for u
  proof -
    have ok: "owns_ok s u" "prio (tcb s u) = eff s u" using pb u by (auto simp: pi_but_def pi_ok_def live)
    have nm: "m \<notin> set (mutex_list (tcb s u))" using ok(1) m u(2) by (auto simp: owns_ok_def)
    have "owns_ok ?s u" using ok(1) m u(2) nm by (auto simp: owns_ok_def hand_over_def)
    moreover have "eff ?s u = prio (tcb s u)"
      using eff_hand_over [OF k bl nm] eff_hand_over_new [OF k bl, of n] nm ok m(1) ms
      by (cases "u = w") (auto simp: mtx_struct_def)
    ultimately show ?thesis by (simp add: pi_ok_def hand_over_def)
  qed
  ultimately show "pi_but t ?s" by (simp add: pi_but_def)
qed

text \<open>Nobody waits: the mutex has no owner any more.\<close>

lemma free_ok:
  assumes k: "kinv s" and pb: "pi_but t s" and m: "is_mutex s m" "mutex_task (mutexes s m) = Some t"
    and bl: "blk_list (blk_objs s m) = []"
  shows "kinv (set_owner m None n s)" "pi_but t (set_owner m None n s)"
proof -
  let ?s = "set_owner m None n s"
  show kh: "kinv ?s" by (rule kinv_set_owner [OF k])
  have sel: "tcb ?s = tcb s" "blk_objs ?s = blk_objs s" "is_mutex ?s = is_mutex s"
    "mutex_task (mutexes ?s m') = (if m' = m then None else mutex_task (mutexes s m'))" for m'
    by (auto simp: set_owner_def is_mutex_def)
  have ms: "mtx_struct s" using pb by (simp add: pi_but_def)
  have "waits_for ?s \<subseteq> waits_for s"
    by (auto simp: waits_for_iff [OF kinvD(2) [OF k]] waits_for_iff [OF kinvD(2) [OF kh]] sel split: if_splits)
  from acyclic_subset [OF _ this] have "acyclic (waits_for ?s)" using ms by (simp add: mtx_struct_def)
  then have "mtx_struct ?s" using ms bl by (simp add: mtx_struct_def sel)
  moreover have "owns_ok ?s u = owns_ok s u" if "u \<noteq> t" for u
  proof -
    have "mutex_task (mutexes ?s m') = Some u \<longleftrightarrow> mutex_task (mutexes s m') = Some u" for m'
      using m that by (simp add: sel)
    then show ?thesis by (simp only: owns_ok_def sel)
  qed
  moreover have "eff ?s u = eff s u" for u by (simp add: eff_def waiters_def sel)
  ultimately show "pi_but t ?s" using pb by (simp add: pi_but_def pi_ok_def sel)
qed

section \<open>Taking a free mutex\<close>

lemma take_mutex_ok:
  assumes k: "kernel_inv s" and t: "live (tcb s t)" "t \<noteq> idle_tid"
    and m: "is_mutex s m" "mutex_task (mutexes s m) = None"
  shows "kernel_inv (take_mutex m t n s)"
proof -
  let ?s = "take_mutex m t n s"
  note i = kernel_invD [OF k]
  have kt: "kinv ?s" by (rule kinv_take_mutex [OF i(1) t(2)])
  have bl: "blk_list (blk_objs s m) = []" using i(3) m by (auto simp: mtx_struct_def)
  have nm: "m \<notin> set (mutex_list (tcb s u))" if "live (tcb s u)" for u
    using i(2) that m by (auto simp: pi_inv_def pi_ok_def owns_ok_def)
  have "waits_for ?s \<subseteq> waits_for s"
    using bl by (auto simp: waits_for_iff [OF kinvD(2) [OF i(1)]] waits_for_iff [OF kinvD(2) [OF kt]]
        split: if_splits)
  from acyclic_subset [OF _ this] have "acyclic (waits_for ?s)" using i(3) by (simp add: mtx_struct_def)
  then have "mtx_struct ?s" using i(3) t bl by (simp add: mtx_struct_def)
  moreover have "pi_ok ?s u" if "live (tcb s u)" for u
  proof -
    have ok: "owns_ok s u" "prio (tcb s u) = eff s u" using i(2) that by (auto simp: pi_inv_def pi_ok_def)
    have "owns_ok ?s u" using ok(1) nm [OF that] m by (auto simp: owns_ok_def)
    moreover have "waiters ?s u = waiters s u" using bl by (simp add: waiters_def)
    ultimately show ?thesis using ok(2) by (simp add: pi_ok_def eff_def)
  qed
  ultimately show ?thesis using kt by (simp add: kernel_inv_def pi_inv_def)
qed

section \<open>Starting to wait for a mutex\<close>

lemma pend_on_sel [simp]:
  "mutexes (pend_on ob t timeout s) = mutexes s"
  "obj_type (blk_objs (pend_on ob t timeout s) o') = obj_type (blk_objs s o')"
  "blk_policy (blk_objs (pend_on ob t timeout s) o') = blk_policy (blk_objs s o')"
  "set (blk_list (blk_objs (pend_on ob t timeout s) o')) =
     set (blk_list (blk_objs s o')) \<union> (if o' = ob then {t} else {})"
  "prio (tcb (pend_on ob t timeout s) u) = prio (tcb s u)"
  "b_prio (tcb (pend_on ob t timeout s) u) = b_prio (tcb s u)"
  "mutex_list (tcb (pend_on ob t timeout s) u) = mutex_list (tcb s u)"
  "g_active_task (pend_on ob t timeout s) = g_active_task s"
  "g_sched_lock (pend_on ob t timeout s) = g_sched_lock s"
  "g_intrpt_nested_level (pend_on ob t timeout s) = g_intrpt_nested_level s"
  "is_mutex (pend_on ob t timeout s) m = is_mutex s m"
  by (auto simp: pend_on_def Let_def is_mutex_def)

lemma pend_on_live [simp]:
  "task_state (tcb s t) = K_RDY \<Longrightarrow> live (tcb (pend_on ob t timeout s) u) = live (tcb s u)"
  by (simp add: pend_on_def Let_def live_def)

text \<open>
  The waiting task's priority is passed on first (\<open>task_pri_change\<close>), then it joins the
  list. The owner must not itself be waiting, through a chain of mutexes, for the task:
  that would be a deadlock.
\<close>

lemma wait_mutex_ok:
  assumes k: "kinv s" and pb: "pi_but w s" and t: "task_state (tcb s t) = K_RDY" "t \<noteq> idle_tid"
    and time: "timeout = RHINO_WAIT_FOREVER \<or> timeout < 2 ^ 63"
    and m: "is_mutex s m" "mutex_task (mutexes s m) = Some w"
    and dead: "(w, t) \<notin> (waits_for s)\<^sup>*"
    and w: "owns_ok s w" "prio (tcb s w) = min (prio (tcb s t)) (eff s w)"
  shows "kernel_inv (pend_on m t timeout s)"
proof -
  let ?s = "pend_on m t timeout s"
  have kp: "kinv ?s" by (rule kinv_pend_on [OF k t time])
  have ms: "mtx_struct s" using pb by (simp add: pi_but_def)
  have e: "x \<in> set (blk_list (blk_objs ?s m')) \<longleftrightarrow> x \<in> set (blk_list (blk_objs s m')) \<or> m' = m \<and> x = t" for x m'
    by simp
  have "(x, y) \<in> waits_for ?s \<longleftrightarrow> (x, y) = (t, w) \<or> (x, y) \<in> waits_for s" for x y
    unfolding waits_for_iff [OF kinvD(2) [OF k]] waits_for_iff [OF kinvD(2) [OF kp]] e pend_on_sel(1,11)
    by (metis m option.inject prod.inject)
  then have wf: "waits_for ?s = insert (t, w) (waits_for s)" by auto
  have "acyclic (waits_for ?s)" using ms dead by (simp add: mtx_struct_def wf acyclic_insert)
  moreover have "mutex_task (mutexes s m') \<noteq> None" if "is_mutex s m'" "blk_list (blk_objs ?s m') \<noteq> []" for m'
    using that ms m by (cases "m' = m") (auto simp: pend_on_def Let_def mtx_struct_def)
  ultimately have ms': "mtx_struct ?s" using ms t by (simp add: mtx_struct_def)
  have "owns_ok ?s u = owns_ok s u" for u by (simp add: owns_ok_def)
  moreover have "eff ?s u = eff s u" if "u \<noteq> w" "owns_ok s u" for u
  proof -
    have "m \<notin> set (mutex_list (tcb s u))" using that m by (auto simp: owns_ok_def)
    then have "waiters ?s u = waiters s u" by (auto simp: waiters_def split: if_splits)
    then show ?thesis by (simp add: eff_def)
  qed
  moreover have "eff ?s w = min (prio (tcb s t)) (eff s w)"
  proof -
    have "m \<in> set (mutex_list (tcb s w))" using w(1) m by (simp add: owns_ok_def)
    then have "waiters ?s w = insert t (waiters s w)" by (auto simp: waiters_def split: if_splits)
    then show ?thesis by (simp add: eff_def insert_commute [of _ "prio (tcb s t)"])
  qed
  ultimately have "pi_ok ?s u" if "live (tcb s u)" for u
    using that pb w by (cases "u = w") (simp_all add: pi_but_def pi_ok_def)
  with kp t ms' show ?thesis by (simp add: kernel_inv_def pi_inv_def)
qed

section \<open>Blocking on an object that is no mutex, and leaving it\<close>

lemma kernel_inv_pend_on:
  assumes k: "kernel_inv s" and t: "task_state (tcb s t) = K_RDY" "t \<noteq> idle_tid"
    and time: "timeout = RHINO_WAIT_FOREVER \<or> timeout < 2 ^ 63" and m: "\<not> is_mutex s ob"
  shows "kernel_inv (pend_on ob t timeout s)"
proof -
  have kp: "kinv (pend_on ob t timeout s)" by (rule kinv_pend_on [OF kernel_invD(1) [OF k] t time])
  moreover have "pi_inv (pend_on ob t timeout s)"
    by (rule pi_inv_cong_same [OF kernel_invD(1) [OF k] kinvD(2) [OF kp] _ _ _ _ kernel_invD(2) [OF k]])
      (use t m in auto)
  ultimately show ?thesis by (simp add: kernel_inv_def)
qed

lemma kernel_inv_unpend:
  assumes k: "kernel_inv s" and t: "t \<in> set (blk_list (blk_objs s ob))" and m: "\<not> is_mutex s ob"
  shows "kernel_inv (unpend b t s)"
proof -
  note i = kernel_invD [OF k]
  have p: "pended (tcb s t)" "blk_obj (tcb s t) = Some ob" using kinv_first_pended [OF i(1) t] by auto
  have kp: "kinv (unpend b t s)" by (rule kinv_unpend [OF i(1) p(1)])
  have "t \<notin> set (blk_list (blk_objs s m'))" if "is_mutex s m'" for m'
    using kinv_first_pended [OF i(1), of t m'] p(2) that m by auto
  then have "pi_inv (unpend b t s)"
    by (intro pi_inv_cong_same [OF i(1) kinvD(2) [OF kp] _ _ _ _ i(2)])
      (use pended_live [OF p(1)] in \<open>auto simp: remove1_idem\<close>)
  with kp show ?thesis by (simp add: kernel_inv_def)
qed

end
