(* ===== verification/K_Frame.thy ===== *)
theory K_Frame
  imports K_Prio
begin

text \<open>
  Fields of the kernel state that the wake-up and priority functions neither read nor write.
  The locale \<open>unread\<close> is the interface of a write \<open>w\<close> to such a field; its lemmas move the
  write past every function of \<^verbatim>\<open>k_pend.c\<close>, \<^verbatim>\<open>k_mutex.c\<close> and \<^verbatim>\<open>k_task.c\<close> that a wake-up runs. It is
  interpreted for the tick count (the tick interrupt advances it before it wakes tasks) and
  for the list of tasks (a deletion unlinks the task after the priorities are reset; the
  fuel of \<open>task_pri_change\<close> is the only reader of that list).
\<close>

locale unread =
  fixes w :: "kstate \<Rightarrow> kstate"
  assumes tcb_w: "tcb (w s) = tcb s" and blk_w: "blk_objs (w s) = blk_objs s"
    and mutexes_w: "mutexes (w s) = mutexes s" and queue_w: "g_ready_queue (w s) = g_ready_queue s"
    and active_w: "g_active_task (w s) = g_active_task s" and errs_w: "k_errs (w s) = k_errs s"
    and head_w: "g_tick_head (w s) = g_tick_head s"
    and set_tcb: "(w s)\<lparr>tcb := tc\<rparr> = w (s\<lparr>tcb := tc\<rparr>)"
    and set_blk: "(w s)\<lparr>blk_objs := bo\<rparr> = w (s\<lparr>blk_objs := bo\<rparr>)"
    and set_queue: "(w s)\<lparr>g_ready_queue := rq\<rparr> = w (s\<lparr>g_ready_queue := rq\<rparr>)"
    and set_errs: "(w s)\<lparr>k_errs := es\<rparr> = w (s\<lparr>k_errs := es\<rparr>)"
    and set_fault: "(w s)\<lparr>k_fault := b\<rparr> = w (s\<lparr>k_fault := b\<rparr>)"
    and set_head: "(w s)\<lparr>g_tick_head := th\<rparr> = w (s\<lparr>g_tick_head := th\<rparr>)"
begin

lemmas field_w = tcb_w blk_w mutexes_w queue_w active_w errs_w head_w
  set_tcb set_blk set_queue set_errs set_fault set_head

lemma upd_w:
  "upd_task t f (w s) = w (upd_task t f s)" "k_err_proc e (w s) = w (k_err_proc e s)"
  "fault (w s) = w (fault s)" "blk_list_rm t (w s) = w (blk_list_rm t s)" "upd_blk ob g (w s) = w (upd_blk ob g s)"
  by (simp_all add: kupd field_w)

lemma list_w:
  "ready_list_add_tail t (w s) = w (ready_list_add_tail t s)"
  "ready_list_add_head t (w s) = w (ready_list_add_head t s)"
  "ready_list_add t (w s) = w (ready_list_add t s)" "ready_list_rm t (w s) = w (ready_list_rm t s)"
  "tick_list_rm t (w s) = w (tick_list_rm t s)"
  by (simp_all add: ready_list_add_tail_def ready_list_add_head_def ready_list_add_def ready_list_rm_def
      tick_list_rm_def field_w upd_w Let_def split: option.splits)

lemmas basic_w = field_w upd_w list_w

lemma pend_list_reorder_w: "pend_list_reorder t (w s) = w (pend_list_reorder t s)"
  by (simp add: pend_list_reorder_def basic_w Let_def split: option.splits)

lemma mutex_pri_look_loop_w: "mutex_pri_look_loop (w s) rel ms p q = mutex_pri_look_loop s rel ms p q"
  by (induction ms arbitrary: p q) (auto simp: field_w Let_def split: list.splits)

lemma mutex_pri_look_w: "mutex_pri_look t rel (w s) = apsnd w (mutex_pri_look t rel s)"
  by (simp add: mutex_pri_look_def mutex_pri_look_loop_w basic_w split_beta)

lemma pri_change_round_w:
  "pri_change_round t p (w s) = map_sum (apsnd w) (apsnd (apsnd w)) (pri_change_round t p s)"
  by (simp add: pri_change_round_def pri_change_pend_def basic_w pend_list_reorder_w mutex_pri_look_w Let_def
      split_beta apsnd_def map_prod_def split: task_stat_t.splits option.splits)

lemma task_pri_change_loop_w: "task_pri_change_loop n t p (w s) = apsnd w (task_pri_change_loop n t p s)"
  by (induction n arbitrary: t p s) (auto simp: basic_w pri_change_round_w split: sum.splits)

end

locale unread_tasks = unread +
  assumes tasks_w: "g_tasks (w s) = g_tasks s"
begin

lemma task_pri_change_w: "task_pri_change t p (w s) = apsnd w (task_pri_change t p s)"
  using task_pri_change_loop_w by (simp only: task_pri_change_def tasks_w)

lemma mutex_task_pri_reset_w: "mutex_task_pri_reset t (w s) = w (mutex_task_pri_reset t s)"
  by (simp add: mutex_task_pri_reset_def mutex_release_def mutex_pri_look_w task_pri_change_w basic_w
      split_beta split: option.splits)

end

abbreviation at_count :: "tick_t \<Rightarrow> kstate \<Rightarrow> kstate" where
  "at_count c s \<equiv> s\<lparr>g_tick_count := c\<rparr>"

interpretation count: unread_tasks "at_count c" for c
  by unfold_locales simp_all

interpretation tasks: unread "\<lambda>s. s\<lparr>g_tasks := ts\<rparr>" for ts
  by unfold_locales simp_all

section \<open>More fuel\<close>

text \<open>A loop that ended without a fault ends in the same way with one round more.\<close>

lemma task_pri_change_loop_Suc:
  "\<not> k_fault (snd (task_pri_change_loop n t p s)) \<Longrightarrow>
   task_pri_change_loop (Suc n) t p s = task_pri_change_loop n t p s"
proof (induction n arbitrary: t p s)
  case 0
  then show ?case by (simp add: fault_def)
next
  case (Suc n)
  show ?case
  proof (cases "pri_change_round t p s")
    case (Inr r)
    then obtain t' p' s' where r: "pri_change_round t p s = Inr (t', p', s')" by (cases r) simp
    with Suc.prems have "\<not> k_fault (snd (task_pri_change_loop n t' p' s'))" by simp
    from Suc.IH [OF this] show ?thesis by (simp only: task_pri_change_loop.simps(2) r sum.case prod.case)
  qed (simp add: task_pri_change_loop.simps(2))
qed

lemma task_pri_change_drop_task:
  assumes "length (g_tasks s) = Suc (length ts)"
    and "\<not> k_fault (snd (task_pri_change t p (s\<lparr>g_tasks := ts\<rparr>)))"
  shows "task_pri_change t p (s\<lparr>g_tasks := ts\<rparr>) = apsnd (\<lambda>s. s\<lparr>g_tasks := ts\<rparr>) (task_pri_change t p s)"
proof -
  have "task_pri_change_loop (Suc (Suc (length ts))) t p (s\<lparr>g_tasks := ts\<rparr>) =
      task_pri_change_loop (Suc (length ts)) t p (s\<lparr>g_tasks := ts\<rparr>)"
    by (rule task_pri_change_loop_Suc) (use assms(2) in \<open>simp add: task_pri_change_def del: task_pri_change_loop.simps\<close>)
  then show ?thesis using tasks.task_pri_change_loop_w [where t = t and p = p and s = s and ts = ts] assms(1)
    by (simp add: task_pri_change_def del: task_pri_change_loop.simps)
qed

lemma mutex_task_pri_reset_tasks: "g_tasks (mutex_task_pri_reset t s) = g_tasks s"
proof -
  have "g_tasks (snd (task_pri_change_loop n t p s)) = g_tasks s" for n t p s
    using arg_cong [OF tasks.task_pri_change_loop_w [where ts = "g_tasks s" and s = s and n = n and t = t and p = p],
        of "\<lambda>r. g_tasks (snd r)"]
    by simp
  then show ?thesis
    by (simp add: mutex_task_pri_reset_def mutex_release_def task_pri_change_def mutex_pri_look_def kupd split_beta
        Let_def del: task_pri_change_loop.simps split: option.splits)
qed

lemma mutex_release_drop_task:
  assumes "length (g_tasks s) = Suc (length ts)"
    and "\<not> k_fault (mutex_release u None (s\<lparr>g_tasks := ts\<rparr>))"
  shows "mutex_release u None (s\<lparr>g_tasks := ts\<rparr>) = (mutex_release u None s)\<lparr>g_tasks := ts\<rparr>"
proof -
  obtain np s2 where l: "mutex_pri_look u None s = (np, s2)" by force
  then have l': "mutex_pri_look u None (s\<lparr>g_tasks := ts\<rparr>) = (np, s2\<lparr>g_tasks := ts\<rparr>)"
    using tasks.mutex_pri_look_w [where t = u and rel = None and s = s and ts = ts] by simp
  show ?thesis
  proof (cases "np = prio (tcb s2 u)")
    case True
    then show ?thesis by (simp add: mutex_release_def l l')
  next
    case False
    then have r: "mutex_release u None (s\<lparr>g_tasks := ts\<rparr>) = snd (task_pri_change u np (s2\<lparr>g_tasks := ts\<rparr>))"
      by (simp add: mutex_release_def l')
    have "g_tasks s2 = g_tasks s" using l by (auto simp: mutex_pri_look_def split_beta Let_def upd_task_def)
    with task_pri_change_drop_task [of s2 ts u np] assms r
    have "task_pri_change u np (s2\<lparr>g_tasks := ts\<rparr>) = apsnd (\<lambda>s. s\<lparr>g_tasks := ts\<rparr>) (task_pri_change u np s2)"
      by simp
    with r False show ?thesis by (simp add: mutex_release_def l)
  qed
qed

lemma mutex_task_pri_reset_drop_task:
  assumes "length (g_tasks s) = Suc (length ts)"
    and "\<not> k_fault (mutex_task_pri_reset t (s\<lparr>g_tasks := ts\<rparr>))"
  shows "mutex_task_pri_reset t (s\<lparr>g_tasks := ts\<rparr>) = (mutex_task_pri_reset t s)\<lparr>g_tasks := ts\<rparr>"
  using assms(2) mutex_release_drop_task [OF assms(1)]
  by (simp add: mutex_task_pri_reset_def fault_def split: option.splits if_splits)

end
