(* ===== verification/K_Tick.thy ===== *)
theory K_Tick
  imports K_PiInv K_Frame
begin

text \<open>
  The tick (\<^verbatim>\<open>core/k_tick.c\<close>, \<^verbatim>\<open>core/k_time.c\<close>): \<open>tick_list_update\<close> advances the tick count and
  ends the sleep or the wait of every task whose time is over, \<open>krhino_tick_proc\<close> is the
  tick interrupt. The lemmas show that exactly the tasks with no time left are woken and
  that the invariant, priority inheritance included, is kept.
\<close>

section \<open>The functions\<close>

definition tick_list_init :: "kstate \<Rightarrow> kstate" where
  "tick_list_init s = s\<lparr>g_tick_head := []\<rparr>"

text \<open>The \<open>switch\<close> on the state of an expired task.\<close>

definition tick_expire :: "tid \<Rightarrow> kstate \<Rightarrow> kstate" where
  "tick_expire t s =
    (case task_state (tcb s t) of
       K_SLEEP \<Rightarrow>
         let s = upd_task t (\<lambda>k. k\<lparr>blk_state := BLK_FINISH\<rparr>) s;
             s = upd_task t (\<lambda>k. k\<lparr>task_state := K_RDY\<rparr>) s;
             s = tick_list_rm t s
         in ready_list_add t s
     | K_PEND \<Rightarrow>
         let s = tick_list_rm t s;
             s = blk_list_rm t s;
             s = ready_list_add t s;
             s = upd_task t (\<lambda>k. k\<lparr>blk_state := BLK_TIMEOUT\<rparr>) s;
             s = upd_task t (\<lambda>k. k\<lparr>task_state := K_RDY\<rparr>) s;
             s = mutex_task_pri_reset t s
         in upd_task t (\<lambda>k. k\<lparr>blk_obj := None\<rparr>) s
     | K_PEND_SUSPENDED \<Rightarrow>
         let s = tick_list_rm t s;
             s = blk_list_rm t s;
             s = upd_task t (\<lambda>k. k\<lparr>blk_state := BLK_TIMEOUT\<rparr>) s;
             s = upd_task t (\<lambda>k. k\<lparr>task_state := K_SUSPENDED\<rparr>) s;
             s = mutex_task_pri_reset t s
         in upd_task t (\<lambda>k. k\<lparr>blk_obj := None\<rparr>) s
     | K_SLEEP_SUSPENDED \<Rightarrow>
         let s = upd_task t (\<lambda>k. k\<lparr>task_state := K_SUSPENDED\<rparr>) s;
             s = upd_task t (\<lambda>k. k\<lparr>blk_state := BLK_FINISH\<rparr>) s
         in tick_list_rm t s
     | _ \<Rightarrow> k_err_proc RHINO_SYS_FATAL_ERR s)"

text \<open>The loop saves the next node before it handles a task, which unlinks only that task.\<close>

fun tick_list_update_loop :: "tid list \<Rightarrow> kstate \<Rightarrow> kstate" where
  "tick_list_update_loop [] s = s"
| "tick_list_update_loop (p_tcb # iter) s =
    (if sint (tick_match (tcb s p_tcb) - g_tick_count s) \<le> 0
     then tick_list_update_loop iter (tick_expire p_tcb s)
     else s)"

definition tick_list_update :: "tick_t \<Rightarrow> kstate \<Rightarrow> kstate" where
  "tick_list_update ticks s =
    (let s = s\<lparr>g_tick_count := g_tick_count s + ticks\<rparr>
     in tick_list_update_loop (g_tick_head s) s)"

definition krhino_tick_proc :: "kstate \<Rightarrow> kstate" where
  "krhino_tick_proc s = time_slice_update (tick_list_update 1 s)"

definition krhino_sys_tick_get :: "kstate \<Rightarrow> tick_t" where
  "krhino_sys_tick_get s = g_tick_count s"

text \<open>Waking a task does not read the tick count.\<close>

lemma tick_expire_count: "tick_expire t (at_count c s) = at_count c (tick_expire t s)"
  by (simp add: tick_expire_def count.basic_w count.mutex_task_pri_reset_w Let_def split: task_stat_t.splits)

section \<open>One expired task\<close>

definition unsleep :: "tid \<Rightarrow> kstate \<Rightarrow> kstate" where
  "unsleep t s = s\<lparr>
     tcb := (tcb s)(t := (tcb s t)\<lparr>
       task_state := (if task_state (tcb s t) = K_SLEEP then K_RDY else K_SUSPENDED),
       tick_head := False, blk_state := BLK_FINISH\<rparr>),
     g_tick_head := remove1 t (g_tick_head s),
     g_ready_queue := (if task_state (tcb s t) = K_SLEEP then g_ready_queue (ready_list_add t s)
                       else g_ready_queue s)\<rparr>"

lemma ready_list_add_tcb:
  assumes "prio k = prio (tcb s t)"
  shows "ready_list_add t (s\<lparr>tcb := (tcb s)(t := k), g_tick_head := G\<rparr>) =
      s\<lparr>tcb := (tcb s)(t := k), g_tick_head := G, g_ready_queue := g_ready_queue (ready_list_add t s)\<rparr>"
    and "ready_list_add t (s\<lparr>tcb := (tcb s)(t := k), g_tick_head := G, blk_objs := B\<rparr>) =
      s\<lparr>tcb := (tcb s)(t := k), g_tick_head := G, blk_objs := B,
        g_ready_queue := g_ready_queue (ready_list_add t s)\<rparr>"
  using assms by (auto simp: ready_list_add_def ready_list_add_tail_def ready_list_add_head_def)

lemma fun_upd_eqI: "k = k' \<Longrightarrow> f(t := k) = f(t := k')"
  by simp

lemma tick_expire_sleep:
  assumes "inv_tick s" and "sleeping (tcb s t)"
  shows "tick_expire t s = unsleep t s"
  using assms(2)
  by (intro kstate.equality) (auto simp: sleeping_def tick_expire_def unsleep_def
      tick_list_rm_eq [OF assms(1)] upd_task_def ready_list_add_tcb intro!: fun_upd_eqI ktask_t.equality)

lemma tick_expire_pend:
  assumes "inv_tick s" and "pended (tcb s t)"
  shows "tick_expire t s =
    upd_task t (\<lambda>k. k\<lparr>blk_obj := None\<rparr>) (mutex_task_pri_reset t (unlink BLK_TIMEOUT t s))"
proof -
  consider "task_state (tcb s t) = K_PEND" | "task_state (tcb s t) = K_PEND_SUSPENDED"
    using assms(2) by (auto simp: pended_def)
  then show ?thesis
  proof cases
    case 1
    have "upd_task t (\<lambda>k. k\<lparr>task_state := K_RDY\<rparr>) (upd_task t (\<lambda>k. k\<lparr>blk_state := BLK_TIMEOUT\<rparr>)
        (ready_list_add t (blk_list_rm t (tick_list_rm t s)))) = unlink BLK_TIMEOUT t s"
      using 1 by (intro kstate.equality)
        (auto simp: unlink_def tick_list_rm_eq [OF assms(1)] kupd ready_list_add_tcb
          intro!: fun_upd_eqI ktask_t.equality)
    with 1 show ?thesis by (simp add: tick_expire_def Let_def)
  next
    case 2
    have "upd_task t (\<lambda>k. k\<lparr>task_state := K_SUSPENDED\<rparr>) (upd_task t (\<lambda>k. k\<lparr>blk_state := BLK_TIMEOUT\<rparr>)
        (blk_list_rm t (tick_list_rm t s))) = unlink BLK_TIMEOUT t s"
      using 2 by (intro kstate.equality)
        (auto simp: unlink_def tick_list_rm_eq [OF assms(1)] kupd intro!: fun_upd_eqI ktask_t.equality)
    with 2 show ?thesis by (simp add: tick_expire_def Let_def)
  qed
qed

lemma kinv_unsleep:
  assumes k: "kinv s" and p: "sleeping (tcb s t)"
  shows "kinv (unsleep t s)"
proof (rule kinvI)
  let ?s = "unsleep t s"
  note i = kinvD [OF k]
  have live: "live (tcb s t)" using p by (auto simp: kstates)
  have other: "tcb ?s u = tcb s u" if "u \<noteq> t" for u using that by (simp add: unsleep_def)
  have state: "task_state (tcb ?s t) = (if task_state (tcb s t) = K_SLEEP then K_RDY else K_SUSPENDED)"
    and pr: "prio (tcb ?s t) = prio (tcb s t)"
    by (simp_all add: unsleep_def)
  show "inv_ready ?s"
  proof (cases "task_state (tcb s t) = K_SLEEP")
    case True
    show ?thesis
      by (rule inv_ready_enter [OF i(1), of t _ s])
        (use True other state pr kinv_prio [OF k live] in \<open>auto simp: unsleep_def\<close>)
  next
    case False
    show ?thesis
      by (rule inv_ready_cong [OF _ _ _ i(1)]) (use False p in \<open>auto simp: unsleep_def sleeping_def\<close>)
  qed
  show "inv_blk ?s" by (rule inv_blk_cong [OF _ _ _ _ i(2)]) (use p in \<open>auto simp: unsleep_def kstates\<close>)
  show "inv_tick ?s"
    by (rule inv_tick_leave [OF i(3), of _ t]) (auto simp: unsleep_def kstates)
  show "inv_tasks ?s"
    by (rule inv_tasks_cong [OF _ _ _ _ _ i(4)])
      (use live i(4) p in \<open>auto simp: unsleep_def kstates inv_tasks_def\<close>)
  show "inv_idle ?s"
    using i(5) kinv_not_idle [OF k, of t] p by (auto simp: inv_idle_def unsleep_def sleeping_def)
  show "no_fault ?s" using i(6) by (simp add: no_fault_def unsleep_def)
qed

lemma kernel_inv_upd_task:
  assumes "kernel_inv s" and "same_core (f (tcb s t)) (tcb s t)"
  shows "kernel_inv (upd_task t f s)"
proof -
  note i = kernel_invD [OF assms(1)]
  have k: "kinv (upd_task t f s)" by (intro kinv_upd_task i(1) assms(2))
  have "pi_inv (upd_task t f s)"
    by (rule pi_inv_cong_same [OF i(1) kinvD(2) [OF k] _ _ _ _ i(2)])
      (use assms(2) in \<open>auto simp: upd_task_def same_core_def live_def is_mutex_def\<close>)
  with k show ?thesis by (simp add: kernel_inv_def)
qed

lemma kernel_inv_tick_expire:
  assumes k: "kernel_inv s" and h: "tick_head (tcb s t)"
  shows "kernel_inv (tick_expire t s)" "g_tick_head (tick_expire t s) = remove1 t (g_tick_head s)"
    "g_tick_count (tick_expire t s) = g_tick_count s"
    "u \<noteq> t \<Longrightarrow> task_state (tcb (tick_expire t s) u) = task_state (tcb s u)"
    "u \<noteq> t \<Longrightarrow> tick_match (tcb (tick_expire t s) u) = tick_match (tcb s u)"
    "u \<noteq> t \<Longrightarrow> blk_state (tcb (tick_expire t s) u) = blk_state (tcb s u)"
    "task_state (tcb (tick_expire t s) t) =
      (if task_state (tcb s t) = K_SLEEP \<or> task_state (tcb s t) = K_PEND then K_RDY else K_SUSPENDED)"
    "blk_state (tcb (tick_expire t s) t) = (if pended (tcb s t) then BLK_TIMEOUT else BLK_FINISH)"
proof -
  note i = kernel_invD [OF k] and ti = kinvD(3) [OF kernel_invD(1) [OF k]]
  from ti h have "sleeping (tcb s t) \<or> pended (tcb s t)" by (simp add: inv_tick_def)
  then have "kernel_inv (tick_expire t s) \<and> g_tick_head (tick_expire t s) = remove1 t (g_tick_head s) \<and>
    g_tick_count (tick_expire t s) = g_tick_count s \<and>
    (u \<noteq> t \<longrightarrow> task_state (tcb (tick_expire t s) u) = task_state (tcb s u) \<and>
      tick_match (tcb (tick_expire t s) u) = tick_match (tcb s u) \<and>
      blk_state (tcb (tick_expire t s) u) = blk_state (tcb s u)) \<and>
    task_state (tcb (tick_expire t s) t) =
      (if task_state (tcb s t) = K_SLEEP \<or> task_state (tcb s t) = K_PEND then K_RDY else K_SUSPENDED) \<and>
    blk_state (tcb (tick_expire t s) t) = (if pended (tcb s t) then BLK_TIMEOUT else BLK_FINISH)"
  proof
    assume sl: "sleeping (tcb s t)"
    have ks: "kinv (unsleep t s)" by (rule kinv_unsleep [OF i(1) sl])
    have "pi_inv (unsleep t s)"
      by (rule pi_inv_cong_same [OF i(1) kinvD(2) [OF ks] _ _ _ _ i(2)])
        (use sl in \<open>auto simp: unsleep_def kstates is_mutex_def\<close>)
    with ks sl show ?thesis
      by (auto simp: tick_expire_sleep [OF ti sl] kernel_inv_def) (auto simp: unsleep_def kstates)
  next
    assume p: "pended (tcb s t)"
    let ?u = "unlink BLK_TIMEOUT t s"
    define r where "r = mutex_task_pri_reset t ?u"
    have r: "kinv r" "pi_inv r" "prio_frame ?u r" using unlink_reset_ok [OF k p] by (simp_all add: r_def)
    note f = prio_frame_simps [OF r(3)]
    have np: "\<not> pended (tcb r t)" using not_pended_unlink [of BLK_TIMEOUT t s] by (simp add: pended_def f)
    have "kernel_inv (upd_task t (\<lambda>k. k\<lparr>blk_obj := None\<rparr>) r)"
      by (rule kernel_inv_upd_task) (use r np in \<open>auto simp: kernel_inv_def same_core_def\<close>)
    moreover have "tick_expire t s = upd_task t (\<lambda>k. k\<lparr>blk_obj := None\<rparr>) r"
      by (simp add: tick_expire_pend [OF ti p] r_def)
    ultimately show ?thesis using p by (auto simp: upd_task_def f unlink_def kstates)
  qed
  then show "kernel_inv (tick_expire t s)" "g_tick_head (tick_expire t s) = remove1 t (g_tick_head s)"
    "g_tick_count (tick_expire t s) = g_tick_count s"
    "u \<noteq> t \<Longrightarrow> task_state (tcb (tick_expire t s) u) = task_state (tcb s u)"
    "u \<noteq> t \<Longrightarrow> tick_match (tcb (tick_expire t s) u) = tick_match (tcb s u)"
    "u \<noteq> t \<Longrightarrow> blk_state (tcb (tick_expire t s) u) = blk_state (tcb s u)"
    "task_state (tcb (tick_expire t s) t) =
      (if task_state (tcb s t) = K_SLEEP \<or> task_state (tcb s t) = K_PEND then K_RDY else K_SUSPENDED)"
    "blk_state (tcb (tick_expire t s) t) = (if pended (tcb s t) then BLK_TIMEOUT else BLK_FINISH)"
    by auto
qed

section \<open>All expired tasks\<close>

lemma sint_diff_le:
  fixes l n :: tick_t
  assumes "l < 2 ^ 63" and "n < 2 ^ 63"
  shows "sint (l - n) \<le> 0 \<longleftrightarrow> l \<le> n"
proof -
  have u: "uint l < 2 ^ 63" "uint n < 2 ^ 63" using assms by (simp_all add: word_less_def)
  have "uint (l - n) = take_bit 64 (uint l - uint n)"
    by (simp add: uint_word_ariths take_bit_eq_mod)
  then have "sint (l - n) = signed_take_bit 63 (uint l - uint n)"
    by (simp add: sint_uint signed_take_bit_take_bit)
  also have "\<dots> = uint l - uint n"
  proof (rule signed_take_bit_int_eq_self)
    have "0 \<le> uint l" "0 \<le> uint n" by simp_all
    with u show "- (2 ^ 63) \<le> uint l - uint n" "uint l - uint n < 2 ^ 63" by linarith+
  qed
  finally show ?thesis by (simp add: word_le_def)
qed

fun expire_all :: "tick_t \<Rightarrow> tid list \<Rightarrow> kstate \<Rightarrow> kstate" where
  "expire_all c [] s = s"
| "expire_all c (t # ts) s =
     (if sint (tick_match (tcb s t) - c) \<le> 0 then expire_all c ts (tick_expire t s) else s)"

lemma tick_list_update_loop_count:
  "tick_list_update_loop ts (at_count c s) = at_count c (expire_all c ts s)"
  by (induction ts arbitrary: s) (simp_all add: tick_expire_count)

definition woken :: "kstate \<Rightarrow> tid \<Rightarrow> kstate \<Rightarrow> bool" where
  "woken s t s' \<longleftrightarrow>
     task_state (tcb s' t) =
       (if task_state (tcb s t) = K_SLEEP \<or> task_state (tcb s t) = K_PEND then K_RDY else K_SUSPENDED) \<and>
     blk_state (tcb s' t) = (if pended (tcb s t) then BLK_TIMEOUT else BLK_FINISH)"

lemma expire_all_ok:
  assumes "kernel_inv s" and "g_tick_head s = ts" and "n < 2 ^ 63"
  shows "kernel_inv (expire_all (g_tick_count s + n) ts s) \<and>
    g_tick_count (expire_all (g_tick_count s + n) ts s) = g_tick_count s \<and>
    g_tick_head (expire_all (g_tick_count s + n) ts s) = filter (\<lambda>t. n < ticks_left s t) ts \<and>
    (\<forall>t. if t \<in> set ts \<and> ticks_left s t \<le> n then woken s t (expire_all (g_tick_count s + n) ts s)
      else task_state (tcb (expire_all (g_tick_count s + n) ts s) t) = task_state (tcb s t) \<and>
        tick_match (tcb (expire_all (g_tick_count s + n) ts s) t) = tick_match (tcb s t) \<and>
        blk_state (tcb (expire_all (g_tick_count s + n) ts s) t) = blk_state (tcb s t))"
  using assms
proof (induction ts arbitrary: s)
  case Nil
  then show ?case by simp
next
  case (Cons t ts)
  note ti = kinvD(3) [OF kernel_invD(1) [OF Cons.prems(1)]]
  have h: "tick_head (tcb s t)" and d: "t \<notin> set ts" "distinct ts"
    and so: "sorted (map (ticks_left s) (t # ts))" and lt: "ticks_left s t < 2 ^ 63"
    using ti Cons.prems(2) by (auto simp: inv_tick_def)
  let ?c = "g_tick_count s + n" and ?e = "tick_expire t s"
  have "tick_match (tcb s t) - ?c = ticks_left s t - n" by (simp add: ticks_left_def)
  then have test: "sint (tick_match (tcb s t) - ?c) \<le> 0 \<longleftrightarrow> ticks_left s t \<le> n"
    by (simp only: sint_diff_le [OF lt Cons.prems(3)])
  show ?case
  proof (cases "ticks_left s t \<le> n")
    case False
    then have all: "\<forall>u\<in>set (t # ts). n < ticks_left s u" using so by auto
    have run: "expire_all ?c (t # ts) s = s" using test False by simp
    have "filter (\<lambda>t. n < ticks_left s t) (t # ts) = t # ts" using all by (intro filter_True)
    with all Cons.prems show ?thesis unfolding run by (auto simp: not_le)
  next
    case True
    note e = kernel_inv_tick_expire [OF Cons.prems(1) h]
    have left: "ticks_left ?e u = ticks_left s u" if "u \<noteq> t" for u
      using e(3) e(5) [of u] that by (simp add: ticks_left_def)
    have ts: "g_tick_head ?e = ts" using e(2) Cons.prems(2) by simp
    note IH = Cons.IH [OF e(1) ts Cons.prems(3), unfolded e(3)]
    have fl: "filter (\<lambda>u. n < ticks_left ?e u) ts = filter (\<lambda>u. n < ticks_left s u) ts"
      using left d(1) by (intro filter_cong refl) (metis)
    let ?f = "expire_all ?c ts ?e"
    have run: "expire_all ?c (t # ts) s = ?f" using test True by simp
    have "if u \<in> set (t # ts) \<and> ticks_left s u \<le> n then woken s u ?f
        else task_state (tcb ?f u) = task_state (tcb s u) \<and> tick_match (tcb ?f u) = tick_match (tcb s u) \<and>
          blk_state (tcb ?f u) = blk_state (tcb s u)" for u
    proof (cases "u = t")
      case ut: True
      then show ?thesis using IH d True e(7,8) by (auto simp: woken_def split: if_splits)
    next
      case ut: False
      have "pended (tcb ?e u) = pended (tcb s u)" using e(4) [OF ut] by (simp add: pended_def)
      then show ?thesis using IH [THEN conjunct2, THEN conjunct2, THEN conjunct2, rule_format, of u] ut left [OF ut]
          e(4-6) [OF ut] by (auto simp: woken_def split: if_splits)
    qed
    moreover have "kernel_inv ?f" "g_tick_count ?f = g_tick_count s"
      "g_tick_head ?f = filter (\<lambda>u. n < ticks_left s u) (t # ts)"
      using IH fl True by auto
    ultimately show ?thesis unfolding run by blast
  qed
qed

lemma kernel_inv_count:
  assumes k: "kernel_inv s" and n: "\<And>t. tick_head (tcb s t) \<Longrightarrow> n < ticks_left s t"
  shows "kernel_inv (at_count (g_tick_count s + n) s)"
proof -
  let ?s = "at_count (g_tick_count s + n) s"
  note i = kernel_invD [OF k] and ti = kinvD [OF kernel_invD(1) [OF k]]
  have left: "ticks_left ?s t = ticks_left s t - n" for t by (simp add: ticks_left_def)
  have mem: "\<And>t. t \<in> set (g_tick_head s) \<Longrightarrow> n < ticks_left s t" using n ti(3) by (simp add: inv_tick_def)
  have mono: "a - n \<le> b - n" if "n < a" "a \<le> b" for a b :: tick_t
    using that by (simp add: word_le_minus_mono_left less_imp_le)
  have "sorted (map (ticks_left s) xs) \<Longrightarrow> (\<And>t. t \<in> set xs \<Longrightarrow> n < ticks_left s t) \<Longrightarrow>
      sorted (map (ticks_left ?s) xs)" for xs
    by (induction xs) (auto simp: left intro!: mono)
  moreover have "sorted (map (ticks_left s) (g_tick_head s))" using ti(3) by (simp add: inv_tick_def)
  ultimately have "sorted (map (ticks_left ?s) (g_tick_head s))" using mem by blast
  moreover have "0 < ticks_left ?s t \<and> ticks_left ?s t < 2 ^ 63" if "tick_head (tcb s t)" for t
  proof -
    have a: "n < ticks_left s t" "ticks_left s t < 2 ^ 63" using n [OF that] ti(3) that by (auto simp: inv_tick_def)
    then have "ticks_left s t - n \<le> ticks_left s t" by (simp add: word_sub_le less_imp_le)
    with a have "ticks_left s t - n < 2 ^ 63" by (rule_tac le_less_trans)
    moreover have "ticks_left s t - n \<noteq> 0" using a(1) by auto
    ultimately show ?thesis by (simp add: left word_gt_0)
  qed
  ultimately have "inv_tick ?s" using ti(3) by (simp add: inv_tick_def)
  then have "kinv ?s" using ti by (simp add: kinv_def inv_ready_def inv_blk_def inv_tasks_def inv_idle_def no_fault_def)
  moreover have "pi_inv ?s"
    by (rule pi_inv_cong_same [OF i(1) _ _ _ _ _ i(2)]) (use ti(2) in \<open>auto simp: inv_blk_def is_mutex_def\<close>)
  ultimately show ?thesis by (simp add: kernel_inv_def)
qed

lemma tick_list_update_ok:
  assumes k: "kernel_inv s" and n: "n < 2 ^ 63"
  shows "kernel_inv (tick_list_update n s)"
    and "g_tick_count (tick_list_update n s) = g_tick_count s + n"
    and "tick_head (tcb (tick_list_update n s) t) \<longleftrightarrow> tick_head (tcb s t) \<and> n < ticks_left s t"
    and "tick_head (tcb s t) \<Longrightarrow> ticks_left s t \<le> n \<Longrightarrow> woken s t (tick_list_update n s)"
    and "\<not> (tick_head (tcb s t) \<and> ticks_left s t \<le> n) \<Longrightarrow>
      task_state (tcb (tick_list_update n s) t) = task_state (tcb s t) \<and>
      tick_match (tcb (tick_list_update n s) t) = tick_match (tcb s t) \<and>
      blk_state (tcb (tick_list_update n s) t) = blk_state (tcb s t)"
proof -
  define e where "e = expire_all (g_tick_count s + n) (g_tick_head s) s"
  have upd: "tick_list_update n s = at_count (g_tick_count s + n) e"
    by (simp add: tick_list_update_def Let_def tick_list_update_loop_count e_def)
  note ok = expire_all_ok [OF k refl n, folded e_def]
  note ti = kinvD(3) [OF kernel_invD(1) [OF k]]
  have ke: "kernel_inv e" and count: "g_tick_count e = g_tick_count s" using ok by auto
  note te = kinvD(3) [OF kernel_invD(1) [OF ke]]
  have head: "tick_head (tcb e t) \<longleftrightarrow> tick_head (tcb s t) \<and> n < ticks_left s t" for t
    using te ti ok by (auto simp: inv_tick_def)
  have rest: "if tick_head (tcb s t) \<and> ticks_left s t \<le> n then woken s t e
      else task_state (tcb e t) = task_state (tcb s t) \<and> tick_match (tcb e t) = tick_match (tcb s t) \<and>
        blk_state (tcb e t) = blk_state (tcb s t)" for t
    using ok ti by (simp add: inv_tick_def)
  have "n < ticks_left e t" if "tick_head (tcb e t)" for t
    using that head [of t] rest [of t] count by (auto simp: ticks_left_def split: if_splits)
  from kernel_inv_count [OF ke this] show "kernel_inv (tick_list_update n s)" by (simp add: upd count)
  show "g_tick_count (tick_list_update n s) = g_tick_count s + n" by (simp add: upd)
  show "tick_head (tcb (tick_list_update n s) t) \<longleftrightarrow> tick_head (tcb s t) \<and> n < ticks_left s t"
    using head by (simp add: upd)
  show "tick_head (tcb s t) \<Longrightarrow> ticks_left s t \<le> n \<Longrightarrow> woken s t (tick_list_update n s)"
    using rest [of t] by (simp add: upd woken_def)
  show "\<not> (tick_head (tcb s t) \<and> ticks_left s t \<le> n) \<Longrightarrow>
      task_state (tcb (tick_list_update n s) t) = task_state (tcb s t) \<and>
      tick_match (tcb (tick_list_update n s) t) = tick_match (tcb s t) \<and>
      blk_state (tcb (tick_list_update n s) t) = blk_state (tcb s t)"
    using rest [of t] by (auto simp: upd split: if_splits)
qed

section \<open>Round robin\<close>

definition rotate_ready :: "nat \<Rightarrow> kstate \<Rightarrow> kstate" where
  "rotate_ready p s = s\<lparr>g_ready_queue := rq_head_to_tail p (g_ready_queue s)\<rparr>"

lemma kinv_ready_queue:
  assumes "kinv s" and "s' = s\<lparr>g_ready_queue := rq\<rparr>" and "inv_ready s'"
  shows "kinv s'"
proof (rule kinvI)
  note i = kinvD [OF assms(1)]
  show "inv_ready s'" by (rule assms(3))
  show "inv_blk s'" by (rule inv_blk_cong [OF _ _ _ _ i(2)]) (auto simp: assms(2))
  show "inv_tick s'" by (rule inv_tick_cong [OF _ _ _ _ _ i(3)]) (auto simp: assms(2))
  show "inv_tasks s'" "inv_idle s'" "no_fault s'"
    using i by (simp_all add: assms(2) inv_tasks_def inv_idle_def no_fault_def)
qed

lemma kernel_inv_rotate_ready:
  assumes "kernel_inv s"
  shows "kernel_inv (rotate_ready p s)"
proof -
  note i = kernel_invD [OF assms] and ki = kinvD [OF kernel_invD(1) [OF assms]]
  have "inv_ready (rotate_ready p s)"
    using ki(1) by (auto simp: inv_ready_def rotate_ready_def rq_head_to_tail_wf)
  then have "kinv (rotate_ready p s)" by (rule kinv_ready_queue [OF i(1) rotate_ready_def])
  moreover have "pi_inv (rotate_ready p s)"
    by (rule pi_inv_cong_same [OF i(1) _ _ _ _ _ i(2)])
      (use ki(2) in \<open>auto simp: inv_blk_def is_mutex_def rotate_ready_def\<close>)
  ultimately show ?thesis by (simp add: kernel_inv_def)
qed

lemma kernel_inv_time_slice_update:
  assumes k: "kernel_inv s"
  shows "kernel_inv (time_slice_update s)"
proof -
  let ?p = "prio (tcb s (g_active_task s))"
  show ?thesis
  proof (cases "cur_list_item (g_ready_queue s) ?p")
    case Nil
    then show ?thesis using k by (simp add: time_slice_update_def)
  next
    case (Cons task rest)
    then have pt: "prio (tcb s task) = ?p"
      using kinvD(1) [OF kernel_invD(1) [OF k]] by (force simp: inv_ready_def)
    let ?u = "upd_task task (\<lambda>k. k\<lparr>task_time_slice := task_time_slice k - 1\<rparr>) s"
    have u: "kernel_inv ?u" "kernel_inv s"
      using k by (auto intro!: kernel_inv_upd_task simp: same_core_def)
    have rot: "ready_list_head_to_tail task ?u = rotate_ready ?p ?u"
      "ready_list_head_to_tail task s = rotate_ready ?p s"
      using Cons pt by (simp_all add: ready_list_head_to_tail_def rotate_ready_def upd_task_def)
    have "kernel_inv (upd_task task (\<lambda>k. k\<lparr>task_time_slice := time_total k\<rparr>) (rotate_ready ?p s'))"
      if "kernel_inv s'" for s'
      using that by (intro kernel_inv_upd_task kernel_inv_rotate_ready) (auto simp: same_core_def)
    then show ?thesis using Cons u rot by (simp add: time_slice_update_def Let_def)
  qed
qed

lemma kernel_inv_tick_proc: "kernel_inv s \<Longrightarrow> kernel_inv (krhino_tick_proc s)"
  unfolding krhino_tick_proc_def
  by (intro kernel_inv_time_slice_update tick_list_update_ok(1)) simp_all

end
