(* ===== verification/K_SysInv.thy ===== *)
theory K_SysInv
  imports K_Own K_Tick
begin

text \<open>
  The scheduling invariant: outside of interrupts and with the scheduler unlocked the
  active task is the first task of the highest ready priority; a task that holds the
  scheduler lock is ready. \<open>core_sched\<close> establishes it, so every kernel call that ends with
  \<open>RHINO_CRITICAL_EXIT_SCHED\<close> keeps it as long as the rest of the invariant is kept.
\<close>

section \<open>The context of a call\<close>

text \<open>The globals that only the scheduler, the interrupt entry and exit and the start write.\<close>

definition ctx :: "kstate \<Rightarrow> u8 \<times> u8 \<times> tid \<times> kstat_t \<times> bool" where
  "ctx s = (g_sched_lock s, g_intrpt_nested_level s, g_active_task s, g_sys_stat s, g_idle_task_spawned s)"

lemma ctxD:
  assumes "ctx s' = ctx s"
  shows "g_sched_lock s' = g_sched_lock s" "g_intrpt_nested_level s' = g_intrpt_nested_level s"
    "g_active_task s' = g_active_task s" "g_sys_stat s' = g_sys_stat s"
    "g_idle_task_spawned s' = g_idle_task_spawned s"
  using assms by (simp_all add: ctx_def)

lemma ctx_record [simp]:
  "ctx (s\<lparr>g_ready_queue := rq\<rparr>) = ctx s" "ctx (s\<lparr>tcb := tc\<rparr>) = ctx s" "ctx (s\<lparr>g_tasks := ts\<rparr>) = ctx s"
  "ctx (s\<lparr>g_tick_head := th\<rparr>) = ctx s" "ctx (s\<lparr>g_tick_count := c\<rparr>) = ctx s"
  "ctx (s\<lparr>blk_objs := bo\<rparr>) = ctx s" "ctx (s\<lparr>mutexes := mu\<rparr>) = ctx s" "ctx (s\<lparr>sems := se\<rparr>) = ctx s"
  "ctx (s\<lparr>events := ev\<rparr>) = ctx s" "ctx (s\<lparr>queues := qu\<rparr>) = ctx s" "ctx (s\<lparr>buf_queues := bq\<rparr>) = ctx s"
  "ctx (s\<lparr>u8_mem := m8\<rparr>) = ctx s" "ctx (s\<lparr>u32_mem := m32\<rparr>) = ctx s"
  "ctx (s\<lparr>k_errs := er\<rparr>) = ctx s" "ctx (s\<lparr>k_fault := fa\<rparr>) = ctx s"
  by (simp_all add: ctx_def)

lemma ctx_basic [simp]:
  "ctx (upd_task t f s) = ctx s" "ctx (upd_blk ob g s) = ctx s" "ctx (k_err_proc e s) = ctx s"
  "ctx (fault s) = ctx s" "ctx (blk_list_rm t s) = ctx s" "ctx (ready_list_add_tail t s) = ctx s"
  "ctx (ready_list_add_head t s) = ctx s" "ctx (ready_list_add t s) = ctx s" "ctx (ready_list_rm t s) = ctx s"
  "ctx (ready_list_head_to_tail t s) = ctx s" "ctx (tick_list_insert t n s) = ctx s"
  "ctx (tick_list_rm t s) = ctx s"
  by (simp_all add: kupd ready_list_add_tail_def ready_list_add_head_def ready_list_add_def ready_list_rm_def
      ready_list_head_to_tail_def tick_list_insert_def tick_list_rm_def Let_def split: option.splits)

lemma ctx_pend [simp]:
  "ctx (pend_task_wakeup t s) = ctx s" "ctx (pend_task_rm t s) = ctx s"
  "ctx (pend_to_blk_obj ob t n s) = ctx s" "ctx (pend_list_reorder t s) = ctx s"
  by (simp_all add: pend_task_wakeup_def pend_task_rm_def pend_to_blk_obj_def pend_list_reorder_def Let_def
      split: task_stat_t.splits option.splits)

lemma ctx_unpend [simp]: "ctx (unpend b t s) = ctx s"
  by (simp add: unpend_defs ctx_def)

lemma ctx_pend_on [simp]: "ctx (pend_on ob t n s) = ctx s"
  by (simp add: pend_on_def Let_def ctx_def)

lemma ctx_prio_frame: "prio_frame s s' \<Longrightarrow> ctx s' = ctx s"
  by (auto simp: prio_frame_def ctx_def)

lemma ctx_mutex_pri_look: "ctx (snd (mutex_pri_look t r s)) = ctx s"
  by (simp add: mutex_pri_look_def split_beta Let_def)

lemma ctx_pri_change_round:
  "(case pri_change_round t p s of Inl (r, s') \<Rightarrow> ctx s' = ctx s | Inr (t', p', s') \<Rightarrow> ctx s' = ctx s)"
  using ctx_mutex_pri_look
  by (auto simp: pri_change_round_def pri_change_pend_def Let_def split_beta split: task_stat_t.splits option.splits)

lemma ctx_task_pri_change [simp]: "ctx (snd (task_pri_change t p s)) = ctx s"
proof -
  have "ctx (snd (task_pri_change_loop n t p s)) = ctx s" for n
  proof (induction n arbitrary: t p s)
    case (Suc n)
    then show ?case using ctx_pri_change_round [where t = t and p = p and s = s] by (auto split: sum.splits prod.splits)
  qed simp
  then show ?thesis by (simp only: task_pri_change_def)
qed

lemma ctx_mutex_release [simp]: "ctx (mutex_release t r s) = ctx s"
  using ctx_mutex_pri_look [of t r s] by (auto simp: mutex_release_def split: prod.splits)

lemma ctx_mutex_task_pri_reset [simp]: "ctx (mutex_task_pri_reset t s) = ctx s"
  by (simp add: mutex_task_pri_reset_def split: option.splits)

lemma ctx_own [simp]:
  "ctx (set_owner m ow n s) = ctx s" "ctx (push_mutex m t s) = ctx s" "ctx (take_mutex m t n s) = ctx s"
  "ctx (hand_over m t n s) = ctx s" "ctx (drop_mutex t rel s) = ctx s"
  by (simp_all add: set_owner_def push_mutex_def take_mutex_def hand_over_def drop_mutex_def)

lemma ctx_tick_expire [simp]: "ctx (tick_expire t s) = ctx s"
  by (simp add: tick_expire_def Let_def split: task_stat_t.splits)

lemma ctx_tick_list_update [simp]: "ctx (tick_list_update n s) = ctx s"
proof -
  have "ctx (tick_list_update_loop ts s) = ctx s" for ts s
    by (induction ts arbitrary: s) simp_all
  then show ?thesis by (simp add: tick_list_update_def)
qed

lemma ctx_time_slice_update [simp]: "ctx (time_slice_update s) = ctx s"
  by (auto simp: time_slice_update_def Let_def split: list.splits)

lemma ctx_tick_proc [simp]: "ctx (krhino_tick_proc s) = ctx s"
  by (simp add: krhino_tick_proc_def)

lemma ctx_wake_all: "(\<And>t s. ctx (f t s) = ctx s) \<Longrightarrow> ctx (wake_all f ob s) = ctx s"
proof -
  assume f: "\<And>t s. ctx (f t s) = ctx s"
  have "ctx (while_blk_list n f ob s) = ctx s" for n
    by (induction n arbitrary: s) (subst while_blk_list.simps, simp add: f split: list.splits)+
  then show ?thesis by (simp add: wake_all_def)
qed

section \<open>The invariant\<close>

definition active_rdy :: "kstate \<Rightarrow> bool" where
  "active_rdy s \<longleftrightarrow> task_state (tcb s (g_active_task s)) = K_RDY"

definition first_ready :: "kstate \<Rightarrow> tid" where
  "first_ready s = hd (cur_list_item (g_ready_queue s) (highest_pri (g_ready_queue s)))"

definition inv_running :: "kstate \<Rightarrow> bool" where
  "inv_running s \<longleftrightarrow>
     (g_sched_lock s > 0 \<longrightarrow> active_rdy s) \<and>
     (g_sched_lock s = 0 \<and> g_intrpt_nested_level s = 0 \<longrightarrow> g_active_task s = first_ready s)"

text \<open>After \<open>krhino_start\<close> the system is running, and it has its idle task.\<close>

definition booted :: "kstate \<Rightarrow> bool" where
  "booted s \<longleftrightarrow> g_sys_stat s = RHINO_RUNNING \<and> g_idle_task_spawned s"

definition sys_inv :: "kstate \<Rightarrow> bool" where
  "sys_inv s \<longleftrightarrow> kernel_inv s \<and> inv_running s \<and> booted s"

lemma sys_invD: "sys_inv s \<Longrightarrow> kernel_inv s" "sys_inv s \<Longrightarrow> kinv s" "sys_inv s \<Longrightarrow> inv_running s" "sys_inv s \<Longrightarrow> booted s"
  by (auto simp: sys_inv_def kernel_inv_def)

text \<open>The idle task makes the highest ready list non-empty.\<close>

lemma first_ready_props:
  assumes "kinv s"
  shows "cur_list_item (g_ready_queue s) (highest_pri (g_ready_queue s)) \<noteq> []"
    "task_state (tcb s (first_ready s)) = K_RDY"
    "prio (tcb s (first_ready s)) = highest_pri (g_ready_queue s)"
    "task_state (tcb s u) = K_RDY \<Longrightarrow> prio (tcb s (first_ready s)) \<le> prio (tcb s u)"
proof -
  let ?rq = "g_ready_queue s"
  have r: "inv_ready s" using assms by (rule kinvD)
  have i: "idle_tid \<in> set (cur_list_item ?rq RHINO_IDLE_PRI)"
    using r kinvD(5) [OF assms] by (simp add: inv_ready_def inv_idle_def)
  have wf: "rq_wf ?rq" using r by (simp add: inv_ready_def)
  show ne: "cur_list_item ?rq (highest_pri ?rq) \<noteq> []"
    using rq_wf_highest(3) [OF wf, of RHINO_IDLE_PRI] i by fastforce
  then have "first_ready s \<in> set (cur_list_item ?rq (highest_pri ?rq))" by (simp add: first_ready_def)
  then show "task_state (tcb s (first_ready s)) = K_RDY"
    and hp: "prio (tcb s (first_ready s)) = highest_pri ?rq"
    using r by (auto simp: inv_ready_def)
  assume u: "task_state (tcb s u) = K_RDY"
  then have "u \<in> set (cur_list_item ?rq (prio (tcb s u)))" using r by (simp add: inv_ready_def)
  then have "cur_list_item ?rq (prio (tcb s u)) \<noteq> []" by auto
  from rq_wf_highest(1) [OF wf this] show "prio (tcb s (first_ready s)) \<le> prio (tcb s u)"
    by (simp add: hp)
qed

lemma active_rdy_running: "kinv s \<Longrightarrow> inv_running s \<Longrightarrow> g_intrpt_nested_level s = 0 \<Longrightarrow> active_rdy s"
  using first_ready_props(2) by (cases "g_sched_lock s = 0") (auto simp: inv_running_def active_rdy_def word_gt_0)

lemma active_rdy_locked: "inv_running s \<Longrightarrow> g_sched_lock s > 0 \<Longrightarrow> active_rdy s"
  by (simp add: inv_running_def)

lemma sys_inv_rdy: "sys_inv s \<Longrightarrow> g_intrpt_nested_level s = 0 \<Longrightarrow> task_state (tcb s (g_active_task s)) = K_RDY"
  using active_rdy_running [of s] by (simp add: active_rdy_def sys_invD)

section \<open>The scheduler\<close>

lemma core_sched_eq:
  assumes "kinv s"
  shows "core_sched s =
    (if g_intrpt_nested_level s > 0 \<or> g_sched_lock s > 0 then s
     else s\<lparr>g_preferred_ready_task := first_ready s, g_active_task := first_ready s\<rparr>)"
  using first_ready_props(1) [OF assms]
  by (auto simp: core_sched_def preferred_cpu_ready_task_get_def cpu_task_switch_def first_ready_def Let_def
      split: list.splits intro: kstate.equality)

lemma kernel_inv_active:
  assumes "kernel_inv s"
  shows "kernel_inv (s\<lparr>g_preferred_ready_task := p, g_active_task := a\<rparr>)" (is "kernel_inv ?s")
proof -
  note k = kernel_invD [OF assms]
  have ks: "kinv ?s" by (rule kinv_cong [OF _ _ _ _ _ _ _ _ _ k(1)]) auto
  moreover have "pi_inv ?s"
    by (rule pi_inv_cong_same [OF k(1) kinvD(2) [OF ks] _ _ _ _ k(2)]) (auto simp: is_mutex_def)
  ultimately show ?thesis by (simp add: kernel_inv_def)
qed

lemma kernel_inv_core_sched: "kernel_inv s \<Longrightarrow> kernel_inv (core_sched s)"
  by (simp add: core_sched_eq [OF kernel_invD(1)] kernel_inv_active)

lemma core_sched_tcb [simp]: "kinv s \<Longrightarrow> tcb (core_sched s) = tcb s"
  "kinv s \<Longrightarrow> g_sched_lock (core_sched s) = g_sched_lock s"
  "kinv s \<Longrightarrow> g_intrpt_nested_level (core_sched s) = g_intrpt_nested_level s"
  "kinv s \<Longrightarrow> g_ready_queue (core_sched s) = g_ready_queue s"
  by (simp_all add: core_sched_eq)

lemma booted_core_sched: "kinv s \<Longrightarrow> booted s \<Longrightarrow> booted (core_sched s)"
  by (simp add: core_sched_eq booted_def)

lemma booted_ctx: "ctx s' = ctx s \<Longrightarrow> booted s \<Longrightarrow> booted s'"
  by (simp add: booted_def ctxD [of s' s])

lemma sys_inv_core_sched:
  assumes "kernel_inv s" and "g_sched_lock s > 0 \<Longrightarrow> active_rdy s" and "booted s"
  shows "sys_inv (core_sched s)"
proof -
  note k = kernel_invD(1) [OF assms(1)]
  have "inv_running (core_sched s)"
  proof (cases "g_intrpt_nested_level s > 0 \<or> g_sched_lock s > 0")
    case True
    then have "core_sched s = s" by (simp add: core_sched_eq [OF k])
    with True assms(2) show ?thesis by (auto simp: inv_running_def)
  next
    case False
    then show ?thesis by (simp add: core_sched_eq [OF k] inv_running_def first_ready_def)
  qed
  then show ?thesis
    using kernel_inv_core_sched [OF assms(1)] booted_core_sched [OF k assms(3)] by (simp add: sys_inv_def)
qed

text \<open>
  A call changes the state from \<open>s\<close> to \<open>s'\<close> and then schedules, or leaves the ready lists
  alone and does not schedule, or blocks the caller, which the scheduler lock forbids.
\<close>

definition keeps :: "kstate \<Rightarrow> kstate \<Rightarrow> bool" where
  "keeps s s' \<longleftrightarrow> ctx s' = ctx s \<and> (\<forall>u. task_state (tcb s u) = K_RDY \<longrightarrow> task_state (tcb s' u) = K_RDY)"

lemma keeps_refl [simp]: "keeps s s"
  by (simp add: keeps_def)

lemma keeps_trans [trans]: "keeps s s' \<Longrightarrow> keeps s' s'' \<Longrightarrow> keeps s s''"
  by (simp add: keeps_def)

lemma keepsI: "ctx s' = ctx s \<Longrightarrow> (\<And>u. task_state (tcb s u) = K_RDY \<Longrightarrow> task_state (tcb s' u) = K_RDY) \<Longrightarrow> keeps s s'"
  by (simp add: keeps_def)

lemma keepsD:
  assumes "keeps s s'"
  shows "ctx s' = ctx s" "active_rdy s \<Longrightarrow> active_rdy s'" "task_state (tcb s u) = K_RDY \<Longrightarrow> task_state (tcb s' u) = K_RDY"
  using assms by (simp_all add: keeps_def active_rdy_def ctxD(3) [of s' s])

lemma sys_inv_sched:
  assumes "sys_inv s" and "kernel_inv s'" and "keeps s s'"
  shows "sys_inv (core_sched s')"
  by (rule sys_inv_core_sched [OF assms(2)])
    (use assms(1) keepsD(2) [OF assms(3)] booted_ctx [OF keepsD(1) [OF assms(3)]] in
      \<open>simp_all add: sys_inv_def inv_running_def ctxD(1) [OF keepsD(1) [OF assms(3)]]\<close>)

lemma sys_inv_same:
  assumes "sys_inv s" and "kernel_inv s'" and "keeps s s'" and "g_ready_queue s' = g_ready_queue s"
  shows "sys_inv s'"
  using assms keepsD(2) [OF assms(3)] booted_ctx [OF keepsD(1) [OF assms(3)]]
  by (simp add: sys_inv_def inv_running_def first_ready_def ctxD [OF keepsD(1) [OF assms(3)]])

lemma sys_inv_block:
  assumes "sys_inv s" and "kernel_inv s'" and "ctx s' = ctx s" and "g_sched_lock s = 0"
  shows "sys_inv (core_sched s')"
  by (rule sys_inv_core_sched [OF assms(2) _ booted_ctx [OF assms(3) sys_invD(4) [OF assms(1)]]])
    (use assms(4) ctxD(1) [OF assms(3)] in simp)

section \<open>What the basic steps keep\<close>

lemma keeps_unpend: "pended (tcb s t) \<Longrightarrow> keeps s (unpend b t s)"
  by (rule keepsI) (auto simp: unpend_defs pended_def)

lemma keeps_prio_frame: "prio_frame s s' \<Longrightarrow> keeps s s'"
  by (rule keepsI) (simp_all add: ctx_prio_frame prio_frame_simps)

lemma keeps_take_mutex: "keeps s (take_mutex m t n s)"
  by (rule keepsI) simp_all

end
