(* ===== verification/K_Task.thy ===== *)
theory K_Task
  imports K_Tick
begin

text \<open>
  Tasks (\<^verbatim>\<open>core/k_task.c\<close>): creation, sleep, yield, suspend and resume, change of priority,
  abort of a wait, deletion, time slice and policy. Pointer checks that the configuration
  leaves empty (\<open>NULL_PARA_CHK\<close>) are not modelled; \<open>krhino_task_del(NULL)\<close> means the
  running task.
\<close>

section \<open>The functions\<close>

definition task_create ::
  "tid \<Rightarrow> nat \<Rightarrow> tick_t \<Rightarrow> nat \<Rightarrow> bool \<Rightarrow> alloc_flag \<Rightarrow> kstate \<Rightarrow> kstat_t \<times> kstate" where
  "task_create task pri ticks stk_size autorun flag s =
    (if stk_size = 0 then (RHINO_TASK_INV_STACK_SIZE, s)
     else if pri \<ge> RHINO_CONFIG_PRI_MAX then (RHINO_BEYOND_MAX_PRI, s)
     else if g_intrpt_nested_level s > 0 then (RHINO_NOT_CALLED_BY_INTRPT, s)
     else if pri = RHINO_IDLE_PRI \<and> g_idle_task_spawned s then (RHINO_IDLE_TASK_EXIST, s)
     else
       let s = (if pri = RHINO_IDLE_PRI then s\<lparr>g_idle_task_spawned := True\<rparr> else s);
           k = zero_task;
           k = (if ticks > 0 then k\<lparr>time_total := ucast ticks\<rparr>
                else k\<lparr>time_total := RHINO_CONFIG_TIME_SLICE_DEFAULT\<rparr>);
           k = k\<lparr>task_time_slice := time_total k, sched_policy := KSCHED_RR\<rparr>;
           k = (if autorun then k\<lparr>task_state := K_RDY\<rparr>
                else k\<lparr>task_state := K_SUSPENDED, suspend_count := 1\<rparr>);
           k = k\<lparr>prio := pri, b_prio := pri, stack_size := stk_size, mm_alloc_flag := flag\<rparr>;
           s = s\<lparr>tcb := (tcb s)(task := k)\<rparr>;
           s = s\<lparr>g_tasks := g_tasks s @ [task]\<rparr>
       in if autorun then
            let s = ready_list_add_tail task s
            in if g_sys_stat s = RHINO_RUNNING then (RHINO_SUCCESS, core_sched s) else (RHINO_SUCCESS, s)
          else (RHINO_SUCCESS, s))"

definition krhino_task_create ::
  "tid \<Rightarrow> nat \<Rightarrow> tick_t \<Rightarrow> nat \<Rightarrow> bool \<Rightarrow> kstate \<Rightarrow> kstat_t \<times> kstate" where
  "krhino_task_create task pri ticks stk_size autorun s =
     task_create task pri ticks stk_size autorun K_OBJ_STATIC_ALLOC s"

definition krhino_task_sleep :: "tick_t \<Rightarrow> kstate \<Rightarrow> kres \<times> kstate" where
  "krhino_task_sleep ticks s =
    (if ticks = 0 then (Ret RHINO_INV_PARAM, s)
     else if g_intrpt_nested_level s > 0 then (Ret RHINO_NOT_CALLED_BY_INTRPT, s)
     else if g_sched_lock s > 0 then (Ret RHINO_SCHED_DISABLE, s)
     else
       let s = upd_task (g_active_task s) (\<lambda>k. k\<lparr>task_state := K_SLEEP\<rparr>) s;
           s = tick_list_insert (g_active_task s) ticks s;
           s = ready_list_rm (g_active_task s) s
       in (Blocked, core_sched s))"

definition krhino_task_sleep_end :: "kstate \<Rightarrow> kstat_t \<times> kstate" where
  "krhino_task_sleep_end s = pend_state_end_proc (g_active_task s) s"

definition krhino_task_yield :: "kstate \<Rightarrow> kstat_t \<times> kstate" where
  "krhino_task_yield s =
    (let s = ready_list_head_to_tail (g_active_task s) s in (RHINO_SUCCESS, core_sched s))"

definition krhino_cur_task_get :: "kstate \<Rightarrow> tid" where
  "krhino_cur_task_get s = g_active_task s"

definition task_suspend :: "tid \<Rightarrow> kstate \<Rightarrow> kstat_t \<times> kstate" where
  "task_suspend task s =
    (if task = g_active_task s \<and> g_sched_lock s > 0 then (RHINO_SCHED_DISABLE, s)
     else case task_state (tcb s task) of
       K_RDY \<Rightarrow>
         let s = upd_task task (\<lambda>k. k\<lparr>suspend_count := 1\<rparr>) s;
             s = upd_task task (\<lambda>k. k\<lparr>task_state := K_SUSPENDED\<rparr>) s;
             s = ready_list_rm task s
         in (RHINO_SUCCESS, core_sched s)
     | K_SLEEP \<Rightarrow>
         let s = upd_task task (\<lambda>k. k\<lparr>suspend_count := 1\<rparr>) s;
             s = upd_task task (\<lambda>k. k\<lparr>task_state := K_SLEEP_SUSPENDED\<rparr>) s
         in (RHINO_SUCCESS, core_sched s)
     | K_PEND \<Rightarrow>
         let s = upd_task task (\<lambda>k. k\<lparr>suspend_count := 1\<rparr>) s;
             s = upd_task task (\<lambda>k. k\<lparr>task_state := K_PEND_SUSPENDED\<rparr>) s
         in (RHINO_SUCCESS, core_sched s)
     | K_SUSPENDED \<Rightarrow>
         if suspend_count (tcb s task) = - 1 then (RHINO_SUSPENDED_COUNT_OVF, s)
         else (RHINO_SUCCESS, core_sched (upd_task task (\<lambda>k. k\<lparr>suspend_count := suspend_count k + 1\<rparr>) s))
     | K_SLEEP_SUSPENDED \<Rightarrow>
         if suspend_count (tcb s task) = - 1 then (RHINO_SUSPENDED_COUNT_OVF, s)
         else (RHINO_SUCCESS, core_sched (upd_task task (\<lambda>k. k\<lparr>suspend_count := suspend_count k + 1\<rparr>) s))
     | K_PEND_SUSPENDED \<Rightarrow>
         if suspend_count (tcb s task) = - 1 then (RHINO_SUSPENDED_COUNT_OVF, s)
         else (RHINO_SUCCESS, core_sched (upd_task task (\<lambda>k. k\<lparr>suspend_count := suspend_count k + 1\<rparr>) s))
     | _ \<Rightarrow> (RHINO_INV_TASK_STATE, s))"

definition krhino_task_suspend :: "tid option \<Rightarrow> kstate \<Rightarrow> kstat_t \<times> kstate" where
  "krhino_task_suspend task s =
    (case task of
       None \<Rightarrow> (RHINO_NULL_PTR, s)
     | Some task \<Rightarrow>
         if prio (tcb s task) = RHINO_IDLE_PRI then (RHINO_TASK_SUSPEND_NOT_ALLOWED, s)
         else task_suspend task s)"

definition task_resume :: "tid \<Rightarrow> kstate \<Rightarrow> kstat_t \<times> kstate" where
  "task_resume task s =
    (case task_state (tcb s task) of
       K_RDY \<Rightarrow> (RHINO_TASK_NOT_SUSPENDED, s)
     | K_SLEEP \<Rightarrow> (RHINO_TASK_NOT_SUSPENDED, s)
     | K_PEND \<Rightarrow> (RHINO_TASK_NOT_SUSPENDED, s)
     | K_SUSPENDED \<Rightarrow>
         let s = upd_task task (\<lambda>k. k\<lparr>suspend_count := suspend_count k - 1\<rparr>) s;
             s = (if suspend_count (tcb s task) = 0
                  then ready_list_add task (upd_task task (\<lambda>k. k\<lparr>task_state := K_RDY\<rparr>) s) else s)
         in (RHINO_SUCCESS, core_sched s)
     | K_SLEEP_SUSPENDED \<Rightarrow>
         let s = upd_task task (\<lambda>k. k\<lparr>suspend_count := suspend_count k - 1\<rparr>) s;
             s = (if suspend_count (tcb s task) = 0
                  then upd_task task (\<lambda>k. k\<lparr>task_state := K_SLEEP\<rparr>) s else s)
         in (RHINO_SUCCESS, core_sched s)
     | K_PEND_SUSPENDED \<Rightarrow>
         let s = upd_task task (\<lambda>k. k\<lparr>suspend_count := suspend_count k - 1\<rparr>) s;
             s = (if suspend_count (tcb s task) = 0
                  then upd_task task (\<lambda>k. k\<lparr>task_state := K_PEND\<rparr>) s else s)
         in (RHINO_SUCCESS, core_sched s)
     | _ \<Rightarrow> (RHINO_INV_TASK_STATE, s))"

definition krhino_task_resume :: "tid \<Rightarrow> kstate \<Rightarrow> kstat_t \<times> kstate" where
  "krhino_task_resume task s = task_resume task s"

text \<open>The result carries the value written through \<open>old_pri\<close>.\<close>

definition krhino_task_pri_change :: "tid \<Rightarrow> nat \<Rightarrow> kstate \<Rightarrow> kstat_t \<times> nat option \<times> kstate" where
  "krhino_task_pri_change task pri s =
    (if prio (tcb s task) \<ge> RHINO_IDLE_PRI then (RHINO_PRI_CHG_NOT_ALLOWED, None, s)
     else if pri \<ge> RHINO_IDLE_PRI then (RHINO_PRI_CHG_NOT_ALLOWED, None, s)
     else if task_state (tcb s task) = K_DELETED then (RHINO_INV_TASK_STATE, None, s)
     else if g_intrpt_nested_level s > 0 then (RHINO_NOT_CALLED_BY_INTRPT, None, s)
     else
       let pri_limit = mutex_pri_limit task pri s;
           s = upd_task task (\<lambda>k. k\<lparr>b_prio := pri\<rparr>) s;
           old_pri = prio (tcb s task);
           (error, s) = task_pri_change task pri_limit s
       in if error \<noteq> RHINO_SUCCESS then (error, Some old_pri, s)
          else (RHINO_SUCCESS, Some old_pri, core_sched s))"

definition krhino_task_wait_abort :: "tid \<Rightarrow> kstate \<Rightarrow> kstat_t \<times> kstate" where
  "krhino_task_wait_abort task s =
    (if g_intrpt_nested_level s > 0 then (RHINO_NOT_CALLED_BY_INTRPT, s)
     else
       let abort_sleep = (\<lambda>s.
             let s = tick_list_rm task s;
                 s = ready_list_add task s;
                 s = upd_task task (\<lambda>k. k\<lparr>task_state := K_RDY\<rparr>) s
             in upd_task task (\<lambda>k. k\<lparr>blk_state := BLK_ABORT\<rparr>) s);
           abort_pend = (\<lambda>s.
             let s = tick_list_rm task s;
                 s = blk_list_rm task s;
                 s = ready_list_add task s;
                 s = upd_task task (\<lambda>k. k\<lparr>task_state := K_RDY\<rparr>) s;
                 s = upd_task task (\<lambda>k. k\<lparr>blk_state := BLK_ABORT\<rparr>) s;
                 s = mutex_task_pri_reset task s
             in upd_task task (\<lambda>k. k\<lparr>blk_obj := None\<rparr>) s)
       in case task_state (tcb s task) of
         K_RDY \<Rightarrow> (RHINO_SUCCESS, core_sched s)
       | K_SUSPENDED \<Rightarrow>
           (RHINO_SUCCESS, core_sched (ready_list_add task (upd_task task (\<lambda>k. k\<lparr>task_state := K_RDY\<rparr>) s)))
       | K_SLEEP \<Rightarrow> (RHINO_SUCCESS, core_sched (abort_sleep s))
       | K_SLEEP_SUSPENDED \<Rightarrow> (RHINO_SUCCESS, core_sched (abort_sleep s))
       | K_PEND_SUSPENDED \<Rightarrow> (RHINO_SUCCESS, core_sched (abort_pend s))
       | K_PEND \<Rightarrow> (RHINO_SUCCESS, core_sched (abort_pend s))
       | _ \<Rightarrow> (RHINO_INV_TASK_STATE, s))"

text \<open>
  The next mutex is read before a mutex is linked to its new owner, so the loop runs over
  the list as it was.
\<close>

fun task_mutex_free_loop :: "oid list \<Rightarrow> kstate \<Rightarrow> kstate" where
  "task_mutex_free_loop [] s = s"
| "task_mutex_free_loop (mutex # ms) s =
    (case blk_list (blk_objs s mutex) of
       [] \<Rightarrow> task_mutex_free_loop ms
              (s\<lparr>mutexes := (mutexes s)(mutex := (mutexes s mutex)\<lparr>mutex_task := None\<rparr>)\<rparr>)
     | next_task # _ \<Rightarrow>
         let s = pend_task_wakeup next_task s;
             s = s\<lparr>mutexes := (mutexes s)(mutex := (mutexes s mutex)\<lparr>mutex_task := Some next_task\<rparr>)\<rparr>;
             s = upd_task next_task (\<lambda>k. k\<lparr>mutex_list := mutex # mutex_list k\<rparr>) s
         in task_mutex_free_loop ms s)"

definition task_mutex_free :: "tid \<Rightarrow> kstate \<Rightarrow> kstate" where
  "task_mutex_free task s = task_mutex_free_loop (mutex_list (tcb s task)) s"

definition krhino_task_del :: "tid option \<Rightarrow> kstate \<Rightarrow> kstat_t \<times> kstate" where
  "krhino_task_del tsk s =
    (if g_intrpt_nested_level s > 0 then (RHINO_NOT_CALLED_BY_INTRPT, s)
     else
       let task = (case tsk of None \<Rightarrow> g_active_task s | Some t \<Rightarrow> t)
       in if prio (tcb s task) = RHINO_IDLE_PRI then (RHINO_TASK_DEL_NOT_ALLOWED, s)
          else if mm_alloc_flag (tcb s task) \<noteq> K_OBJ_STATIC_ALLOC then (RHINO_KOBJ_DEL_ERR, s)
          else if task = g_active_task s \<and> g_sched_lock s > 0 then (RHINO_SCHED_DISABLE, s)
          else
            let s = task_mutex_free task s;
                set_deleted = upd_task task (\<lambda>k. k\<lparr>task_state := K_DELETED\<rparr>);
                finish = (\<lambda>s. (RHINO_SUCCESS, core_sched (s\<lparr>g_tasks := remove1 task (g_tasks s)\<rparr>)))
            in case task_state (tcb s task) of
                 K_RDY \<Rightarrow> finish (set_deleted (ready_list_rm task s))
               | K_SUSPENDED \<Rightarrow> finish (set_deleted s)
               | K_SLEEP \<Rightarrow> finish (set_deleted (tick_list_rm task s))
               | K_SLEEP_SUSPENDED \<Rightarrow> finish (set_deleted (tick_list_rm task s))
               | K_PEND \<Rightarrow>
                   finish (mutex_task_pri_reset task (set_deleted (blk_list_rm task (tick_list_rm task s))))
               | K_PEND_SUSPENDED \<Rightarrow>
                   finish (mutex_task_pri_reset task (set_deleted (blk_list_rm task (tick_list_rm task s))))
               | _ \<Rightarrow> (RHINO_INV_TASK_STATE, s))"

text \<open>A task whose function returns ends here; deleting a task from the heap is compiled out.\<close>

definition krhino_task_deathbed :: "kstate \<Rightarrow> kstate" where
  "krhino_task_deathbed s =
    (let task = krhino_cur_task_get s
     in if mm_alloc_flag (tcb s task) = K_OBJ_DYN_ALLOC then s else snd (krhino_task_del None s))"

definition krhino_task_time_slice_set :: "tid \<Rightarrow> u32 \<Rightarrow> kstate \<Rightarrow> kstat_t \<times> kstate" where
  "krhino_task_time_slice_set task slc s =
    (if g_intrpt_nested_level s > 0 then (RHINO_NOT_CALLED_BY_INTRPT, s)
     else
       let s = (if slc > 0 then upd_task task (\<lambda>k. k\<lparr>time_total := slc\<rparr>) s
                else upd_task task (\<lambda>k. k\<lparr>time_total := RHINO_CONFIG_TIME_SLICE_DEFAULT\<rparr>) s)
       in (RHINO_SUCCESS, upd_task task (\<lambda>k. k\<lparr>task_time_slice := time_total k\<rparr>) s))"

text \<open>\<open>None\<close> is a number that is no policy.\<close>

definition krhino_sched_policy_set :: "tid \<Rightarrow> sched_policy_t option \<Rightarrow> kstate \<Rightarrow> kstat_t \<times> kstate" where
  "krhino_sched_policy_set task policy s =
    (case policy of
       None \<Rightarrow> (RHINO_INV_SCHED_WAY, s)
     | Some p \<Rightarrow>
         if g_intrpt_nested_level s > 0 then (RHINO_NOT_CALLED_BY_INTRPT, s)
         else (RHINO_SUCCESS, upd_task task (\<lambda>k. k\<lparr>sched_policy := p\<rparr>) s))"

definition krhino_sched_policy_get :: "tid \<Rightarrow> kstate \<Rightarrow> kstat_t \<times> sched_policy_t option" where
  "krhino_sched_policy_get task s =
    (if g_intrpt_nested_level s > 0 then (RHINO_NOT_CALLED_BY_INTRPT, None)
     else (RHINO_SUCCESS, Some (sched_policy (tcb s task))))"

end
