(* ===== verification/K_Event.thy ===== *)
theory K_Event
  imports K_Task
begin

text \<open>
  Event flag groups (\<^verbatim>\<open>core/k_event.c\<close>). A waiting task keeps what it waits for in its control
  block (\<open>pend_flags\<close>, \<open>pend_option\<close>) and the address where the flags are to be written
  (\<open>pend_info\<close>). \<open>event_set_loop\<close> is the walk over the waiting tasks; the next task is read
  before the current one is unlinked, so it is a walk over the list as it was.
\<close>

section \<open>Options\<close>

definition RHINO_FLAGS_AND_MASK :: u8 where "RHINO_FLAGS_AND_MASK = 2"
definition RHINO_FLAGS_CLEAR_MASK :: u8 where "RHINO_FLAGS_CLEAR_MASK = 1"
definition RHINO_AND :: u8 where "RHINO_AND = 2"
definition RHINO_AND_CLEAR :: u8 where "RHINO_AND_CLEAR = 3"
definition RHINO_OR :: u8 where "RHINO_OR = 0"
definition RHINO_OR_CLEAR :: u8 where "RHINO_OR_CLEAR = 1"

lemmas event_opts = RHINO_FLAGS_AND_MASK_def RHINO_FLAGS_CLEAR_MASK_def RHINO_AND_def RHINO_AND_CLEAR_def
  RHINO_OR_def RHINO_OR_CLEAR_def

text \<open>The test of \<open>krhino_event_get\<close> and of \<open>event_set\<close>.\<close>

definition event_status :: "u32 \<Rightarrow> u32 \<Rightarrow> u8 \<Rightarrow> bool" where
  "event_status evflags flags opt =
    (if opt AND RHINO_FLAGS_AND_MASK \<noteq> 0 then evflags AND flags = flags else evflags AND flags > 0)"

section \<open>The functions\<close>

definition upd_event :: "oid \<Rightarrow> (kevent_t \<Rightarrow> kevent_t) \<Rightarrow> kstate \<Rightarrow> kstate" where
  "upd_event ev f s = s\<lparr>events := (events s)(ev := f (events s ev))\<rparr>"

definition event_create :: "oid \<Rightarrow> u32 \<Rightarrow> alloc_flag \<Rightarrow> kstate \<Rightarrow> kstat_t \<times> kstate" where
  "event_create event flags flag s =
    (let s = upd_blk event (\<lambda>b. b\<lparr>blk_list := [], blk_policy := BLK_POLICY_PRI\<rparr>) s;
         s = upd_event event (\<lambda>e. e\<lparr>event_flags := flags, event_alloc_flag := flag\<rparr>) s;
         s = upd_blk event (\<lambda>b. b\<lparr>obj_type := RHINO_EVENT_OBJ_TYPE\<rparr>) s
     in (RHINO_SUCCESS, s))"

definition krhino_event_create :: "oid \<Rightarrow> u32 \<Rightarrow> kstate \<Rightarrow> kstat_t \<times> kstate" where
  "krhino_event_create event flags s = event_create event flags K_OBJ_STATIC_ALLOC s"

definition krhino_event_del :: "oid \<Rightarrow> kstate \<Rightarrow> kstat_t \<times> kstate" where
  "krhino_event_del event s =
    (if g_intrpt_nested_level s > 0 then (RHINO_NOT_CALLED_BY_INTRPT, s)
     else if obj_type (blk_objs s event) \<noteq> RHINO_EVENT_OBJ_TYPE then (RHINO_KOBJ_TYPE_ERR, s)
     else if event_alloc_flag (events s event) \<noteq> K_OBJ_STATIC_ALLOC then (RHINO_KOBJ_DEL_ERR, s)
     else
       let s = upd_blk event (\<lambda>b. b\<lparr>obj_type := RHINO_OBJ_TYPE_NONE\<rparr>) s;
           s = wake_all pend_task_rm event s;
           s = upd_event event (\<lambda>e. e\<lparr>event_flags := 0\<rparr>) s
       in (RHINO_SUCCESS, core_sched s))"

definition krhino_event_get :: "oid \<Rightarrow> u32 \<Rightarrow> u8 \<Rightarrow> nat \<Rightarrow> tick_t \<Rightarrow> kstate \<Rightarrow> kres \<times> kstate" where
  "krhino_event_get event flags opt actl_flags ticks s =
    (if opt \<noteq> RHINO_AND \<and> opt \<noteq> RHINO_OR \<and> opt \<noteq> RHINO_AND_CLEAR \<and> opt \<noteq> RHINO_OR_CLEAR
     then (Ret RHINO_NO_THIS_EVENT_OPT, s)
     else if g_intrpt_nested_level s > 0 then (Ret RHINO_NOT_CALLED_BY_INTRPT, s)
     else if obj_type (blk_objs s event) \<noteq> RHINO_EVENT_OBJ_TYPE then (Ret RHINO_KOBJ_TYPE_ERR, s)
     else if event_status (event_flags (events s event)) flags opt then
       let s = s\<lparr>u32_mem := (u32_mem s)(actl_flags := event_flags (events s event))\<rparr>;
           s = (if opt AND RHINO_FLAGS_CLEAR_MASK \<noteq> 0
                then upd_event event (\<lambda>e. e\<lparr>event_flags := event_flags e AND NOT flags\<rparr>) s else s)
       in (Ret RHINO_SUCCESS, s)
     else if ticks = RHINO_NO_WAIT then (Ret RHINO_NO_PEND_WAIT, s)
     else if g_sched_lock s > 0 then (Ret RHINO_SCHED_DISABLE, s)
     else
       let s = upd_task (g_active_task s) (\<lambda>k. k\<lparr>pend_flags := flags, pend_info := actl_flags, pend_option := opt\<rparr>) s;
           s = pend_to_blk_obj event (g_active_task s) ticks s
       in (Blocked, core_sched s))"

definition krhino_event_get_end :: "kstate \<Rightarrow> kstat_t \<times> kstate" where
  "krhino_event_get_end s = pend_state_end_proc (g_active_task s) s"

fun event_set_loop :: "oid \<Rightarrow> u32 \<Rightarrow> tid list \<Rightarrow> kstate \<Rightarrow> kstate" where
  "event_set_loop event cur [] s = s"
| "event_set_loop event cur (task # ts) s =
    (let s = (if event_status cur (pend_flags (tcb s task)) (pend_option (tcb s task)) then
                let s = s\<lparr>u32_mem := (u32_mem s)(pend_info (tcb s task) := cur)\<rparr>;
                    s = pend_task_wakeup task s
                in if pend_option (tcb s task) AND RHINO_FLAGS_CLEAR_MASK \<noteq> 0
                   then upd_event event (\<lambda>e. e\<lparr>event_flags := event_flags e AND NOT (pend_flags (tcb s task))\<rparr>) s
                   else s
              else s)
     in event_set_loop event cur ts s)"

definition event_set :: "oid \<Rightarrow> u32 \<Rightarrow> u8 \<Rightarrow> kstate \<Rightarrow> kstat_t \<times> kstate" where
  "event_set event flags opt s =
    (if obj_type (blk_objs s event) \<noteq> RHINO_EVENT_OBJ_TYPE then (RHINO_KOBJ_TYPE_ERR, s)
     else if opt AND RHINO_FLAGS_AND_MASK \<noteq> 0 then
       (RHINO_SUCCESS, upd_event event (\<lambda>e. e\<lparr>event_flags := event_flags e AND flags\<rparr>) s)
     else
       let s = upd_event event (\<lambda>e. e\<lparr>event_flags := event_flags e OR flags\<rparr>) s;
           s = event_set_loop event (event_flags (events s event)) (blk_list (blk_objs s event)) s
       in (RHINO_SUCCESS, core_sched s))"

definition krhino_event_set :: "oid \<Rightarrow> u32 \<Rightarrow> u8 \<Rightarrow> kstate \<Rightarrow> kstat_t \<times> kstate" where
  "krhino_event_set event flags opt s =
    (if opt \<noteq> RHINO_AND \<and> opt \<noteq> RHINO_OR then (RHINO_NO_THIS_EVENT_OPT, s)
     else event_set event flags opt s)"

end
