(* ===== verification/K_ObjInv.thy ===== *)
theory K_ObjInv
  imports K_SysInv K_Event
begin

text \<open>
  What the calls on blocking objects share. An object other than a mutex takes part in the
  invariant only through its list of waiting tasks: writing its data keeps the invariant,
  blocking the running task on it keeps the invariant, and so does waking the tasks that
  wait for it, one (\<open>waker\<close>) or all. \<open>inv_wait\<close> says that no wake-up is lost: no task waits
  for an object that could serve it.
\<close>

section \<open>Writing the data of an object\<close>

lemma kernel_inv_cong:
  assumes k: "kernel_inv s"
    and "g_ready_queue s' = g_ready_queue s" and "g_tick_head s' = g_tick_head s"
    and "g_tick_count s' = g_tick_count s" and "g_tasks s' = g_tasks s"
    and "k_fault s' = k_fault s" and "k_errs s' = k_errs s"
    and t: "\<And>u. same_core (tcb s' u) (tcb s u)"
    and l: "\<And>ob. blk_list (blk_objs s' ob) = blk_list (blk_objs s ob)"
    and p: "\<And>ob. blk_policy (blk_objs s' ob) = blk_policy (blk_objs s ob) \<or> blk_list (blk_objs s ob) = []"
    and m: "\<And>m. is_mutex s' m = is_mutex s m"
      "\<And>m. is_mutex s m \<Longrightarrow> mutex_task (mutexes s' m) = mutex_task (mutexes s m)"
      "\<And>m. is_mutex s m \<Longrightarrow> blk_policy (blk_objs s' m) = blk_policy (blk_objs s m)"
  shows "kernel_inv s'"
proof -
  note i = kernel_invD [OF k]
  have k': "kinv s'"
    by (rule kinv_cong [OF assms(2-7) l _ t i(1)]) (metis p)
  moreover have "pi_inv s'"
    by (rule pi_inv_cong_same [OF i(1) kinvD(2) [OF k'] _ _ m(1) _ i(2)])
      (use t m l in \<open>auto simp: same_core_def live_def\<close>)
  ultimately show ?thesis by (simp add: kernel_inv_def)
qed

lemma kernel_inv_upd_blk:
  assumes "kernel_inv s" and "\<not> is_mutex s ob" and "blk_list (blk_objs s ob) = []"
    and "blk_list (f (blk_objs s ob)) = []" and "obj_type (f (blk_objs s ob)) \<noteq> RHINO_MUTEX_OBJ_TYPE"
  shows "kernel_inv (upd_blk ob f s)"
  by (rule kernel_inv_cong [OF assms(1)]) (use assms in \<open>auto simp: upd_blk_def is_mutex_def\<close>)

text \<open>Taking the type off an object that is no mutex keeps its waiting tasks.\<close>

lemma kernel_inv_retype:
  assumes "kernel_inv s" and "\<not> is_mutex s ob"
  shows "kernel_inv (upd_blk ob (\<lambda>b. b\<lparr>obj_type := RHINO_OBJ_TYPE_NONE\<rparr>) s)"
  by (rule kernel_inv_cong [OF assms(1)]) (use assms in \<open>auto simp: upd_blk_def is_mutex_def\<close>)

lemma kernel_inv_data:
  assumes "kernel_inv s"
  shows "kernel_inv (s\<lparr>sems := se\<rparr>)" "kernel_inv (s\<lparr>events := ev\<rparr>)" "kernel_inv (s\<lparr>queues := qu\<rparr>)"
    "kernel_inv (s\<lparr>buf_queues := bq\<rparr>)" "kernel_inv (s\<lparr>u8_mem := m8\<rparr>)" "kernel_inv (s\<lparr>u32_mem := m32\<rparr>)"
  by (rule kernel_inv_cong [OF assms]; simp add: is_mutex_def)+

lemma keeps_data:
  "keeps s (s\<lparr>sems := se\<rparr>)" "keeps s (s\<lparr>events := ev\<rparr>)" "keeps s (s\<lparr>queues := qu\<rparr>)"
  "keeps s (s\<lparr>buf_queues := bq\<rparr>)" "keeps s (s\<lparr>u8_mem := m8\<rparr>)" "keeps s (s\<lparr>u32_mem := m32\<rparr>)"
  "keeps s (upd_blk ob f s)"
  by (rule keepsI; simp add: upd_blk_def)+

lemma sys_inv_data:
  assumes "sys_inv s"
  shows "sys_inv (s\<lparr>sems := se\<rparr>)" "sys_inv (s\<lparr>events := ev\<rparr>)" "sys_inv (s\<lparr>queues := qu\<rparr>)"
    "sys_inv (s\<lparr>buf_queues := bq\<rparr>)" "sys_inv (s\<lparr>u8_mem := m8\<rparr>)" "sys_inv (s\<lparr>u32_mem := m32\<rparr>)"
  by (rule sys_inv_same [OF assms kernel_inv_data(1) [OF sys_invD(1) [OF assms]] keeps_data(1)]
      sys_inv_same [OF assms kernel_inv_data(2) [OF sys_invD(1) [OF assms]] keeps_data(2)]
      sys_inv_same [OF assms kernel_inv_data(3) [OF sys_invD(1) [OF assms]] keeps_data(3)]
      sys_inv_same [OF assms kernel_inv_data(4) [OF sys_invD(1) [OF assms]] keeps_data(4)]
      sys_inv_same [OF assms kernel_inv_data(5) [OF sys_invD(1) [OF assms]] keeps_data(5)]
      sys_inv_same [OF assms kernel_inv_data(6) [OF sys_invD(1) [OF assms]] keeps_data(6)]; simp)+

lemma sys_inv_upd_blk:
  assumes "sys_inv s" and "\<not> is_mutex s ob" and "blk_list (blk_objs s ob) = []"
    and "blk_list (f (blk_objs s ob)) = []" and "obj_type (f (blk_objs s ob)) \<noteq> RHINO_MUTEX_OBJ_TYPE"
  shows "sys_inv (upd_blk ob f s)"
  by (rule sys_inv_same [OF assms(1) kernel_inv_upd_blk [where f = f, OF sys_invD(1) [OF assms(1)] assms(2-)] keeps_data(7)])
    (simp add: upd_blk_def)

lemma sys_inv_upd_task:
  assumes "sys_inv s" and "same_core (f (tcb s t)) (tcb s t)"
  shows "sys_inv (upd_task t f s)"
  by (rule sys_inv_same [OF assms(1) kernel_inv_upd_task [where f = f, OF sys_invD(1) [OF assms(1)] assms(2)] keepsI])
    (use assms(2) in \<open>auto simp: upd_task_def same_core_def\<close>)

section \<open>No lost wake-up\<close>

text \<open>
  Can object \<open>ob\<close> serve a task with control block \<open>k\<close>? A free mutex never has waiting tasks
  (\<open>mtx_struct\<close>), so mutexes are left out; a deleted object counts as serving everyone,
  which makes the invariant say that it has no waiting task.
\<close>

definition can_serve :: "kstate \<Rightarrow> oid \<Rightarrow> ktask_t \<Rightarrow> bool" where
  "can_serve s ob k =
    (case obj_type (blk_objs s ob) of
       RHINO_SEM_OBJ_TYPE \<Rightarrow> sem_count (sems s ob) > 0
     | RHINO_QUEUE_OBJ_TYPE \<Rightarrow> q_cur_num (queues s ob) > 0
     | RHINO_BUF_QUEUE_OBJ_TYPE \<Rightarrow> \<not> ringbuf_is_empty (bq_ringbuf (buf_queues s ob))
     | RHINO_EVENT_OBJ_TYPE \<Rightarrow> event_status (event_flags (events s ob)) (pend_flags k) (pend_option k)
     | RHINO_OBJ_TYPE_NONE \<Rightarrow> True
     | _ \<Rightarrow> False)"

lemma can_serve_upd_task [simp]: "can_serve (upd_task t f s) ob k = can_serve s ob k"
  by (simp add: can_serve_def upd_task_def cong: kobj_type_t.case_cong)

definition inv_wait :: "kstate \<Rightarrow> bool" where
  "inv_wait s \<longleftrightarrow> (\<forall>ob. \<forall>t\<in>set (blk_list (blk_objs s ob)). \<not> can_serve s ob (tcb s t))"

lemma inv_wait_idle:
  assumes "inv_wait s" and "\<And>k. can_serve s ob k"
  shows "blk_list (blk_objs s ob) = []"
  using assms unfolding inv_wait_def by (metis list.set_intros(1) neq_Nil_conv)

definition objs :: "kstate \<Rightarrow> _" where
  "objs s = (sems s, events s, queues s, buf_queues s, \<lambda>ob. obj_type (blk_objs s ob),
     \<lambda>t. pend_flags (tcb s t), \<lambda>t. pend_option (tcb s t))"

lemma objsD:
  assumes "objs s' = objs s"
  shows "sems s' = sems s" "events s' = events s" "queues s' = queues s" "buf_queues s' = buf_queues s"
    "obj_type (blk_objs s' ob) = obj_type (blk_objs s ob)" "pend_flags (tcb s' t) = pend_flags (tcb s t)"
    "pend_option (tcb s' t) = pend_option (tcb s t)"
  using assms by (auto simp: objs_def dest: fun_cong)

lemma inv_wait_enter:
  assumes "inv_wait s" and "objs s' = objs s"
    and "\<And>o'. set (blk_list (blk_objs s' o')) \<subseteq> set (blk_list (blk_objs s o')) \<union> (if o' = ob then T else {})"
    and "\<And>t. t \<in> T \<Longrightarrow> \<not> can_serve s ob (tcb s t)"
  shows "inv_wait s'"
proof -
  have "can_serve s' o' (tcb s' t) = can_serve s o' (tcb s t)" for o' t
    unfolding can_serve_def objsD [OF assms(2)] by (rule refl)
  then show ?thesis using assms(1,3,4) unfolding inv_wait_def by (fastforce split: if_splits)
qed

lemma inv_wait_shrink:
  assumes "inv_wait s" and "objs s' = objs s"
    and "\<And>ob. set (blk_list (blk_objs s' ob)) \<subseteq> set (blk_list (blk_objs s ob))"
  shows "inv_wait s'"
  by (rule inv_wait_enter [OF assms(1,2), where T = "{}"]) (use assms(3) in auto)

text \<open>A change of one object leaves the tasks that wait for the others alone.\<close>

lemma inv_wait_one:
  assumes "inv_wait s"
    and "\<And>o'. o' \<noteq> ob \<Longrightarrow> blk_list (blk_objs s' o') = blk_list (blk_objs s o')"
    and "\<And>o' k. o' \<noteq> ob \<Longrightarrow> can_serve s' o' k = can_serve s o' k"
    and "\<And>t. pend_flags (tcb s' t) = pend_flags (tcb s t)" "\<And>t. pend_option (tcb s' t) = pend_option (tcb s t)"
    and "\<And>t. t \<in> set (blk_list (blk_objs s' ob)) \<Longrightarrow> \<not> can_serve s' ob (tcb s' t)"
  shows "inv_wait s'"
proof -
  have "can_serve s o' (tcb s' t) = can_serve s o' (tcb s t)" for o' t
    unfolding can_serve_def assms(4,5) by (rule refl)
  then show ?thesis using assms(1,2,3,6) unfolding inv_wait_def by metis
qed

lemma objs_simps [simp]:
  "objs (unpend b t s) = objs s" "objs (pend_on ob t n s) = objs s"
  "objs (s\<lparr>g_preferred_ready_task := t, g_active_task := a\<rparr>) = objs s"
  "objs (take_mutex m t c s) = objs s" "objs (set_owner m ow c s) = objs s" "objs (drop_mutex t rel s) = objs s"
  by (auto simp: objs_def unpend_defs pend_on_def set_timeout_def take_mutex_def push_mutex_def
      set_owner_def drop_mutex_def fun_eq_iff Let_def)

lemma objs_core_sched [simp]: "kinv s \<Longrightarrow> objs (core_sched s) = objs s"
  by (simp add: core_sched_eq)

lemma blk_objs_core_sched [simp]: "kinv s \<Longrightarrow> blk_objs (core_sched s) = blk_objs s"
  by (simp add: core_sched_eq)

lemma objs_prio_frame: "prio_frame s s' \<Longrightarrow> objs s' = objs s"
proof -
  assume f: "prio_frame s s'"
  have "pend_flags (tcb s' u) = pend_flags (tcb s u) \<and> pend_option (tcb s' u) = pend_option (tcb s u)" for u
    using f unfolding prio_frame_def by (metis ktask_t.select_convs(15,17) ktask_t.surjective ktask_t.update_convs(19))
  then show ?thesis using f by (simp add: objs_def fun_eq_iff prio_frame_simps)
qed

lemma inv_wait_core_sched: "kinv s \<Longrightarrow> inv_wait s \<Longrightarrow> inv_wait (core_sched s)"
  by (rule inv_wait_shrink [of s]) simp_all

section \<open>Blocking on an object\<close>

lemma sys_inv_pend:
  assumes s: "sys_inv s" and g: "g_intrpt_nested_level s = 0" "g_sched_lock s = 0"
    and a: "g_active_task s \<noteq> idle_tid" and m: "\<not> is_mutex s ob"
    and time: "timeout = RHINO_WAIT_FOREVER \<or> timeout < 2 ^ 63"
  shows "sys_inv (core_sched (pend_to_blk_obj ob (g_active_task s) timeout s))"
proof -
  note r = sys_inv_rdy [OF s g(1)]
  have "kernel_inv (pend_on ob (g_active_task s) timeout s)"
    by (rule kernel_inv_pend_on [OF sys_invD(1) [OF s] r a time m])
  then show ?thesis
    unfolding pend_to_blk_obj_eq [OF sys_invD(2) [OF s] r a] by (rule sys_inv_block [OF s _ _ g(2)]) simp
qed

lemma inv_wait_pend:
  assumes s: "sys_inv s" "inv_wait s" and g: "g_intrpt_nested_level s = 0"
    and a: "g_active_task s \<noteq> idle_tid" and m: "\<not> is_mutex s ob"
    and time: "timeout = RHINO_WAIT_FOREVER \<or> timeout < 2 ^ 63"
    and c: "\<not> can_serve s ob (tcb s (g_active_task s))"
  shows "inv_wait (core_sched (pend_to_blk_obj ob (g_active_task s) timeout s))"
proof -
  note r = sys_inv_rdy [OF s(1) g] and k = sys_invD(1,2) [OF s(1)]
  have "inv_wait (pend_on ob (g_active_task s) timeout s)"
    by (rule inv_wait_enter [OF s(2), where T = "{g_active_task s}"]) (use c in auto)
  then show ?thesis unfolding pend_to_blk_obj_eq [OF k(2) r a]
    by (rule inv_wait_core_sched [OF kinv_pend_on [OF k(2) r a time]])
qed

section \<open>Waking waiting tasks\<close>

locale waker =
  fixes wake :: "tid \<Rightarrow> kstate \<Rightarrow> kstate"
  assumes wake_inv: "kernel_inv s \<Longrightarrow> t \<in> set (blk_list (blk_objs s ob)) \<Longrightarrow> \<not> is_mutex s ob \<Longrightarrow> kernel_inv (wake t s)"
    and wake_list: "kinv s \<Longrightarrow> pended (tcb s t) \<Longrightarrow>
      blk_list (blk_objs (wake t s) ob) = remove1 t (blk_list (blk_objs s ob))"
    and wake_keeps: "kinv s \<Longrightarrow> pended (tcb s t) \<Longrightarrow> keeps s (wake t s)"
    and wake_objs: "kinv s \<Longrightarrow> pended (tcb s t) \<Longrightarrow> objs (wake t s) = objs s"
begin

lemma sys_inv_wake:
  assumes "sys_inv s" and "t \<in> set (blk_list (blk_objs s ob))" and "\<not> is_mutex s ob"
  shows "sys_inv (core_sched (wake t s))"
  by (rule sys_inv_sched [OF assms(1) wake_inv [OF sys_invD(1) [OF assms(1)] assms(2,3)] wake_keeps])
    (use kinv_first_pended [OF sys_invD(2) [OF assms(1)] assms(2)] sys_invD(2) [OF assms(1)] in auto)

lemma wake_all_ok:
  assumes k: "kernel_inv s" and m: "\<not> is_mutex s ob"
  shows "kernel_inv (wake_all wake ob s)" "keeps s (wake_all wake ob s)"
    "blk_list (blk_objs (wake_all wake ob s) ob) = []"
    "objs (wake_all wake ob s) = objs s"
    "set (blk_list (blk_objs (wake_all wake ob s) o')) \<subseteq> set (blk_list (blk_objs s o'))"
proof -
  let ?P = "\<lambda>s'. kernel_inv s' \<and> keeps s s' \<and> objs s' = objs s \<and>
    (\<forall>o'. set (blk_list (blk_objs s' o')) \<subseteq> set (blk_list (blk_objs s o')))"
  have "kinv (wake_all wake ob s) \<and> ?P (wake_all wake ob s) \<and> blk_list (blk_objs (wake_all wake ob s) ob) = []"
  proof (rule wake_all_induct [OF kernel_invD(1) [OF k]])
    show "?P s" using k by simp
    fix t s' assume k': "kinv s'" and P: "?P s'" and t: "t \<in> set (blk_list (blk_objs s' ob))"
    have p: "pended (tcb s' t)" using kinv_first_pended [OF k' t] by simp
    have "\<not> is_mutex s' ob" using P m objsD(5) [of s' s ob] by (simp add: is_mutex_def)
    moreover have "set (blk_list (blk_objs (wake t s') o')) \<subseteq> set (blk_list (blk_objs s o'))" for o'
      using P set_remove1_subset unfolding wake_list [OF k' p] by fast
    ultimately show "kinv (wake t s') \<and> ?P (wake t s') \<and>
        blk_list (blk_objs (wake t s') ob) = remove1 t (blk_list (blk_objs s' ob))"
      using wake_inv [OF _ t] wake_list [OF k' p] wake_keeps [OF k' p] wake_objs [OF k' p] P keeps_trans
      by (auto dest: kernel_invD(1))
  qed
  then show "kernel_inv (wake_all wake ob s)" "keeps s (wake_all wake ob s)"
    "blk_list (blk_objs (wake_all wake ob s) ob) = []"
    "objs (wake_all wake ob s) = objs s"
    "set (blk_list (blk_objs (wake_all wake ob s) o')) \<subseteq> set (blk_list (blk_objs s o'))"
    by auto
qed

lemma inv_wait_wake:
  assumes "kernel_inv s" and "t \<in> set (blk_list (blk_objs s ob))" and "\<not> is_mutex s ob" and "inv_wait s"
  shows "inv_wait (core_sched (wake t s))"
proof -
  have p: "pended (tcb s t)" using kinv_first_pended [OF kernel_invD(1) [OF assms(1)] assms(2)] by simp
  note l = wake_list [OF kernel_invD(1) [OF assms(1)] p] and o = wake_objs [OF kernel_invD(1) [OF assms(1)] p]
  have "inv_wait (wake t s)" by (rule inv_wait_shrink [OF assms(4) o]) (simp add: l set_remove1_subset)
  then show ?thesis by (rule inv_wait_core_sched [OF kernel_invD(1) [OF wake_inv [OF assms(1-3)]]])
qed

lemma inv_wait_wake_all:
  assumes "kernel_inv s" and "\<not> is_mutex s ob" and "inv_wait s"
  shows "inv_wait (core_sched (wake_all wake ob s))"
  by (rule inv_wait_core_sched [OF kernel_invD(1) [OF wake_all_ok(1) [OF assms(1,2)]]
        inv_wait_shrink [OF assms(3) wake_all_ok(4,5) [OF assms(1,2)]]])

lemma sys_inv_wake_all: "sys_inv s \<Longrightarrow> \<not> is_mutex s ob \<Longrightarrow> sys_inv (core_sched (wake_all wake ob s))"
  by (rule sys_inv_sched [OF _ wake_all_ok(1,2)]) (auto dest: sys_invD)

end

interpretation wakeup: waker pend_task_wakeup
proof
  show "kernel_inv (pend_task_wakeup t s)"
    if "kernel_inv s" "t \<in> set (blk_list (blk_objs s ob))" "\<not> is_mutex s ob" for s t ob
    using kernel_inv_unpend [OF that] kinv_first_pended [OF kernel_invD(1) [OF that(1)] that(2)]
    by (simp add: pend_task_wakeup_eq kinvD(3) kernel_invD(1) that(1))
qed (simp_all add: pend_task_wakeup_eq kinvD(3) keeps_unpend)

interpretation remover: waker pend_task_rm
proof
  show "kernel_inv (pend_task_rm t s)"
    if "kernel_inv s" "t \<in> set (blk_list (blk_objs s ob))" "\<not> is_mutex s ob" for s t ob
    using kernel_inv_unpend [OF that] kinv_first_pended [OF kernel_invD(1) [OF that(1)] that(2)]
    by (simp add: pend_task_rm_eq kinvD(3) kernel_invD(1) that(1))
qed (simp_all add: pend_task_rm_eq kinvD(3) keeps_unpend)

text \<open>Waking a task after a message was left for it, in memory and in its control block.\<close>

locale payload =
  fixes load :: "tid \<Rightarrow> kstate \<Rightarrow> kstate"
  assumes load: "\<exists>f m. load t s = upd_task t f (s\<lparr>u8_mem := m\<rparr>) \<and> same_core (f (tcb s t)) (tcb s t) \<and>
    pend_flags (f (tcb s t)) = pend_flags (tcb s t) \<and> pend_option (f (tcb s t)) = pend_option (tcb s t)"
begin

lemma load_frame:
  "kernel_inv s \<Longrightarrow> kernel_inv (load t s)" "kinv s \<Longrightarrow> kinv (load t s)" "blk_objs (load t s) = blk_objs s"
  "task_state (tcb (load t s) u) = task_state (tcb s u)" "objs (load t s) = objs s" "ctx (load t s) = ctx s"
proof -
  obtain f m where l: "load t s = upd_task t f (s\<lparr>u8_mem := m\<rparr>)" "same_core (f (tcb s t)) (tcb s t)"
    "pend_flags (f (tcb s t)) = pend_flags (tcb s t)" "pend_option (f (tcb s t)) = pend_option (tcb s t)"
    using load by blast
  show "kernel_inv s \<Longrightarrow> kernel_inv (load t s)"
    unfolding l(1) by (rule kernel_inv_upd_task [OF kernel_inv_data(5)]) (simp_all add: l)
  have "kinv s \<Longrightarrow> kinv (s\<lparr>u8_mem := m\<rparr>)" by (rule kinv_cong [of _ s]) simp_all
  then show "kinv s \<Longrightarrow> kinv (load t s)" unfolding l(1) by (rule kinv_upd_task) (simp_all add: l)
  show "blk_objs (load t s) = blk_objs s" "task_state (tcb (load t s) u) = task_state (tcb s u)"
    "objs (load t s) = objs s" "ctx (load t s) = ctx s"
    using l by (auto simp: upd_task_def same_core_def objs_def fun_eq_iff)
qed

lemma load_wake:
  assumes "kinv s" and "pended (tcb s t)"
  shows "pend_task_wakeup t (load t s) = unpend BLK_FINISH t (load t s)"
  by (rule pend_task_wakeup_eq) (use assms load_frame in \<open>auto simp: pended_def intro: kinvD(3)\<close>)

lemma load_waker: "waker (\<lambda>t s. pend_task_wakeup t (load t s))"
proof
  show "kernel_inv (pend_task_wakeup t (load t s))"
    if "kernel_inv s" "t \<in> set (blk_list (blk_objs s ob))" "\<not> is_mutex s ob" for s t ob
    using that by (intro wakeup.wake_inv [where ob = ob]) (simp_all add: load_frame is_mutex_def)
  show "keeps s (pend_task_wakeup t (load t s))" if "kinv s" "pended (tcb s t)" for s t
    using wakeup.wake_keeps [of "load t s" t] that load_frame by (auto simp: keeps_def pended_def)
qed (simp_all add: load_wake load_frame)

end

lemma inv_wait_deleted:
  assumes w: "inv_wait s" and o: "objs s' = objs (upd_blk ob (\<lambda>b. b\<lparr>obj_type := RHINO_OBJ_TYPE_NONE\<rparr>) s)"
    and e: "blk_list (blk_objs s' ob) = []"
    and sub: "\<And>o'. o' \<noteq> ob \<Longrightarrow> set (blk_list (blk_objs s' o')) \<subseteq> set (blk_list (blk_objs s o'))"
  shows "inv_wait s'"
proof -
  have "\<not> can_serve s' o' (tcb s' t)" if t: "t \<in> set (blk_list (blk_objs s' o'))" for o' t
  proof -
    have n: "o' \<noteq> ob" using t e by auto
    have "t \<in> set (blk_list (blk_objs s o'))" using subsetD [OF sub [OF n] t] .
    then have "\<not> can_serve s o' (tcb s t)" using w by (simp add: inv_wait_def)
    then show ?thesis using n unfolding can_serve_def objsD [OF o] by (simp add: upd_blk_def cong: kobj_type_t.case_cong)
  qed
  then show ?thesis by (simp add: inv_wait_def)
qed

text \<open>Deleting an object: its type goes, its waiting tasks are woken.\<close>

lemma sys_inv_del:
  assumes s: "sys_inv s" and m: "\<not> is_mutex s ob"
  defines "s' \<equiv> wake_all pend_task_rm ob (upd_blk ob (\<lambda>b. b\<lparr>obj_type := RHINO_OBJ_TYPE_NONE\<rparr>) s)"
  shows "kernel_inv s'" "keeps s s'" "inv_wait s \<Longrightarrow> inv_wait s'"
    "obj_type (blk_objs s' ob) = RHINO_OBJ_TYPE_NONE"
proof -
  let ?r = "upd_blk ob (\<lambda>b. b\<lparr>obj_type := RHINO_OBJ_TYPE_NONE\<rparr>) s"
  have k: "kernel_inv ?r" by (rule kernel_inv_retype [OF sys_invD(1) [OF s] m])
  have m': "\<not> is_mutex ?r ob" by (simp add: is_mutex_def upd_blk_def)
  show "kernel_inv s'" unfolding s'_def by (rule remover.wake_all_ok(1) [OF k m'])
  show "keeps s s'" unfolding s'_def using keeps_data(7) remover.wake_all_ok(2) [OF k m'] by (rule keeps_trans)
  note o = remover.wake_all_ok(4) [OF k m', folded s'_def] and e = remover.wake_all_ok(3) [OF k m', folded s'_def]
    and sub = remover.wake_all_ok(5) [OF k m', folded s'_def]
  show "obj_type (blk_objs s' ob) = RHINO_OBJ_TYPE_NONE" using objsD(5) [OF o, of ob] by (simp add: upd_blk_def)
  assume w: "inv_wait s"
  have "blk_objs ?r o' = blk_objs s o'" if "o' \<noteq> ob" for o' using that by (simp add: upd_blk_def)
  then show "inv_wait s'" using inv_wait_deleted [OF w o e] sub by metis
qed

end
