(* ===== verification/K_Sem.thy ===== *)
theory K_Sem
  imports K_Task
begin

text \<open>
  Semaphores (\<^verbatim>\<open>core/k_sem.c\<close>) and the semaphore of a task (\<^verbatim>\<open>core/k_task_sem.c\<close>). A call that
  blocks returns \<open>Blocked\<close>; \<open>krhino_sem_take_end\<close> is the rest of the call, run when the task
  is scheduled again.
\<close>

section \<open>Semaphores\<close>

definition upd_sem :: "oid \<Rightarrow> (ksem_t \<Rightarrow> ksem_t) \<Rightarrow> kstate \<Rightarrow> kstate" where
  "upd_sem sem f s = s\<lparr>sems := (sems s)(sem := f (sems s sem))\<rparr>"

definition sem_create :: "oid \<Rightarrow> u32 \<Rightarrow> alloc_flag \<Rightarrow> kstate \<Rightarrow> kstat_t \<times> kstate" where
  "sem_create sem count flag s =
    (let s = upd_blk sem (\<lambda>b. b\<lparr>blk_list := []\<rparr>) s;
         s = upd_sem sem (\<lambda>x. x\<lparr>sem_count := count, peak_count := count\<rparr>) s;
         s = upd_blk sem (\<lambda>b. b\<lparr>blk_policy := BLK_POLICY_PRI\<rparr>) s;
         s = upd_sem sem (\<lambda>x. x\<lparr>sem_alloc_flag := flag\<rparr>) s;
         s = upd_blk sem (\<lambda>b. b\<lparr>obj_type := RHINO_SEM_OBJ_TYPE\<rparr>) s
     in (RHINO_SUCCESS, s))"

definition krhino_sem_create :: "oid \<Rightarrow> u32 \<Rightarrow> kstate \<Rightarrow> kstat_t \<times> kstate" where
  "krhino_sem_create sem count s = sem_create sem count K_OBJ_STATIC_ALLOC s"

definition krhino_sem_del :: "oid \<Rightarrow> kstate \<Rightarrow> kstat_t \<times> kstate" where
  "krhino_sem_del sem s =
    (if g_intrpt_nested_level s > 0 then (RHINO_NOT_CALLED_BY_INTRPT, s)
     else if obj_type (blk_objs s sem) \<noteq> RHINO_SEM_OBJ_TYPE then (RHINO_KOBJ_TYPE_ERR, s)
     else if sem_alloc_flag (sems s sem) \<noteq> K_OBJ_STATIC_ALLOC then (RHINO_KOBJ_DEL_ERR, s)
     else
       let s = upd_blk sem (\<lambda>b. b\<lparr>obj_type := RHINO_OBJ_TYPE_NONE\<rparr>) s;
           s = wake_all pend_task_rm sem s
       in (RHINO_SUCCESS, core_sched s))"

definition sem_give :: "oid \<Rightarrow> bool \<Rightarrow> kstate \<Rightarrow> kstat_t \<times> kstate" where
  "sem_give sem opt_wake_all s =
    (if obj_type (blk_objs s sem) \<noteq> RHINO_SEM_OBJ_TYPE then (RHINO_KOBJ_TYPE_ERR, s)
     else case blk_list (blk_objs s sem) of
       [] \<Rightarrow>
         if sem_count (sems s sem) = - 1 then (RHINO_SEM_OVF, s)
         else
           let s = upd_sem sem (\<lambda>x. x\<lparr>sem_count := sem_count x + 1\<rparr>) s;
               s = (if sem_count (sems s sem) > peak_count (sems s sem)
                    then upd_sem sem (\<lambda>x. x\<lparr>peak_count := sem_count x\<rparr>) s else s)
           in (RHINO_SUCCESS, s)
     | task # _ \<Rightarrow>
         let s = (if opt_wake_all then wake_all pend_task_wakeup sem s else pend_task_wakeup task s)
         in (RHINO_SUCCESS, core_sched s))"

definition krhino_sem_give :: "oid \<Rightarrow> kstate \<Rightarrow> kstat_t \<times> kstate" where
  "krhino_sem_give sem s = sem_give sem False s"

definition krhino_sem_give_all :: "oid \<Rightarrow> kstate \<Rightarrow> kstat_t \<times> kstate" where
  "krhino_sem_give_all sem s = sem_give sem True s"

definition krhino_sem_take :: "oid \<Rightarrow> tick_t \<Rightarrow> kstate \<Rightarrow> kres \<times> kstate" where
  "krhino_sem_take sem ticks s =
    (if g_intrpt_nested_level s > 0 then (Ret RHINO_NOT_CALLED_BY_INTRPT, s)
     else if obj_type (blk_objs s sem) \<noteq> RHINO_SEM_OBJ_TYPE then (Ret RHINO_KOBJ_TYPE_ERR, s)
     else if sem_count (sems s sem) > 0 then
       (Ret RHINO_SUCCESS, upd_sem sem (\<lambda>x. x\<lparr>sem_count := sem_count x - 1\<rparr>) s)
     else if ticks = RHINO_NO_WAIT then (Ret RHINO_NO_PEND_WAIT, s)
     else if g_sched_lock s > 0 then (Ret RHINO_SCHED_DISABLE, s)
     else (Blocked, core_sched (pend_to_blk_obj sem (g_active_task s) ticks s)))"

definition krhino_sem_take_end :: "kstate \<Rightarrow> kstat_t \<times> kstate" where
  "krhino_sem_take_end s = pend_state_end_proc (g_active_task s) s"

definition krhino_sem_count_set :: "oid \<Rightarrow> u32 \<Rightarrow> kstate \<Rightarrow> kstat_t \<times> kstate" where
  "krhino_sem_count_set sem count s =
    (if g_intrpt_nested_level s > 0 then (RHINO_NOT_CALLED_BY_INTRPT, s)
     else if obj_type (blk_objs s sem) \<noteq> RHINO_SEM_OBJ_TYPE then (RHINO_KOBJ_TYPE_ERR, s)
     else if \<not> sem_count (sems s sem) > 0 \<and> blk_list (blk_objs s sem) \<noteq> [] then (RHINO_SEM_TASK_WAITING, s)
     else
       let s = upd_sem sem (\<lambda>x. x\<lparr>sem_count := count\<rparr>) s;
           s = (if sem_count (sems s sem) > peak_count (sems s sem)
                then upd_sem sem (\<lambda>x. x\<lparr>peak_count := sem_count x\<rparr>) s else s)
       in (RHINO_SUCCESS, s))"

definition krhino_sem_count_get :: "oid \<Rightarrow> kstate \<Rightarrow> kstat_t \<times> u32" where
  "krhino_sem_count_get sem s = (RHINO_SUCCESS, sem_count (sems s sem))"

section \<open>The semaphore of a task\<close>

text \<open>A task without one makes the calls follow a null pointer.\<close>

definition krhino_task_sem_create :: "tid option \<Rightarrow> oid \<Rightarrow> u32 \<Rightarrow> kstate \<Rightarrow> kstat_t \<times> kstate" where
  "krhino_task_sem_create task sem count s =
    (case task of
       None \<Rightarrow> (RHINO_NULL_PTR, s)
     | Some task \<Rightarrow>
         let (ret, s) = krhino_sem_create sem count s;
             s = (if ret = RHINO_SUCCESS then upd_task task (\<lambda>k. k\<lparr>task_sem_obj := Some sem\<rparr>) s
                  else upd_task task (\<lambda>k. k\<lparr>task_sem_obj := None\<rparr>) s)
         in (ret, s))"

definition krhino_task_sem_del :: "tid \<Rightarrow> kstate \<Rightarrow> kstat_t \<times> kstate" where
  "krhino_task_sem_del task s =
    (case task_sem_obj (tcb s task) of
       None \<Rightarrow> (RHINO_SUCCESS, fault s)
     | Some sem \<Rightarrow> krhino_sem_del sem s)"

definition krhino_task_sem_give :: "tid \<Rightarrow> kstate \<Rightarrow> kstat_t \<times> kstate" where
  "krhino_task_sem_give task s =
    (case task_sem_obj (tcb s task) of
       None \<Rightarrow> (RHINO_SUCCESS, fault s)
     | Some sem \<Rightarrow> krhino_sem_give sem s)"

definition krhino_task_sem_take :: "tick_t \<Rightarrow> kstate \<Rightarrow> kres \<times> kstate" where
  "krhino_task_sem_take ticks s =
    (case task_sem_obj (tcb s (krhino_cur_task_get s)) of
       None \<Rightarrow> (Ret RHINO_SUCCESS, fault s)
     | Some sem \<Rightarrow> krhino_sem_take sem ticks s)"

definition krhino_task_sem_count_set :: "tid \<Rightarrow> u32 \<Rightarrow> kstate \<Rightarrow> kstat_t \<times> kstate" where
  "krhino_task_sem_count_set task count s =
    (case task_sem_obj (tcb s task) of
       None \<Rightarrow> (RHINO_SUCCESS, fault s)
     | Some sem \<Rightarrow> krhino_sem_count_set sem count s)"

definition krhino_task_sem_count_get :: "tid \<Rightarrow> kstate \<Rightarrow> (kstat_t \<times> u32) option" where
  "krhino_task_sem_count_get task s =
    map_option (\<lambda>sem. krhino_sem_count_get sem s) (task_sem_obj (tcb s task))"

end
