(* ===== verification/K_SemInv.thy ===== *)
theory K_SemInv
  imports K_ObjInv K_Sem
begin

text \<open>
  The calls on semaphores keep the invariant and lose no wake-up, and what they do: a give
  with a waiting task hands the unit to the first one, which is one of the highest
  priority; the count never wraps.
\<close>

section \<open>Invariants\<close>

lemma upd_sem_sel [simp]:
  "blk_objs (upd_sem sem f s) = blk_objs s" "tcb (upd_sem sem f s) = tcb s"
  "is_mutex (upd_sem sem f s) m = is_mutex s m" "sems (upd_sem sem f s) sem = f (sems s sem)"
  "g_intrpt_nested_level (upd_sem sem f s) = g_intrpt_nested_level s"
  by (simp_all add: upd_sem_def is_mutex_def)

lemma sys_inv_upd_sem: "sys_inv s \<Longrightarrow> sys_inv (upd_sem sem f s)"
  unfolding upd_sem_def by (rule sys_inv_data(1))

lemma inv_wait_upd_sem:
  assumes "inv_wait s" and "blk_list (blk_objs s sem) = [] \<or> sem_count (f (sems s sem)) = 0"
    and "obj_type (blk_objs s sem) = RHINO_SEM_OBJ_TYPE"
  shows "inv_wait (upd_sem sem f s)"
  by (rule inv_wait_one [OF assms(1), of sem])
    (use assms(2,3) in \<open>auto simp: upd_sem_def can_serve_def cong: kobj_type_t.case_cong\<close>)

lemma sem_create_eq:
  "sem_create sem count flag s =
    (RHINO_SUCCESS, upd_blk sem (\<lambda>b. b\<lparr>blk_list := [], blk_policy := BLK_POLICY_PRI, obj_type := RHINO_SEM_OBJ_TYPE\<rparr>)
      (upd_sem sem (\<lambda>x. x\<lparr>sem_count := count, peak_count := count, sem_alloc_flag := flag\<rparr>) s))"
  by (simp add: sem_create_def Let_def upd_sem_def upd_blk_def)

lemma sys_inv_sem_create:
  assumes "sys_inv s" and "\<not> is_mutex s sem" and "blk_list (blk_objs s sem) = []"
  shows "sys_inv (snd (krhino_sem_create sem count s))"
  using assms by (simp add: krhino_sem_create_def sem_create_eq sys_inv_upd_blk sys_inv_upd_sem)

lemma inv_wait_sem_create:
  assumes "inv_wait s" and "blk_list (blk_objs s sem) = []"
  shows "inv_wait (snd (krhino_sem_create sem count s))"
  by (rule inv_wait_one [OF assms(1), of sem])
    (auto simp: krhino_sem_create_def sem_create_eq upd_sem_def upd_blk_def can_serve_def cong: kobj_type_t.case_cong)

lemma sys_inv_sem_del:
  assumes "sys_inv s"
  shows "sys_inv (snd (krhino_sem_del sem s))"
  using assms sys_inv_sched [OF assms sys_inv_del(1,2) [OF assms, of sem]]
  by (auto simp: krhino_sem_del_def Let_def is_mutex_def)

lemma inv_wait_sem_del:
  assumes "sys_inv s" and "inv_wait s"
  shows "inv_wait (snd (krhino_sem_del sem s))"
  using assms inv_wait_core_sched [OF kernel_invD(1) [OF sys_inv_del(1) [OF assms(1), of sem]]
      sys_inv_del(3) [OF assms(1) _ assms(2), of sem]]
  by (auto simp: krhino_sem_del_def Let_def is_mutex_def)

text \<open>The first waiting task is served; without one the unit is counted, and the count never wraps.\<close>

lemma sem_give_eq:
  assumes "obj_type (blk_objs s sem) = RHINO_SEM_OBJ_TYPE"
  shows "sem_give sem wa s =
    (if blk_list (blk_objs s sem) = [] then
       if sem_count (sems s sem) = - 1 then (RHINO_SEM_OVF, s)
       else (RHINO_SUCCESS, upd_sem sem (\<lambda>x. x\<lparr>sem_count := sem_count x + 1,
              peak_count := max (peak_count x) (sem_count x + 1)\<rparr>) s)
     else (RHINO_SUCCESS, core_sched (if wa then wake_all pend_task_wakeup sem s
             else pend_task_wakeup (hd (blk_list (blk_objs s sem))) s)))"
proof -
  have "upd_sem sem (\<lambda>x. x\<lparr>sem_count := sem_count x + 1, peak_count := max (peak_count x) (sem_count x + 1)\<rparr>) s =
      (let s = upd_sem sem (\<lambda>x. x\<lparr>sem_count := sem_count x + 1\<rparr>) s
       in if sem_count (sems s sem) > peak_count (sems s sem)
          then upd_sem sem (\<lambda>x. x\<lparr>peak_count := sem_count x\<rparr>) s else s)"
    by (auto simp: upd_sem_def Let_def max_def intro!: kstate.equality fun_upd_eqI ksem_t.equality)
  then show ?thesis using assms by (auto simp: sem_give_def Let_def split: list.split)
qed

lemma sem_not_mutex: "obj_type (blk_objs s sem) = RHINO_SEM_OBJ_TYPE \<Longrightarrow> \<not> is_mutex s sem"
  by (simp add: is_mutex_def)

lemma sys_inv_sem_give:
  assumes s: "sys_inv s"
  shows "sys_inv (snd (sem_give sem wa s))"
proof (cases "obj_type (blk_objs s sem) = RHINO_SEM_OBJ_TYPE")
  case True
  note m = sem_not_mutex [OF True]
  show ?thesis
    using s wakeup.sys_inv_wake [OF s _ m, of "hd (blk_list (blk_objs s sem))"] wakeup.sys_inv_wake_all [OF s m]
    by (simp add: sem_give_eq [OF True] sys_inv_upd_sem)
qed (use s in \<open>simp add: sem_give_def\<close>)

lemma inv_wait_sem_give:
  assumes s: "sys_inv s" "inv_wait s"
  shows "inv_wait (snd (sem_give sem wa s))"
proof (cases "obj_type (blk_objs s sem) = RHINO_SEM_OBJ_TYPE")
  case True
  note m = sem_not_mutex [OF True] and k = sys_invD(1) [OF s(1)]
  show ?thesis
    using s(2) wakeup.inv_wait_wake [OF k _ m s(2), of "hd (blk_list (blk_objs s sem))"]
      wakeup.inv_wait_wake_all [OF k m s(2)]
    by (simp add: sem_give_eq [OF True] inv_wait_upd_sem True)
qed (use s in \<open>simp add: sem_give_def\<close>)

lemma sys_inv_sem_take:
  assumes s: "sys_inv s" and a: "g_active_task s \<noteq> idle_tid"
    and time: "ticks = RHINO_WAIT_FOREVER \<or> ticks < 2 ^ 63"
  shows "sys_inv (snd (krhino_sem_take sem ticks s))"
  using sys_inv_pend [OF s _ _ a _ time, of sem] s
  by (auto simp: krhino_sem_take_def is_mutex_def sys_inv_upd_sem word_gt_0)

lemma sem_idle:
  assumes "inv_wait s" and "obj_type (blk_objs s sem) = RHINO_SEM_OBJ_TYPE" and "sem_count (sems s sem) > 0"
  shows "blk_list (blk_objs s sem) = []"
  by (rule inv_wait_idle [OF assms(1)]) (use assms in \<open>simp add: can_serve_def\<close>)

lemma inv_wait_sem_take:
  assumes s: "sys_inv s" "inv_wait s" and a: "g_active_task s \<noteq> idle_tid"
    and time: "ticks = RHINO_WAIT_FOREVER \<or> ticks < 2 ^ 63"
  shows "inv_wait (snd (krhino_sem_take sem ticks s))"
  using inv_wait_pend [OF s _ a _ time, of sem] s sem_idle [OF s(2), of sem]
  by (auto simp: krhino_sem_take_def is_mutex_def inv_wait_upd_sem can_serve_def word_gt_0)

lemma sys_inv_sem_count_set:
  assumes "sys_inv s"
  shows "sys_inv (snd (krhino_sem_count_set sem count s))"
  using assms by (simp add: krhino_sem_count_set_def sys_inv_upd_sem Let_def)

lemma inv_wait_sem_count_set:
  assumes "inv_wait s"
  shows "inv_wait (snd (krhino_sem_count_set sem count s))"
proof -
  have "blk_list (blk_objs s sem) = []" if "obj_type (blk_objs s sem) = RHINO_SEM_OBJ_TYPE"
    "sem_count (sems s sem) > 0 \<or> blk_list (blk_objs s sem) = []"
    using that sem_idle [OF assms that(1)] by auto
  then show ?thesis using assms by (auto simp: krhino_sem_count_set_def Let_def intro!: inv_wait_upd_sem)
qed

section \<open>The value of a semaphore\<close>

text \<open>
  The units a semaphore has, or the units it owes to waiting tasks: the classical counter of
  a semaphore, which every successful give raises and every take lowers by one.
\<close>

definition sem_value :: "kstate \<Rightarrow> oid \<Rightarrow> int" where
  "sem_value s sem = uint (sem_count (sems s sem)) - int (length (blk_list (blk_objs s sem)))"

lemma first_waiting_most_urgent:
  assumes k: "kinv s" and p: "blk_policy (blk_objs s ob) = BLK_POLICY_PRI"
    and l: "blk_list (blk_objs s ob) = t # ts" and u: "u \<in> set (t # ts)"
  shows "prio (tcb s t) \<le> prio (tcb s u)"
  using kinvD(2) [OF k] p l u by (auto simp: inv_blk_def dest: spec [of _ ob])

lemma sem_give_wakes:
  assumes s: "sys_inv s" and o: "obj_type (blk_objs s sem) = RHINO_SEM_OBJ_TYPE"
    and l: "blk_list (blk_objs s sem) = t # ts"
  shows "krhino_sem_give sem s = (RHINO_SUCCESS, core_sched (unpend BLK_FINISH t s))"
proof -
  note k = sys_invD(2) [OF s]
  have "pended (tcb s t)" using kinv_first_pended [OF k, of t sem] l by auto
  then show ?thesis
    using l by (simp add: krhino_sem_give_def sem_give_eq [OF o] pend_task_wakeup_eq kinvD(3) [OF k])
qed

lemma unpend_kinv:
  assumes "sys_inv s" and "blk_list (blk_objs s ob) = t # ts"
  shows "kinv (unpend b t s)"
  by (rule kinv_unpend [OF sys_invD(2) [OF assms(1)]])
    (use kinv_first_pended [OF sys_invD(2) [OF assms(1)], of t ob] assms(2) in auto)

lemma sem_value_give:
  assumes s: "sys_inv s" and o: "obj_type (blk_objs s sem) = RHINO_SEM_OBJ_TYPE"
    and v: "sem_value s sem < 2 ^ 32 - 1"
  shows "\<exists>s'. krhino_sem_give sem s = (RHINO_SUCCESS, s') \<and> sem_value s' sem = sem_value s sem + 1"
proof (cases "blk_list (blk_objs s sem)")
  case Nil
  have ne: "sem_count (sems s sem) \<noteq> - 1" using v Nil by (auto simp: sem_value_def unsigned_minus_1_eq_mask mask_eq_exp_minus_1)
  have "uint (sem_count (sems s sem) + 1) = uint (sem_count (sems s sem)) + 1"
    using v Nil by (simp add: sem_value_def uint_word_ariths uint_ge_0)
  then show ?thesis using ne Nil by (simp add: krhino_sem_give_def sem_give_eq [OF o] sem_value_def)
next
  case (Cons t ts)
  have "sems (core_sched (unpend BLK_FINISH t s)) = sems s"
    using unpend_kinv [OF s Cons] by (simp add: core_sched_eq unpend_defs)
  then show ?thesis using Cons unpend_kinv [OF s Cons] by (simp add: sem_give_wakes [OF s o Cons] sem_value_def)
qed

lemma sem_value_take:
  assumes s: "sys_inv s" "inv_wait s" and o: "obj_type (blk_objs s sem) = RHINO_SEM_OBJ_TYPE"
    and g: "g_intrpt_nested_level s = 0" "g_sched_lock s = 0" "g_active_task s \<noteq> idle_tid"
    and ticks: "ticks \<noteq> RHINO_NO_WAIT" "ticks = RHINO_WAIT_FOREVER \<or> ticks < 2 ^ 63"
  shows "\<exists>s'. krhino_sem_take sem ticks s = (if sem_value s sem > 0 then Ret RHINO_SUCCESS else Blocked, s') \<and>
    sem_value s' sem = sem_value s sem - 1"
proof (cases "sem_count (sems s sem) > 0")
  case True
  have e: "blk_list (blk_objs s sem) = []" by (rule sem_idle [OF s(2) o True])
  have "uint (sem_count (sems s sem) - 1) = uint (sem_count (sems s sem)) - 1"
    using True uint_lt2p [of "sem_count (sems s sem)"] by (simp add: uint_word_ariths word_less_def)
  then show ?thesis using True e by (simp add: krhino_sem_take_def o g sem_value_def word_less_def)
next
  case False
  then have z: "sem_count (sems s sem) = 0" by (simp add: word_gt_0)
  note r = sys_inv_rdy [OF s(1) g(1)] and k = sys_invD(2) [OF s(1)]
  have p: "kinv (pend_on sem (g_active_task s) ticks s)" by (rule kinv_pend_on [OF k r g(3) ticks(2)])
  have "length (blk_list (blk_objs (pend_on sem (g_active_task s) ticks s) sem)) =
      length (blk_list (blk_objs s sem)) + 1"
    by (simp add: pend_on_def Let_def)
  moreover have "sems (pend_on sem (g_active_task s) ticks s) = sems s" by (simp add: pend_on_def Let_def)
  ultimately show ?thesis
    using z ticks p by (simp add: krhino_sem_take_def o g sem_value_def pend_to_blk_obj_eq [OF k r g(3)] core_sched_eq)
qed

end
