(* ===== verification/K_Mutex.thy ===== *)
theory K_Mutex
  imports K_Task
begin

text \<open>
  Mutexes (\<^verbatim>\<open>core/k_mutex.c\<close>): creation, deletion, lock with priority inheritance, unlock with
  hand-over to the first waiter. The scans of the mutexes a task holds and the reset of
  inherited priorities are in K\_Prio. \<open>krhino_mutex_lock_end\<close> is the rest of a call that
  blocked.
\<close>

definition upd_mutex :: "oid \<Rightarrow> (kmutex_t \<Rightarrow> kmutex_t) \<Rightarrow> kstate \<Rightarrow> kstate" where
  "upd_mutex m f s = s\<lparr>mutexes := (mutexes s)(m := f (mutexes s m))\<rparr>"

definition mutex_create :: "oid \<Rightarrow> alloc_flag \<Rightarrow> kstate \<Rightarrow> kstat_t \<times> kstate" where
  "mutex_create mutex flag s =
    (let s = upd_blk mutex (\<lambda>b. b\<lparr>blk_list := [], blk_policy := BLK_POLICY_PRI\<rparr>) s;
         s = upd_mutex mutex (\<lambda>x. x\<lparr>mutex_task := None, mutex_alloc_flag := flag\<rparr>) s;
         s = upd_blk mutex (\<lambda>b. b\<lparr>obj_type := RHINO_MUTEX_OBJ_TYPE\<rparr>) s
     in (RHINO_SUCCESS, s))"

definition krhino_mutex_create :: "oid \<Rightarrow> kstate \<Rightarrow> kstat_t \<times> kstate" where
  "krhino_mutex_create mutex s = mutex_create mutex K_OBJ_STATIC_ALLOC s"

definition krhino_mutex_del :: "oid option \<Rightarrow> kstate \<Rightarrow> kstat_t \<times> kstate" where
  "krhino_mutex_del mtx s =
    (case mtx of
       None \<Rightarrow> (RHINO_NULL_PTR, s)
     | Some mutex \<Rightarrow>
         if g_intrpt_nested_level s > 0 then (RHINO_NOT_CALLED_BY_INTRPT, s)
         else if obj_type (blk_objs s mutex) \<noteq> RHINO_MUTEX_OBJ_TYPE then (RHINO_KOBJ_TYPE_ERR, s)
         else if mutex_alloc_flag (mutexes s mutex) \<noteq> K_OBJ_STATIC_ALLOC then (RHINO_KOBJ_DEL_ERR, s)
         else
           let s = upd_blk mutex (\<lambda>b. b\<lparr>obj_type := RHINO_OBJ_TYPE_NONE\<rparr>) s;
               s = (case mutex_task (mutexes s mutex) of
                      None \<Rightarrow> s
                    | Some task \<Rightarrow> mutex_release task (Some mutex) s);
               s = wake_all pend_task_rm mutex s
           in (RHINO_SUCCESS, core_sched s))"

definition krhino_mutex_lock :: "oid \<Rightarrow> tick_t \<Rightarrow> kstate \<Rightarrow> kres \<times> kstate" where
  "krhino_mutex_lock mutex ticks s =
    (if g_sys_stat s = RHINO_STOPPED then (Ret RHINO_SUCCESS, s)
     else if g_intrpt_nested_level s > 0 then (Ret RHINO_NOT_CALLED_BY_INTRPT, s)
     else if obj_type (blk_objs s mutex) \<noteq> RHINO_MUTEX_OBJ_TYPE then (Ret RHINO_KOBJ_TYPE_ERR, s)
     else if mutex_task (mutexes s mutex) = Some (g_active_task s) then
       (if owner_nested (mutexes s mutex) = - 1
        then (Ret RHINO_MUTEX_NESTED_OVF, k_err_proc RHINO_MUTEX_NESTED_OVF s)
        else (Ret RHINO_MUTEX_OWNER_NESTED, upd_mutex mutex (\<lambda>x. x\<lparr>owner_nested := owner_nested x + 1\<rparr>) s))
     else case mutex_task (mutexes s mutex) of
       None \<Rightarrow>
         let s = upd_mutex mutex (\<lambda>x. x\<lparr>mutex_task := Some (g_active_task s)\<rparr>) s;
             s = upd_task (g_active_task s) (\<lambda>k. k\<lparr>mutex_list := mutex # mutex_list k\<rparr>) s;
             s = upd_mutex mutex (\<lambda>x. x\<lparr>owner_nested := 1\<rparr>) s
         in (Ret RHINO_SUCCESS, s)
     | Some owner \<Rightarrow>
         if ticks = RHINO_NO_WAIT then (Ret RHINO_NO_PEND_WAIT, s)
         else if g_sched_lock s > 0 then (Ret RHINO_SCHED_DISABLE, s)
         else
           let s = (if prio (tcb s (g_active_task s)) < prio (tcb s owner)
                    then snd (task_pri_change owner (prio (tcb s (g_active_task s))) s) else s);
               s = pend_to_blk_obj mutex (g_active_task s) ticks s
           in (Blocked, core_sched s))"

definition krhino_mutex_lock_end :: "kstate \<Rightarrow> kstat_t \<times> kstate" where
  "krhino_mutex_lock_end s = pend_state_end_proc (g_active_task s) s"

definition krhino_mutex_unlock :: "oid \<Rightarrow> kstate \<Rightarrow> kstat_t \<times> kstate" where
  "krhino_mutex_unlock mutex s =
    (if g_sys_stat s = RHINO_STOPPED then (RHINO_SUCCESS, s)
     else if g_intrpt_nested_level s > 0 then (RHINO_NOT_CALLED_BY_INTRPT, s)
     else if obj_type (blk_objs s mutex) \<noteq> RHINO_MUTEX_OBJ_TYPE then (RHINO_KOBJ_TYPE_ERR, s)
     else if mutex_task (mutexes s mutex) \<noteq> Some (g_active_task s) then (RHINO_MUTEX_NOT_RELEASED_BY_OWNER, s)
     else
       let s = upd_mutex mutex (\<lambda>x. x\<lparr>owner_nested := owner_nested x - 1\<rparr>) s
       in if owner_nested (mutexes s mutex) > 0 then (RHINO_MUTEX_OWNER_NESTED, s)
          else
            let s = mutex_release (g_active_task s) (Some mutex) s
            in case blk_list (blk_objs s mutex) of
                 [] \<Rightarrow> (RHINO_SUCCESS, upd_mutex mutex (\<lambda>x. x\<lparr>mutex_task := None\<rparr>) s)
               | task # _ \<Rightarrow>
                   let s = pend_task_wakeup task s;
                       s = upd_mutex mutex (\<lambda>x. x\<lparr>mutex_task := Some task\<rparr>) s;
                       s = upd_task task (\<lambda>k. k\<lparr>mutex_list := mutex # mutex_list k\<rparr>) s;
                       s = upd_mutex mutex (\<lambda>x. x\<lparr>owner_nested := 1\<rparr>) s
                   in (RHINO_SUCCESS, core_sched s))"

end
