(* ===== verification/K_MutexInv.thy ===== *)
theory K_MutexInv
  imports K_ObjInv K_Mutex
begin

text \<open>
  The calls on mutexes keep the invariant: after each of them every task runs at its
  effective priority, the most urgent of its own and of those that wait, directly or through
  a chain of mutexes, for what it holds. Waiting must not close a circle of waiting tasks,
  which the code does not check.
\<close>

section \<open>Creation and nesting\<close>

lemma upd_mutex_sel [simp]:
  "blk_objs (upd_mutex m f s) = blk_objs s" "tcb (upd_mutex m f s) = tcb s" "ctx (upd_mutex m f s) = ctx s"
  "is_mutex (upd_mutex m f s) m' = is_mutex s m'" "mutexes (upd_mutex m f s) m = f (mutexes s m)"
  "g_ready_queue (upd_mutex m f s) = g_ready_queue s" "objs (upd_mutex m f s) = objs s"
  "g_active_task (upd_mutex m f s) = g_active_task s"
  by (simp_all add: upd_mutex_def is_mutex_def objs_def)

lemma kernel_inv_nested:
  assumes "kernel_inv s"
  shows "kernel_inv (upd_mutex m (\<lambda>x. x\<lparr>owner_nested := f x\<rparr>) s)"
  by (rule kernel_inv_cong [OF assms]) (auto simp: upd_mutex_def is_mutex_def)

lemma keeps_upd_mutex: "keeps s (upd_mutex m f s)"
  by (rule keepsI) simp_all

lemma sys_inv_nested:
  assumes "sys_inv s"
  shows "sys_inv (upd_mutex m (\<lambda>x. x\<lparr>owner_nested := f x\<rparr>) s)"
  by (rule sys_inv_same [OF assms kernel_inv_nested [OF sys_invD(1) [OF assms]] keeps_upd_mutex]) simp

lemma mutex_create_eq:
  "mutex_create m flag s = (RHINO_SUCCESS,
    upd_mutex m (\<lambda>x. x\<lparr>mutex_task := None, mutex_alloc_flag := flag\<rparr>)
      (upd_blk m (\<lambda>b. b\<lparr>blk_list := [], blk_policy := BLK_POLICY_PRI, obj_type := RHINO_MUTEX_OBJ_TYPE\<rparr>) s))"
  by (simp add: mutex_create_def Let_def upd_mutex_def upd_blk_def)

lemma kernel_inv_mutex_create:
  assumes k: "kernel_inv s" and m: "\<not> is_mutex s m" "blk_list (blk_objs s m) = []"
  shows "kernel_inv (snd (krhino_mutex_create m s))" (is "kernel_inv ?s")
proof -
  note i = kernel_invD [OF k]
  have k': "kinv ?s"
    by (rule kinv_cong [OF _ _ _ _ _ _ _ _ _ i(1)])
      (use m in \<open>auto simp: krhino_mutex_create_def mutex_create_eq upd_mutex_def upd_blk_def split: if_splits\<close>)
  have sel: "tcb ?s = tcb s" "is_mutex ?s m' = (m' = m \<or> is_mutex s m')"
    "mutex_task (mutexes ?s m') = (if m' = m then None else mutex_task (mutexes s m'))"
    "blk_list (blk_objs ?s m') = blk_list (blk_objs s m')"
    "blk_policy (blk_objs ?s m') = (if m' = m then BLK_POLICY_PRI else blk_policy (blk_objs s m'))" for m'
    using m by (auto simp: krhino_mutex_create_def mutex_create_eq upd_mutex_def upd_blk_def is_mutex_def)
  have w: "waits_for ?s = waits_for s"
    unfolding set_eq_iff split_paired_All waits_for_iff [OF kinvD(2) [OF k']] waits_for_iff [OF kinvD(2) [OF i(1)]]
    using m by (auto simp: sel)
  have ms: "mtx_struct ?s" using i(3) m unfolding mtx_struct_def w sel by auto
  have "pi_ok ?s t" if t: "live (tcb s t)" for t
  proof -
    have ok: "pi_ok s t" using i(2) t by (simp add: pi_inv_def)
    then have "m \<notin> set (mutex_list (tcb s t))" using m(1) by (auto simp: pi_ok_def owns_ok_def)
    then have "owns_ok ?s t" using ok by (auto simp: pi_ok_def owns_ok_def sel)
    moreover have "eff ?s t = eff s t" by (simp add: eff_def waiters_def sel)
    ultimately show ?thesis using ok by (simp add: pi_ok_def sel)
  qed
  then show ?thesis using k' ms by (simp add: kernel_inv_def pi_inv_def sel)
qed

lemma sys_inv_mutex_create:
  assumes "sys_inv s" and "\<not> is_mutex s m" and "blk_list (blk_objs s m) = []"
  shows "sys_inv (snd (krhino_mutex_create m s))"
  by (rule sys_inv_same [OF assms(1) kernel_inv_mutex_create [OF sys_invD(1) [OF assms(1)] assms(2,3)] keepsI])
    (simp_all add: krhino_mutex_create_def mutex_create_eq upd_blk_def)

lemma inv_wait_mutex_create:
  assumes "inv_wait s" and "blk_list (blk_objs s m) = []"
  shows "inv_wait (snd (krhino_mutex_create m s))"
  by (rule inv_wait_one [OF assms(1), of m])
    (auto simp: krhino_mutex_create_def mutex_create_eq upd_mutex_def upd_blk_def can_serve_def cong: kobj_type_t.case_cong)

section \<open>Lock\<close>

lemma lock_free_eq:
  "upd_mutex m (\<lambda>x. x\<lparr>owner_nested := n\<rparr>) (upd_task t (\<lambda>k. k\<lparr>mutex_list := m # mutex_list k\<rparr>)
     (upd_mutex m (\<lambda>x. x\<lparr>mutex_task := Some t\<rparr>) s)) = take_mutex m t n s"
  by (simp add: upd_mutex_def upd_task_def take_mutex_def push_mutex_def set_owner_def)

text \<open>The owner inherits the priority of the task that is about to wait.\<close>

definition inherit :: "tid \<Rightarrow> tid \<Rightarrow> kstate \<Rightarrow> kstate" where
  "inherit t w s = (if prio (tcb s t) < prio (tcb s w) then snd (task_pri_change w (prio (tcb s t)) s) else s)"

lemma inherit_ok:
  assumes k: "kernel_inv s" and t: "live (tcb s t)" and w: "live (tcb s w)" "w \<noteq> idle_tid"
    and dead: "(w, t) \<notin> (waits_for s)\<^sup>*"
  shows "kinv (inherit t w s)" "pi_but w (inherit t w s)" "prio_frame s (inherit t w s)"
    "prio (tcb (inherit t w s) w) = min (prio (tcb (inherit t w s) t)) (eff (inherit t w s) w)"
proof -
  note i = kernel_invD [OF k]
  have ok: "pi_but w s" "pi_ok s w" using i(2) w by (auto simp: pi_inv_but [of s w])
  have "kinv (inherit t w s) \<and> pi_but w (inherit t w s) \<and> prio_frame s (inherit t w s) \<and>
    prio (tcb (inherit t w s) w) = min (prio (tcb (inherit t w s) t)) (eff (inherit t w s) w)"
  proof (cases "prio (tcb s t) < prio (tcb s w)")
    case True
    have "owns_sub s w" using ok(2) by (simp add: pi_ok_def owns_ok_sub)
    from task_pri_change_restores [OF i(1) ok(1) this w kinv_prio [OF i(1) t]]
    obtain s' where s': "task_pri_change w (prio (tcb s t)) s = (RHINO_SUCCESS, s')" "kinv s'" "prio_frame s s'"
      "pi_but w s'" "prio (tcb s' w) = prio (tcb s t)" "eff s' w = eff s w" "pri_changed s w (prio (tcb s t)) s'" .
    have "prio (tcb s' t) = prio (tcb s t)" using s'(7) dead by (simp add: pri_changed_def)
    then show ?thesis using s' True ok(2) by (simp add: inherit_def pi_ok_def)
  next
    case False
    then show ?thesis using i(1) ok by (simp add: inherit_def pi_ok_def prio_frame_refl)
  qed
  then show "kinv (inherit t w s)" "pi_but w (inherit t w s)" "prio_frame s (inherit t w s)"
    "prio (tcb (inherit t w s) w) = min (prio (tcb (inherit t w s) t)) (eff (inherit t w s) w)"
    by blast+
qed

lemma lock_blocks:
  assumes s: "sys_inv s" and g: "g_intrpt_nested_level s = 0" "g_sched_lock s = 0" "g_active_task s \<noteq> idle_tid"
    and time: "ticks = RHINO_WAIT_FOREVER \<or> ticks < 2 ^ 63"
    and m: "is_mutex s m" "mutex_task (mutexes s m) = Some w" and dead: "(w, g_active_task s) \<notin> (waits_for s)\<^sup>*"
  defines "i \<equiv> inherit (g_active_task s) w s"
  defines "b \<equiv> pend_to_blk_obj m (g_active_task i) ticks i"
  shows "b = pend_on m (g_active_task s) ticks i" "kernel_inv b" "ctx b = ctx s" "prio_frame s i" "kinv i"
proof -
  note k = sys_invD(1) [OF s] and r = sys_inv_rdy [OF s g(1)]
  have w: "live (tcb s w)" "w \<noteq> idle_tid" using kernel_invD(3) [OF k] m by (auto simp: mtx_struct_def)
  have "live (tcb s (g_active_task s))" using r by (simp add: live_def)
  note io = inherit_ok [OF k this w dead, folded i_def] and mt = prio_frame_mtx [OF io(3)]
  have c: "ctx i = ctx s" by (rule ctx_prio_frame [OF io(3)])
  have r': "task_state (tcb i (g_active_task s)) = K_RDY" using r by (simp add: prio_frame_simps [OF io(3)])
  show b: "b = pend_on m (g_active_task s) ticks i"
    unfolding b_def ctxD(3) [OF c] by (rule pend_to_blk_obj_eq [OF io(1) r' g(3)])
  have m': "is_mutex i m" "mutex_task (mutexes i m) = Some w" using m by (simp_all add: mt prio_frame_simps [OF io(3)])
  have ow: "owns_ok i w" using kernel_invD(2) [OF k] w by (simp add: mt pi_inv_def pi_ok_def)
  show "kernel_inv b" unfolding b
    by (rule wait_mutex_ok [OF io(1,2) r' g(3) time m' _ ow io(4)]) (simp add: mt dead)
  show "ctx b = ctx s" by (simp add: b c)
  show "prio_frame s i" "kinv i" by (rule io)+
qed

text \<open>
  What the caller must see to: the nesting does not overflow, and the owner does not wait,
  directly or through other mutexes, for the caller.
\<close>

definition lock_safe :: "oid \<Rightarrow> kstate \<Rightarrow> bool" where
  "lock_safe m s \<longleftrightarrow> (\<forall>w. is_mutex s m \<and> mutex_task (mutexes s m) = Some w \<longrightarrow>
     (if w = g_active_task s then owner_nested (mutexes s m) \<noteq> - 1 else (w, g_active_task s) \<notin> (waits_for s)\<^sup>*))"

lemma krhino_mutex_lock_eq:
  assumes s: "sys_inv s" and g: "g_intrpt_nested_level s = 0" and m: "is_mutex s m"
  shows "krhino_mutex_lock m ticks s =
    (case mutex_task (mutexes s m) of
       None \<Rightarrow> (Ret RHINO_SUCCESS, take_mutex m (g_active_task s) 1 s)
     | Some w \<Rightarrow>
         if w = g_active_task s then
           if owner_nested (mutexes s m) = - 1 then (Ret RHINO_MUTEX_NESTED_OVF, k_err_proc RHINO_MUTEX_NESTED_OVF s)
           else (Ret RHINO_MUTEX_OWNER_NESTED, upd_mutex m (\<lambda>x. x\<lparr>owner_nested := owner_nested x + 1\<rparr>) s)
         else if ticks = RHINO_NO_WAIT then (Ret RHINO_NO_PEND_WAIT, s)
         else if g_sched_lock s > 0 then (Ret RHINO_SCHED_DISABLE, s)
         else (Blocked, core_sched (pend_to_blk_obj m (g_active_task (inherit (g_active_task s) w s)) ticks
                (inherit (g_active_task s) w s))))"
proof -
  have "g_sys_stat s \<noteq> RHINO_STOPPED" using sys_invD(4) [OF s] by (simp add: booted_def)
  then show ?thesis
    using g m lock_free_eq [of m 1 "g_active_task s" s]
    by (simp add: krhino_mutex_lock_def is_mutex_def Let_def inherit_def upd_mutex_def split: option.split)
qed

lemma mutex_lock_ok:
  assumes s: "sys_inv s" and a: "g_active_task s \<noteq> idle_tid"
    and time: "ticks = RHINO_WAIT_FOREVER \<or> ticks < 2 ^ 63" and safe: "lock_safe m s"
  shows "sys_inv (snd (krhino_mutex_lock m ticks s))" and "inv_wait s \<Longrightarrow> inv_wait (snd (krhino_mutex_lock m ticks s))"
proof -
  note k = sys_invD(1) [OF s]
  have "sys_inv (snd (krhino_mutex_lock m ticks s)) \<and> (inv_wait s \<longrightarrow> inv_wait (snd (krhino_mutex_lock m ticks s)))"
  proof (cases "g_intrpt_nested_level s = 0 \<and> is_mutex s m")
    case True
    then have g: "g_intrpt_nested_level s = 0" and m: "is_mutex s m" by auto
    note eq = krhino_mutex_lock_eq [OF s g m]
    show ?thesis
    proof (cases "mutex_task (mutexes s m)")
      case None
      have "live (tcb s (g_active_task s))" using sys_inv_rdy [OF s g] by (simp add: live_def)
      from take_mutex_ok [OF k this a m None]
      have "sys_inv (take_mutex m (g_active_task s) 1 s)"
        by (rule sys_inv_same [OF s _ keeps_take_mutex]) simp
      moreover have "inv_wait s \<Longrightarrow> inv_wait (take_mutex m (g_active_task s) 1 s)"
        by (rule inv_wait_shrink [of s]) simp_all
      ultimately show ?thesis by (simp add: eq None)
    next
      case (Some w)
      have nest: "inv_wait s \<Longrightarrow> inv_wait (upd_mutex m f s)" for f by (rule inv_wait_shrink [of s]) simp_all
      have bl: "sys_inv (core_sched b) \<and> (inv_wait s \<longrightarrow> inv_wait (core_sched b))"
        if b: "b = pend_to_blk_obj m (g_active_task (inherit (g_active_task s) w s)) ticks (inherit (g_active_task s) w s)"
          and l: "g_sched_lock s = 0" and nw: "w \<noteq> g_active_task s" for b
      proof -
        have dead: "(w, g_active_task s) \<notin> (waits_for s)\<^sup>*" using safe m Some nw by (auto simp: lock_safe_def)
        note bo = lock_blocks [OF s g l a time m Some dead, folded b]
        have "inv_wait b" if "inv_wait s"
          unfolding bo(1)
          by (rule inv_wait_enter [OF that, where T = "{g_active_task s}" and ob = m])
            (use m in \<open>auto simp: objs_prio_frame [OF bo(4)] prio_frame_simps [OF bo(4)] can_serve_def is_mutex_def\<close>)
        then show ?thesis
          using sys_inv_block [OF s bo(2,3) l] inv_wait_core_sched [OF kernel_invD(1) [OF bo(2)]] by blast
      qed
      have "w = g_active_task s \<Longrightarrow> owner_nested (mutexes s m) \<noteq> - 1" using safe m Some by (auto simp: lock_safe_def)
      then show ?thesis
        using s bl [OF refl] nest sys_inv_nested [OF s, of m "\<lambda>x. owner_nested x + 1"]
        by (simp add: eq Some word_gt_0)
    qed
  next
    case False
    then show ?thesis using s by (auto simp: krhino_mutex_lock_def is_mutex_def word_gt_0)
  qed
  then show "sys_inv (snd (krhino_mutex_lock m ticks s))" "inv_wait s \<Longrightarrow> inv_wait (snd (krhino_mutex_lock m ticks s))"
    by blast+
qed

section \<open>Unlock\<close>

lemma set_owner_sel [simp]:
  "tcb (set_owner m ow n s) = tcb s" "blk_objs (set_owner m ow n s) = blk_objs s"
  "g_ready_queue (set_owner m ow n s) = g_ready_queue s"
  by (simp_all add: set_owner_def)

lemma release_owned:
  assumes k: "kernel_inv s" and m: "is_mutex s m" "mutex_task (mutexes s m) = Some t"
  defines "r \<equiv> mutex_release t (Some m) s"
  shows "kinv r" "pi_but t r" "prio_frame (drop_mutex t (Some m) s) r" "prio (tcb r t) = eff r t"
    "is_mutex r m" "mutex_task (mutexes r m) = Some t" "mutex_list (tcb r t) = remove1 m (mutex_list (tcb s t))"
    "m' \<in> set (mutex_list (tcb r t)) \<longleftrightarrow> is_mutex r m' \<and> mutex_task (mutexes r m') = Some t \<and> m' \<noteq> m"
    "distinct (mutex_list (tcb r t))" "m \<notin> set (mutex_list (tcb r t))"
proof -
  let ?d = "drop_mutex t (Some m) s"
  note i = kernel_invD [OF k]
  have t: "live (tcb s t)" "t \<noteq> idle_tid" using i(3) m by (auto simp: mtx_struct_def)
  have b: "pi_but t s" and ok: "owns_ok s t" using i(2) t by (auto simp: pi_inv_but [of s t] pi_ok_def)
  have o: "owns_sub ?d t" using ok by (auto simp: owns_sub_def owns_ok_def)
  note r = mutex_release_ok [OF i(1) b o t, folded r_def]
  show "kinv r" "pi_but t r" "prio_frame ?d r" "prio (tcb r t) = eff r t" by (rule r)+
  note f = prio_frame_simps [OF r(2)] prio_frame_mtx [OF r(2)]
  have d: "distinct (mutex_list (tcb s t))" using ok by (simp add: owns_ok_def)
  have ml: "mutex_list (tcb r t) = filter (\<lambda>x. x \<noteq> m) (mutex_list (tcb s t))" by (simp add: f) (auto intro: filter_cong)
  show "is_mutex r m" "mutex_task (mutexes r m) = Some t" using m by (simp_all add: f)
  show "mutex_list (tcb r t) = remove1 m (mutex_list (tcb s t))"
    using d by (simp add: ml distinct_remove1_removeAll removeAll_filter_not_eq eq_commute)
  show "m' \<in> set (mutex_list (tcb r t)) \<longleftrightarrow> is_mutex r m' \<and> mutex_task (mutexes r m') = Some t \<and> m' \<noteq> m"
    using ok by (auto simp: ml owns_ok_def f)
  show "distinct (mutex_list (tcb r t))" "m \<notin> set (mutex_list (tcb r t))" using d by (simp_all add: ml)
qed

lemma unlock_hand_over:
  assumes k: "kernel_inv s" and m: "is_mutex s m" "mutex_task (mutexes s m) = Some t"
    and l: "blk_list (blk_objs (mutex_release t (Some m) s) m) = w # ws"
  shows "kernel_inv (hand_over m w n (mutex_release t (Some m) s))"
proof -
  note r = release_owned [OF k m]
  note h = hand_over_ok(1,2) [OF r(1,2,5,6) l, of n] hand_over_ok(3) [OF r(1,2,5,6) l]
  let ?r = "mutex_release t (Some m) s" and ?h = "hand_over m w n (mutex_release t (Some m) s)"
  have sel: "is_mutex ?h m' = is_mutex ?r m'"
    "mutex_task (mutexes ?h m') = (if m' = m then Some w else mutex_task (mutexes ?r m'))"
    "mutex_list (tcb ?h t) = mutex_list (tcb ?r t)" "prio (tcb ?h t) = prio (tcb ?r t)" for m'
    using h(3) by (simp_all add: hand_over_def is_mutex_def)
  have "owns_ok ?h t" using r(8,9) h(3) by (auto simp: owns_ok_def sel)
  moreover have "eff ?h t = eff ?r t" by (rule eff_hand_over [OF r(1) l r(10)]) (use h(3) in simp)
  ultimately have "pi_ok ?h t" using r(4) by (simp add: pi_ok_def sel)
  then show ?thesis using h(1,2) by (simp add: kernel_inv_def pi_inv_but [of _ t])
qed

lemma unlock_free:
  assumes k: "kernel_inv s" and m: "is_mutex s m" "mutex_task (mutexes s m) = Some t"
    and l: "blk_list (blk_objs s m) = []"
  shows "mutex_release t (Some m) s = drop_mutex t (Some m) s"
    "kernel_inv (set_owner m None n (drop_mutex t (Some m) s))"
proof -
  let ?d = "drop_mutex t (Some m) s" and ?f = "set_owner m None n (drop_mutex t (Some m) s)"
  note i = kernel_invD [OF k]
  have t: "live (tcb s t)" "t \<noteq> idle_tid" using i(3) m by (auto simp: mtx_struct_def)
  have b: "pi_but t s" and ok: "pi_ok s t" using i(2) t by (auto simp: pi_inv_but [of s t])
  have o: "owns_sub ?d t" using ok by (auto simp: owns_sub_def owns_ok_def pi_ok_def)
  have "waiters ?d t = waiters s t" using l by (auto simp: waiters_def)
  then have e: "eff ?d t = prio (tcb ?d t)" using ok by (simp add: eff_def pi_ok_def)
  show rel: "mutex_release t (Some m) s = ?d" using e by (simp add: mutex_release_eq [OF i(1) b o t(2)])
  note r = release_owned [OF k m, unfolded rel]
  have l': "blk_list (blk_objs ?d m) = []" using l by simp
  note f = free_ok [OF r(1,2,5,6) l', of n]
  have sel: "tcb ?f = tcb ?d" "blk_objs ?f = blk_objs ?d" "is_mutex ?f m' = is_mutex ?d m'"
    "mutex_task (mutexes ?f m') = (if m' = m then None else mutex_task (mutexes ?d m'))" for m'
    by (auto simp: set_owner_def is_mutex_def)
  have "owns_ok ?f t" using r(8,9) by (auto simp: owns_ok_def sel simp del: drop_mutex_sel)
  moreover have "eff ?f t = eff ?d t" by (simp add: eff_def waiters_def sel)
  ultimately have "pi_ok ?f t" using e by (simp add: pi_ok_def sel)
  then show "kernel_inv ?f" using f by (simp add: kernel_inv_def pi_inv_but [of _ t])
qed

lemma krhino_mutex_unlock_eq:
  assumes s: "sys_inv s" and g: "g_intrpt_nested_level s = 0" and m: "is_mutex s m"
    and o: "mutex_task (mutexes s m) = Some (g_active_task s)"
  defines "n \<equiv> upd_mutex m (\<lambda>x. x\<lparr>owner_nested := owner_nested x - 1\<rparr>) s"
  shows "krhino_mutex_unlock m s =
    (if owner_nested (mutexes s m) \<noteq> 1 then (RHINO_MUTEX_OWNER_NESTED, n)
     else case blk_list (blk_objs s m) of
       [] \<Rightarrow> (RHINO_SUCCESS, set_owner m None 0 (drop_mutex (g_active_task s) (Some m) n))
     | _ # _ \<Rightarrow> (let r = mutex_release (g_active_task s) (Some m) n
                 in (RHINO_SUCCESS, core_sched (hand_over m (hd (blk_list (blk_objs r m))) 1 r))))"
proof -
  have st: "g_sys_stat s \<noteq> RHINO_STOPPED" using sys_invD(4) [OF s] by (simp add: booted_def)
  have k: "kernel_inv n" unfolding n_def by (rule kernel_inv_nested [OF sys_invD(1) [OF s]])
  have n: "is_mutex n m" "mutex_task (mutexes n m) = Some (g_active_task s)" using m o by (simp_all add: n_def)
  have z: "owner_nested (mutexes n m) = 0 \<longleftrightarrow> owner_nested (mutexes s m) = 1" by (simp add: n_def)
  let ?r = "mutex_release (g_active_task s) (Some m) n"
  note r = release_owned [OF k n]
  have bl: "set (blk_list (blk_objs ?r m)) = set (blk_list (blk_objs s m))"
    using prio_frame_simps [OF r(3)] by (simp add: n_def)
  have un: "krhino_mutex_unlock m s = (if owner_nested (mutexes n m) > 0 then (RHINO_MUTEX_OWNER_NESTED, n)
      else case blk_list (blk_objs ?r m) of
        [] \<Rightarrow> (RHINO_SUCCESS, upd_mutex m (\<lambda>x. x\<lparr>mutex_task := None\<rparr>) ?r)
      | w # _ \<Rightarrow> (RHINO_SUCCESS, core_sched (take_mutex m w 1 (pend_task_wakeup w ?r))))"
    using st g m o lock_free_eq [of m 1]
    by (simp add: krhino_mutex_unlock_def is_mutex_def Let_def n_def upd_mutex_def split: list.split)
  show ?thesis
  proof (cases "blk_list (blk_objs s m)")
    case Nil
    have "blk_list (blk_objs n m) = []" using Nil by (simp add: n_def)
    note rel = unlock_free(1) [OF k n this]
    have "upd_mutex m (\<lambda>x. x\<lparr>mutex_task := None\<rparr>) ?r = set_owner m None 0 ?r" if "owner_nested (mutexes n m) = 0"
      using that unfolding upd_mutex_def set_owner_def rel
      by (intro kstate.equality) (simp_all, auto intro!: fun_upd_eqI kmutex_t.equality)
    then show ?thesis using Nil bl z by (simp add: un word_gt_0 rel)
  next
    case (Cons v vs)
    then obtain w ws where ws: "blk_list (blk_objs ?r m) = w # ws" using bl by (cases "blk_list (blk_objs ?r m)") auto
    have "pended (tcb ?r w)" using kinv_first_pended [OF r(1), of w m] ws by simp
    then have "take_mutex m w 1 (pend_task_wakeup w ?r) = hand_over m w 1 ?r"
      by (simp add: hand_over_def pend_task_wakeup_eq [OF kinvD(3) [OF r(1)]])
    then show ?thesis using Cons ws z by (simp add: un word_gt_0 Let_def)
  qed
qed

lemma unlock_hand_over_frame:
  fixes n :: u32
  assumes k: "kernel_inv s" and m: "is_mutex s m" "mutex_task (mutexes s m) = Some t"
    and l: "blk_list (blk_objs (mutex_release t (Some m) s) m) = w # ws"
  defines "h \<equiv> hand_over m w n (mutex_release t (Some m) s)"
  shows "keeps s h" "inv_wait s \<Longrightarrow> inv_wait h"
proof -
  let ?r = "mutex_release t (Some m) s"
  note r = release_owned [OF k m]
  have p: "pended (tcb ?r w)" using kinv_first_pended [OF r(1), of w m] l by simp
  have d: "keeps s (drop_mutex t (Some m) s)" by (rule keepsI) simp_all
  have "keeps s (unpend BLK_FINISH w ?r)"
    by (rule keeps_trans [OF keeps_trans [OF d keeps_prio_frame [OF r(3)]] keeps_unpend [OF p]])
  then show "keeps s h" unfolding h_def hand_over_def by (rule keeps_trans [OF _ keeps_take_mutex])
  have bl: "set (blk_list (blk_objs ?r ob)) = set (blk_list (blk_objs s ob))" for ob
    using prio_frame_simps [OF r(3)] by simp
  have o: "objs h = objs s" unfolding h_def hand_over_def by (simp add: objs_prio_frame [OF r(3)])
  have "set (blk_list (blk_objs h ob)) \<subseteq> set (blk_list (blk_objs s ob))" for ob
    unfolding h_def hand_over_def bl [of ob, symmetric] by (simp add: set_remove1_subset)
  then show "inv_wait s \<Longrightarrow> inv_wait h" using inv_wait_shrink [OF _ o] by blast
qed

lemma unlock_free_frame:
  "keeps s (set_owner m None n (drop_mutex t (Some m) s))"
  "inv_wait s \<Longrightarrow> inv_wait (set_owner m None n (drop_mutex t (Some m) s))"
  "g_ready_queue (set_owner m None n (drop_mutex t (Some m) s)) = g_ready_queue s"
proof -
  show "keeps s (set_owner m None n (drop_mutex t (Some m) s))" by (rule keepsI) simp_all
  show "inv_wait s \<Longrightarrow> inv_wait (set_owner m None n (drop_mutex t (Some m) s))"
    by (rule inv_wait_shrink [of s]) simp_all
  show "g_ready_queue (set_owner m None n (drop_mutex t (Some m) s)) = g_ready_queue s"
    by (simp add: drop_mutex_def upd_task_def)
qed

lemma mutex_unlock_ok:
  assumes s: "sys_inv s"
  shows "sys_inv (snd (krhino_mutex_unlock m s)) \<and> (inv_wait s \<longrightarrow> inv_wait (snd (krhino_mutex_unlock m s)))"
proof (cases "g_intrpt_nested_level s = 0 \<and> is_mutex s m \<and> mutex_task (mutexes s m) = Some (g_active_task s)")
  case True
  then have g: "g_intrpt_nested_level s = 0" "is_mutex s m" "mutex_task (mutexes s m) = Some (g_active_task s)" by auto
  let ?t = "g_active_task s" and ?n = "upd_mutex m (\<lambda>x. x\<lparr>owner_nested := owner_nested x - 1\<rparr>) s"
  have sn: "sys_inv ?n" by (rule sys_inv_nested [OF s])
  have wn: "inv_wait s \<Longrightarrow> inv_wait ?n" by (rule inv_wait_shrink [of s]) simp_all
  have n: "is_mutex ?n m" "mutex_task (mutexes ?n m) = Some ?t" using g by simp_all
  note k = sys_invD(1) [OF sn] and eq = krhino_mutex_unlock_eq [OF s g]
  show ?thesis
  proof (cases "blk_list (blk_objs s m)")
    case Nil
    then have l: "blk_list (blk_objs ?n m) = []" by simp
    have "sys_inv (set_owner m None 0 (drop_mutex ?t (Some m) ?n))"
      by (rule sys_inv_same [OF sn unlock_free(2) [OF k n l] unlock_free_frame(1,3)])
    then show ?thesis using sn wn unlock_free_frame(2) [of ?n] unfolding eq Nil by (simp del: upd_mutex_sel)
  next
    case (Cons v vs)
    let ?r = "mutex_release ?t (Some m) ?n"
    have "set (blk_list (blk_objs ?r m)) = set (blk_list (blk_objs s m))"
      using prio_frame_simps [OF release_owned(3) [OF k n]] by simp
    then have "blk_list (blk_objs ?r m) \<noteq> []" using Cons by auto
    then obtain w ws where ws: "blk_list (blk_objs ?r m) = w # ws" by (cases "blk_list (blk_objs ?r m)") auto
    define h where "h = hand_over m w 1 ?r"
    have kh: "kernel_inv h" unfolding h_def by (rule unlock_hand_over [OF k n ws])
    note f = unlock_hand_over_frame [where n = 1, OF k n ws, folded h_def]
    have e: "krhino_mutex_unlock m s =
        (if owner_nested (mutexes s m) \<noteq> 1 then (RHINO_MUTEX_OWNER_NESTED, ?n) else (RHINO_SUCCESS, core_sched h))"
      unfolding eq Cons list.case Let_def ws list.sel h_def ..
    show ?thesis
      using sn wn sys_inv_sched [OF sn kh f(1)] inv_wait_core_sched [OF kernel_invD(1) [OF kh]] f(2)
      unfolding e by (simp del: upd_mutex_sel)
  qed
qed (use s in \<open>auto simp: krhino_mutex_unlock_def is_mutex_def word_gt_0\<close>)

section \<open>Deletion\<close>

lemma untype_mutex:
  assumes k: "kernel_inv s" and m: "is_mutex s m"
  defines "u \<equiv> upd_blk m (\<lambda>b. b\<lparr>obj_type := RHINO_OBJ_TYPE_NONE\<rparr>) s"
  shows "kinv u" "mtx_struct u" "is_mutex u m' = (is_mutex s m' \<and> m' \<noteq> m)"
    "live (tcb s t) \<Longrightarrow> mutex_task (mutexes s m) \<noteq> Some t \<Longrightarrow> pi_ok u t"
proof -
  note i = kernel_invD [OF k]
  have sel: "tcb u = tcb s" "mutexes u = mutexes s" "blk_list (blk_objs u ob) = blk_list (blk_objs s ob)"
    "blk_policy (blk_objs u ob) = blk_policy (blk_objs s ob)" "is_mutex u m' = (is_mutex s m' \<and> m' \<noteq> m)" for ob m'
    by (auto simp: u_def upd_blk_def is_mutex_def)
  show "is_mutex u m' = (is_mutex s m' \<and> m' \<noteq> m)" by (rule sel)
  show ku: "kinv u" by (rule kinv_cong [OF _ _ _ _ _ _ _ _ _ i(1)]) (auto simp: u_def upd_blk_def split: if_splits)
  have "waits_for u \<subseteq> waits_for s"
    by (rule subrelI) (auto simp: waits_for_iff [OF kinvD(2) [OF ku]] waits_for_iff [OF kinvD(2) [OF i(1)]] sel)
  then have "acyclic (waits_for u)" by (rule acyclic_subset [rotated]) (use i(3) in \<open>simp add: mtx_struct_def\<close>)
  then show "mtx_struct u" using i(3) by (auto simp: mtx_struct_def sel)
  assume t: "live (tcb s t)" "mutex_task (mutexes s m) \<noteq> Some t"
  have ok: "pi_ok s t" using i(2) t(1) by (simp add: pi_inv_def)
  have "owns_ok u t" using ok t(2) by (auto simp: pi_ok_def owns_ok_def sel)
  moreover have "eff u t = eff s t" by (simp add: eff_def waiters_def sel)
  ultimately show "pi_ok u t" using ok by (simp add: pi_ok_def sel)
qed

lemma mutex_del_release:
  assumes k: "kernel_inv s" and m: "is_mutex s m"
  defines "u \<equiv> upd_blk m (\<lambda>b. b\<lparr>obj_type := RHINO_OBJ_TYPE_NONE\<rparr>) s"
  defines "r \<equiv> (case mutex_task (mutexes u m) of None \<Rightarrow> u | Some t \<Rightarrow> mutex_release t (Some m) u)"
  shows "kernel_inv r" "keeps s r" "objs r = objs u" "set (blk_list (blk_objs r ob)) = set (blk_list (blk_objs s ob))"
proof -
  note u = untype_mutex [OF k m, folded u_def]
  have sel: "tcb u = tcb s" "mutexes u = mutexes s" "blk_list (blk_objs u ob) = blk_list (blk_objs s ob)" for ob
    by (auto simp: u_def upd_blk_def)
  have ku: "keeps s u" unfolding u_def by (rule keeps_data(7))
  have "kernel_inv r \<and> keeps s r \<and> objs r = objs u \<and> set (blk_list (blk_objs r ob)) = set (blk_list (blk_objs s ob))"
  proof (cases "mutex_task (mutexes s m)")
    case None
    then have "pi_inv u" using u(2,4) by (simp add: pi_inv_def sel)
    then show ?thesis using None u(1) ku by (simp add: r_def sel kernel_inv_def)
  next
    case (Some t)
    let ?d = "drop_mutex t (Some m) u"
    note i = kernel_invD [OF k]
    have t: "live (tcb s t)" "t \<noteq> idle_tid" using i(3) m Some by (auto simp: mtx_struct_def)
    have lt: "live (tcb u t)" using t(1) by (simp add: sel)
    have b: "pi_but t u" using u(2,4) Some by (simp add: pi_but_def sel)
    have ok: "owns_ok s t" using i(2) t(1) by (simp add: pi_inv_def pi_ok_def)
    have o: "owns_sub ?d t" using ok by (auto simp: owns_sub_def owns_ok_def sel u(3))
    have r: "r = mutex_release t (Some m) u" using Some by (simp add: r_def sel)
    note ro = mutex_release_ok [OF u(1) b o lt t(2), folded r] and f = prio_frame_simps prio_frame_mtx
    have "owns_ok r t" using ok by (auto simp: owns_ok_def f [OF ro(2)] sel u(3))
    then have "kernel_inv r" using ro by (simp add: kernel_inv_def pi_inv_but [of _ t] pi_ok_def)
    moreover have "keeps u ?d" by (rule keepsI) simp_all
    then have "keeps s r" using ku keeps_prio_frame [OF ro(2)] keeps_trans by blast
    moreover have "objs r = objs u" by (simp add: objs_prio_frame [OF ro(2)])
    ultimately show ?thesis by (simp add: f [OF ro(2)] sel)
  qed
  then show "kernel_inv r" "keeps s r" "objs r = objs u" "set (blk_list (blk_objs r ob)) = set (blk_list (blk_objs s ob))"
    by blast+
qed

lemma mutex_del_ok:
  assumes s: "sys_inv s"
  shows "sys_inv (snd (krhino_mutex_del mx s)) \<and> (inv_wait s \<longrightarrow> inv_wait (snd (krhino_mutex_del mx s)))"
proof (cases mx)
  case (Some m)
  let ?u = "upd_blk m (\<lambda>b. b\<lparr>obj_type := RHINO_OBJ_TYPE_NONE\<rparr>) s"
  let ?r = "case mutex_task (mutexes ?u m) of None \<Rightarrow> ?u | Some t \<Rightarrow> mutex_release t (Some m) ?u"
  have "sys_inv (core_sched (wake_all pend_task_rm m ?r)) \<and>
      (inv_wait s \<longrightarrow> inv_wait (core_sched (wake_all pend_task_rm m ?r)))" if m: "is_mutex s m"
  proof -
    note r = mutex_del_release [OF sys_invD(1) [OF s] m]
    have nm: "\<not> is_mutex ?r m" using objsD(5) [OF r(3), of m] by (simp add: is_mutex_def upd_blk_def)
    note w = remover.wake_all_ok [OF r(1) nm]
    have "inv_wait (wake_all pend_task_rm m ?r)" if "inv_wait s"
      by (rule inv_wait_deleted [OF that _ w(3)]) (use r(3,4) w(4,5) in auto)
    then show ?thesis
      using sys_inv_sched [OF s w(1) keeps_trans [OF r(2) w(2)]] inv_wait_core_sched [OF kernel_invD(1) [OF w(1)]] by blast
  qed
  then show ?thesis using s by (simp add: krhino_mutex_del_def Some Let_def is_mutex_def)
qed (use s in \<open>simp add: krhino_mutex_del_def\<close>)

end
