(* ===== verification/K_EventInv.thy ===== *)
theory K_EventInv
  imports K_ObjInv
begin

text \<open>
  The calls on event groups keep the invariant and lose no wake-up. A set wakes exactly the
  waiting tasks whose condition the flags, as they are after the set, satisfy; each gets
  those flags, and the flags of the ones that asked for it are cleared afterwards.
\<close>

lemma if_cases: "(b \<Longrightarrow> P x) \<Longrightarrow> (\<not> b \<Longrightarrow> P y) \<Longrightarrow> P (if b then x else y)"
  by simp

section \<open>Conditions\<close>

lemma event_status_mono:
  assumes "a AND b = a" and "event_status a flags opt"
  shows "event_status b flags opt"
proof -
  have sub: "bit b n" if "bit a n" for n using arg_cong [OF assms(1), of "\<lambda>w. bit w n"] that by (simp add: bit_simps)
  have "b AND flags = flags" if f: "a AND flags = flags"
  proof (rule bit_word_eqI)
    fix n
    show "bit (b AND flags) n = bit flags n"
      using arg_cong [OF f, of "\<lambda>w. bit w n"] sub [of n] by (auto simp: bit_simps)
  qed
  moreover have "b AND flags \<noteq> 0" if f: "a AND flags \<noteq> 0"
  proof -
    obtain n where "bit a n" "bit flags n" using f by (auto simp: bit_eq_iff bit_simps)
    then have "bit (b AND flags) n" using sub [of n] by (simp add: bit_simps)
    then show ?thesis by auto
  qed
  ultimately show ?thesis using assms(2) by (auto simp: event_status_def word_gt_0 split: if_splits)
qed

lemma event_status_less: "event_status (a AND b) flags opt \<Longrightarrow> event_status a flags opt"
  by (rule event_status_mono [of "a AND b"]) (simp_all add: and.assoc and.commute)

section \<open>Writing the flags\<close>

lemma upd_event_sel [simp]:
  "blk_objs (upd_event ev f s) = blk_objs s" "tcb (upd_event ev f s) = tcb s"
  "is_mutex (upd_event ev f s) m = is_mutex s m" "events (upd_event ev f s) ev = f (events s ev)"
  "ctx (upd_event ev f s) = ctx s" "u32_mem (upd_event ev f s) = u32_mem s"
  by (simp_all add: upd_event_def is_mutex_def)

lemma kernel_inv_upd_event: "kernel_inv s \<Longrightarrow> kernel_inv (upd_event ev f s)"
  unfolding upd_event_def by (rule kernel_inv_data(2))

lemma sys_inv_upd_event: "sys_inv s \<Longrightarrow> sys_inv (upd_event ev f s)"
  unfolding upd_event_def by (rule sys_inv_data(2))

lemma keeps_upd_event: "keeps s (upd_event ev f s)"
  unfolding upd_event_def by (rule keeps_data(2))

lemma inv_wait_less_flags:
  assumes "inv_wait s"
  shows "inv_wait (upd_event ev (\<lambda>e. e\<lparr>event_flags := event_flags e AND m\<rparr>) s)"
proof (rule inv_wait_one [OF assms, of ev])
  fix t assume "t \<in> set (blk_list (blk_objs (upd_event ev (\<lambda>e. e\<lparr>event_flags := event_flags e AND m\<rparr>) s) ev))"
  then have "\<not> can_serve s ev (tcb s t)" using assms by (simp add: inv_wait_def)
  then show "\<not> can_serve (upd_event ev (\<lambda>e. e\<lparr>event_flags := event_flags e AND m\<rparr>) s) ev
      (tcb (upd_event ev (\<lambda>e. e\<lparr>event_flags := event_flags e AND m\<rparr>) s) t)"
    using event_status_less by (auto simp: can_serve_def upd_event_def split: kobj_type_t.splits)
qed (auto simp: upd_event_def can_serve_def cong: kobj_type_t.case_cong)

section \<open>Creation, deletion, waiting\<close>

lemma event_create_eq:
  "event_create ev flags flag s =
    (RHINO_SUCCESS, upd_blk ev (\<lambda>b. b\<lparr>blk_list := [], blk_policy := BLK_POLICY_PRI, obj_type := RHINO_EVENT_OBJ_TYPE\<rparr>)
      (upd_event ev (\<lambda>e. e\<lparr>event_flags := flags, event_alloc_flag := flag\<rparr>) s))"
  by (simp add: event_create_def Let_def upd_event_def upd_blk_def)

lemma sys_inv_event_create:
  assumes "sys_inv s" and "\<not> is_mutex s ev" and "blk_list (blk_objs s ev) = []"
  shows "sys_inv (snd (krhino_event_create ev flags s))"
  using assms by (simp add: krhino_event_create_def event_create_eq sys_inv_upd_blk sys_inv_upd_event)

lemma inv_wait_event_create:
  assumes "inv_wait s" and "blk_list (blk_objs s ev) = []"
  shows "inv_wait (snd (krhino_event_create ev flags s))"
  by (rule inv_wait_one [OF assms(1), of ev])
    (auto simp: krhino_event_create_def event_create_eq upd_event_def upd_blk_def can_serve_def cong: kobj_type_t.case_cong)

lemma event_del_ok:
  assumes s: "sys_inv s"
  shows "sys_inv (snd (krhino_event_del ev s))" and "inv_wait s \<Longrightarrow> inv_wait (snd (krhino_event_del ev s))"
proof -
  let ?d = "wake_all pend_task_rm ev (upd_blk ev (\<lambda>b. b\<lparr>obj_type := RHINO_OBJ_TYPE_NONE\<rparr>) s)"
  let ?e = "upd_event ev (\<lambda>e. e\<lparr>event_flags := event_flags e AND 0\<rparr>) ?d"
  have d: "kernel_inv ?e" "keeps s ?e" "inv_wait s \<Longrightarrow> inv_wait ?e" if "\<not> is_mutex s ev"
    using kernel_inv_upd_event [OF sys_inv_del(1) [OF s that]] inv_wait_less_flags [OF sys_inv_del(3) [OF s that]]
      keeps_trans [OF sys_inv_del(2) [OF s that] keeps_upd_event]
    by blast+
  then show "sys_inv (snd (krhino_event_del ev s))"
    using s sys_inv_sched [OF s] by (auto simp: krhino_event_del_def Let_def is_mutex_def)
  show "inv_wait s \<Longrightarrow> inv_wait (snd (krhino_event_del ev s))"
    using d inv_wait_core_sched [OF kernel_invD(1), of ?e] by (auto simp: krhino_event_del_def Let_def is_mutex_def)
qed

lemma sys_inv_event_get:
  assumes s: "sys_inv s" and a: "g_active_task s \<noteq> idle_tid"
    and time: "ticks = RHINO_WAIT_FOREVER \<or> ticks < 2 ^ 63"
  shows "sys_inv (snd (krhino_event_get ev flags opt addr ticks s))"
proof -
  let ?w = "upd_task (g_active_task s) (\<lambda>k. k\<lparr>pend_flags := flags, pend_info := addr, pend_option := opt\<rparr>) s"
  have w: "sys_inv ?w" by (rule sys_inv_upd_task [OF s]) (simp add: same_core_def)
  have sel: "g_active_task ?w = g_active_task s" "g_intrpt_nested_level ?w = g_intrpt_nested_level s"
    "g_sched_lock ?w = g_sched_lock s" "is_mutex ?w ev = is_mutex s ev"
    by (simp_all add: upd_task_def is_mutex_def)
  have "sys_inv (core_sched (pend_to_blk_obj ev (g_active_task s) ticks ?w))"
    if "g_intrpt_nested_level s = 0" "g_sched_lock s = 0" "\<not> is_mutex s ev"
    using sys_inv_pend [OF w _ _ _ _ time, of ev] that a by (simp add: sel)
  then show ?thesis
    unfolding krhino_event_get_def Let_def
    by (intro if_cases [where P = "\<lambda>r. sys_inv (snd r)"])
      (use s in \<open>simp_all add: sel(1) is_mutex_def word_gt_0 sys_inv_upd_event sys_inv_data(6)\<close>)
qed

lemma inv_wait_event_get:
  assumes s: "sys_inv s" "inv_wait s" and a: "g_active_task s \<noteq> idle_tid"
    and time: "ticks = RHINO_WAIT_FOREVER \<or> ticks < 2 ^ 63"
  shows "inv_wait (snd (krhino_event_get ev flags opt addr ticks s))"
proof -
  let ?t = "g_active_task s"
  let ?w = "upd_task ?t (\<lambda>k. k\<lparr>pend_flags := flags, pend_info := addr, pend_option := opt\<rparr>) s"
  have w: "sys_inv ?w" by (rule sys_inv_upd_task [OF s(1)]) (simp add: same_core_def)
  have sel: "g_active_task ?w = ?t" "g_intrpt_nested_level ?w = g_intrpt_nested_level s"
    "g_sched_lock ?w = g_sched_lock s" "is_mutex ?w ev = is_mutex s ev"
    by (simp_all add: upd_task_def is_mutex_def)
  have blocked: "inv_wait (core_sched (pend_to_blk_obj ev ?t ticks ?w))"
    if g: "g_intrpt_nested_level s = 0" and o: "obj_type (blk_objs s ev) = RHINO_EVENT_OBJ_TYPE"
      and n: "\<not> event_status (event_flags (events s ev)) flags opt"
  proof -
    have "?t \<notin> set (blk_list (blk_objs s ob))" for ob
      using kinv_first_pended [OF sys_invD(2) [OF s(1)], of ?t ob] sys_inv_rdy [OF s(1) g] by (auto simp: pended_def)
    then have "tcb ?w t = tcb s t" if "t \<in> set (blk_list (blk_objs s ob))" for t ob
      using that by (auto simp: upd_task_def)
    moreover have "blk_objs ?w = blk_objs s" by (simp add: upd_task_def)
    ultimately have "inv_wait ?w" using s(2) by (simp add: inv_wait_def)
    moreover have "\<not> can_serve ?w ev (tcb ?w ?t)" using o n by (simp add: can_serve_def upd_task_def)
    ultimately show ?thesis
      using inv_wait_pend [OF w _ _ _ _ time, of ev] a g o by (simp add: sel) (simp add: is_mutex_def)
  qed
  have "inv_wait (s\<lparr>u32_mem := m\<rparr>)" for m by (rule inv_wait_shrink [OF s(2)]) (simp_all add: objs_def)
  then show ?thesis
    unfolding krhino_event_get_def Let_def
    by (intro if_cases [where P = "\<lambda>r. inv_wait (snd r)"])
      (use s(2) blocked in \<open>simp_all add: sel(1) word_gt_0 inv_wait_less_flags\<close>)
qed

section \<open>Setting flags\<close>

definition ev_frame :: "oid \<Rightarrow> kstate \<Rightarrow> kstate \<Rightarrow> bool" where
  "ev_frame ev s s' \<longleftrightarrow> keeps s s' \<and> objs (s'\<lparr>events := events s\<rparr>) = objs s \<and>
     (\<forall>e. e \<noteq> ev \<longrightarrow> events s' e = events s e) \<and>
     event_flags (events s' ev) AND event_flags (events s ev) = event_flags (events s' ev)"

lemma ev_frameD:
  assumes "ev_frame ev s s'"
  shows "keeps s s'" "sems s' = sems s" "queues s' = queues s" "buf_queues s' = buf_queues s"
    "obj_type (blk_objs s' ob) = obj_type (blk_objs s ob)" "pend_flags (tcb s' t) = pend_flags (tcb s t)"
    "pend_option (tcb s' t) = pend_option (tcb s t)" "e \<noteq> ev \<Longrightarrow> events s' e = events s e"
    "event_flags (events s' ev) AND event_flags (events s ev) = event_flags (events s' ev)"
  using assms objsD [of "s'\<lparr>events := events s\<rparr>" s] by (simp_all add: ev_frame_def)

lemma ev_frame_refl: "ev_frame ev s s"
  by (simp add: ev_frame_def)

lemma ev_frame_trans:
  assumes "ev_frame ev s s'" and "ev_frame ev s' s''"
  shows "ev_frame ev s s''"
proof -
  note d = ev_frameD [OF assms(1)] and d' = ev_frameD [OF assms(2)]
  have "event_flags (events s'' ev) AND event_flags (events s ev) = event_flags (events s'' ev)"
    using d(9) d'(9) by (metis and.assoc)
  moreover have "objs (s''\<lparr>events := events s\<rparr>) = objs s" using d d' by (simp add: objs_def fun_eq_iff)
  moreover have "keeps s s''" using d(1) d'(1) by (rule keeps_trans)
  ultimately show ?thesis using d d' by (simp add: ev_frame_def)
qed

definition serve :: "oid \<Rightarrow> u32 \<Rightarrow> tid \<Rightarrow> kstate \<Rightarrow> kstate" where
  "serve ev cur t s =
    (let s1 = unpend BLK_FINISH t (s\<lparr>u32_mem := (u32_mem s)(pend_info (tcb s t) := cur)\<rparr>)
     in if pend_option (tcb s t) AND RHINO_FLAGS_CLEAR_MASK \<noteq> 0
        then upd_event ev (\<lambda>e. e\<lparr>event_flags := event_flags e AND NOT (pend_flags (tcb s t))\<rparr>) s1 else s1)"

lemma unpend_pend [simp]:
  "pend_flags (tcb (unpend b t s) u) = pend_flags (tcb s u)" "pend_option (tcb (unpend b t s) u) = pend_option (tcb s u)"
  "events (unpend b t s) = events s"
  by (simp_all add: unpend_defs)

lemma event_set_loop_Cons:
  assumes "kernel_inv s" and "pended (tcb s t)"
  shows "event_set_loop ev cur (t # ts) s = event_set_loop ev cur ts
    (if event_status cur (pend_flags (tcb s t)) (pend_option (tcb s t)) then serve ev cur t s else s)"
proof -
  have "pend_task_wakeup t (s\<lparr>u32_mem := m\<rparr>) = unpend BLK_FINISH t (s\<lparr>u32_mem := m\<rparr>)" for m
    by (rule pend_task_wakeup_eq [OF kinvD(3) [OF kernel_invD(1) [OF kernel_inv_data(6) [OF assms(1)]]]])
      (simp add: assms(2))
  then show ?thesis by (simp add: serve_def Let_def)
qed

lemma serve_ok:
  assumes k: "kernel_inv s" and o: "obj_type (blk_objs s ev) = RHINO_EVENT_OBJ_TYPE"
    and t: "t \<in> set (blk_list (blk_objs s ev))"
  shows "kernel_inv (serve ev cur t s)" "ev_frame ev s (serve ev cur t s)"
    "blk_list (blk_objs (serve ev cur t s) ob) = remove1 t (blk_list (blk_objs s ob))"
proof -
  let ?m = "s\<lparr>u32_mem := (u32_mem s)(pend_info (tcb s t) := cur)\<rparr>"
  have p: "pended (tcb s t)" using kinv_first_pended [OF kernel_invD(1) [OF k] t] by simp
  have "kernel_inv (unpend BLK_FINISH t ?m)"
    by (rule kernel_inv_unpend [where ob = ev, OF kernel_inv_data(6) [OF k]]) (use t o in \<open>simp_all add: is_mutex_def\<close>)
  then show "kernel_inv (serve ev cur t s)" by (simp add: serve_def Let_def kernel_inv_upd_event)
  have "keeps s (unpend BLK_FINISH t ?m)"
    using keeps_data(6) keeps_unpend [of ?m t] p by (auto intro: keeps_trans)
  then have kp: "keeps s (serve ev cur t s)"
    using keeps_trans [OF _ keeps_upd_event] by (simp add: serve_def Let_def)
  have "objs (serve ev cur t s\<lparr>events := events s\<rparr>) = objs s"
    by (simp add: serve_def Let_def objs_def upd_event_def fun_eq_iff unpend_defs)
  then show "ev_frame ev s (serve ev cur t s)"
    using kp by (auto simp: ev_frame_def serve_def Let_def upd_event_def bit_eq_iff bit_simps)
  show "blk_list (blk_objs (serve ev cur t s) ob) = remove1 t (blk_list (blk_objs s ob))"
    by (simp add: serve_def Let_def)
qed

text \<open>The condition of a waiting task under the flags \<open>cur\<close>.\<close>

definition met :: "kstate \<Rightarrow> u32 \<Rightarrow> tid \<Rightarrow> bool" where
  "met s cur t \<longleftrightarrow> event_status cur (pend_flags (tcb s t)) (pend_option (tcb s t))"

lemma met_frame: "ev_frame ev s s' \<Longrightarrow> met s' cur t = met s cur t"
  by (simp add: met_def ev_frameD(6,7))

lemma event_set_loop_ok:
  assumes "kernel_inv s" and "obj_type (blk_objs s ev) = RHINO_EVENT_OBJ_TYPE"
    and "distinct ts" and "set ts \<subseteq> set (blk_list (blk_objs s ev))"
  shows "kernel_inv (event_set_loop ev cur ts s) \<and> ev_frame ev s (event_set_loop ev cur ts s) \<and>
    (\<forall>ob. blk_list (blk_objs (event_set_loop ev cur ts s) ob) =
      filter (\<lambda>t. t \<notin> set ts \<or> \<not> met s cur t) (blk_list (blk_objs s ob)))"
  using assms
proof (induction ts arbitrary: s)
  case Nil
  then show ?case by (simp add: ev_frame_refl)
next
  case (Cons t ts)
  let ?s = "if met s cur t then serve ev cur t s else s"
  note k = Cons.prems(1) and o = Cons.prems(2) and i = kernel_invD(1) [OF Cons.prems(1)]
  have t: "t \<in> set (blk_list (blk_objs s ev))" and p: "pended (tcb s t)"
    using Cons.prems(4) kinv_first_pended [OF i, of t ev] by auto
  have dl: "distinct (blk_list (blk_objs s o'))" for o' using kinvD(2) [OF i] by (simp add: inv_blk_def)
  have e: "event_set_loop ev cur (t # ts) s = event_set_loop ev cur ts ?s"
    unfolding event_set_loop_Cons [OF k p] met_def ..
  have s1: "kernel_inv ?s" "ev_frame ev s ?s"
    "\<And>o'. blk_list (blk_objs ?s o') = filter (\<lambda>u. u \<noteq> t \<or> \<not> met s cur u) (blk_list (blk_objs s o'))"
    using serve_ok [OF k o t] k dl
    by (auto simp: ev_frame_refl distinct_remove1_removeAll removeAll_filter_not_eq intro!: filter_cong)
  have o1: "obj_type (blk_objs ?s ev) = RHINO_EVENT_OBJ_TYPE" using ev_frameD(5) [OF s1(2)] o by simp
  have d1: "distinct ts" and sub1: "set ts \<subseteq> set (blk_list (blk_objs ?s ev))"
    using Cons.prems(3,4) unfolding s1(3) by auto
  note mt = met_frame [OF s1(2)]
  show ?case
    using Cons.IH [OF s1(1) o1 d1 sub1] ev_frame_trans [OF s1(2)]
    unfolding e s1(3) mt filter_filter by (auto intro!: filter_cong)
qed

lemma event_set_ok:
  fixes flags :: u32
  assumes k: "kernel_inv s" and o: "obj_type (blk_objs s ev) = RHINO_EVENT_OBJ_TYPE"
  defines "s0 \<equiv> upd_event ev (\<lambda>e. e\<lparr>event_flags := event_flags e OR flags\<rparr>) s"
  defines "s' \<equiv> event_set_loop ev (event_flags (events s0 ev)) (blk_list (blk_objs s0 ev)) s0"
  shows "kernel_inv s'" "ev_frame ev s0 s'"
    "blk_list (blk_objs s' ev) =
      filter (\<lambda>t. \<not> met s (event_flags (events s ev) OR flags) t) (blk_list (blk_objs s ev))"
    "ob \<noteq> ev \<Longrightarrow> blk_list (blk_objs s' ob) = blk_list (blk_objs s ob)"
proof -
  have i: "kinv s" by (rule kernel_invD(1) [OF k])
  have k0: "kernel_inv s0" unfolding s0_def by (rule kernel_inv_upd_event [OF k])
  have o0: "obj_type (blk_objs s0 ev) = RHINO_EVENT_OBJ_TYPE" using o by (simp add: s0_def)
  have d: "distinct (blk_list (blk_objs s0 ev))" using kinvD(2) [OF i] by (simp add: s0_def inv_blk_def)
  note l = event_set_loop_ok [OF k0 o0 d, of "event_flags (events s0 ev)", folded s'_def, OF order_refl]
  show "kernel_inv s'" "ev_frame ev s0 s'" using l by blast+
  have mt: "met s0 (event_flags (events s0 ev)) t = met s (event_flags (events s ev) OR flags) t" for t
    by (simp add: met_def s0_def)
  show "blk_list (blk_objs s' ev) =
      filter (\<lambda>t. \<not> met s (event_flags (events s ev) OR flags) t) (blk_list (blk_objs s ev))"
    using l unfolding mt by (auto simp: s0_def intro!: filter_cong)
  have "\<not> (t \<in> set (blk_list (blk_objs s ev)) \<and> t \<in> set (blk_list (blk_objs s ob)))" if "ob \<noteq> ev" for t
    using kinv_first_pended [OF i, of t ev] kinv_first_pended [OF i, of t ob] that by auto
  then show "ob \<noteq> ev \<Longrightarrow> blk_list (blk_objs s' ob) = blk_list (blk_objs s ob)"
    using l by (auto simp: s0_def filter_id_conv)
qed

lemma sys_inv_event_set:
  assumes s: "sys_inv s"
  shows "sys_inv (snd (krhino_event_set ev flags opt s))"
proof -
  have "sys_inv (core_sched (event_set_loop ev (event_flags (events s0 ev)) (blk_list (blk_objs s0 ev)) s0))"
    if "obj_type (blk_objs s ev) = RHINO_EVENT_OBJ_TYPE"
      and s0: "s0 = upd_event ev (\<lambda>e. e\<lparr>event_flags := event_flags e OR flags\<rparr>) s" for s0
    unfolding s0
    by (rule sys_inv_sched [OF s event_set_ok(1) [OF sys_invD(1) [OF s] that(1)]])
      (rule keeps_trans [OF keeps_upd_event ev_frameD(1) [OF event_set_ok(2) [OF sys_invD(1) [OF s] that(1)]]])
  then show ?thesis
    unfolding krhino_event_set_def event_set_def Let_def
    by (intro if_cases [where P = "\<lambda>r. sys_inv (snd r)"]) (use s in \<open>simp_all add: sys_inv_upd_event\<close>)
qed

lemma inv_wait_event_set:
  assumes s: "sys_inv s" "inv_wait s"
  shows "inv_wait (snd (krhino_event_set ev flags opt s))"
proof -
  let ?s0 = "upd_event ev (\<lambda>e. e\<lparr>event_flags := event_flags e OR flags\<rparr>) s"
  let ?s' = "event_set_loop ev (event_flags (events ?s0 ev)) (blk_list (blk_objs ?s0 ev)) ?s0"
  have "inv_wait (core_sched ?s')" if o: "obj_type (blk_objs s ev) = RHINO_EVENT_OBJ_TYPE"
  proof (rule inv_wait_core_sched)
    note e = event_set_ok [where flags = flags, OF sys_invD(1) [OF s(1)] o] and f = ev_frameD [OF e(2)]
    show "kinv ?s'" by (rule kernel_invD(1) [OF e(1)])
    show "inv_wait ?s'"
    proof (rule inv_wait_one [OF s(2), of ev])
      fix t assume "t \<in> set (blk_list (blk_objs ?s' ev))"
      then have "\<not> met s (event_flags (events s ev) OR flags) t" unfolding e(3) by simp
      then have "\<not> event_status (event_flags (events ?s' ev)) (pend_flags (tcb s t)) (pend_option (tcb s t))"
        using event_status_mono [OF f(9)] by (auto simp: met_def)
      then show "\<not> can_serve ?s' ev (tcb ?s' t)" unfolding can_serve_def f(2-7) by (simp add: o)
    next
      fix o' k assume "o' \<noteq> ev"
      then show "can_serve ?s' o' k = can_serve s o' k"
        unfolding can_serve_def f(2-7) f(8) [OF \<open>o' \<noteq> ev\<close>] by (simp add: upd_event_def cong: kobj_type_t.case_cong)
    qed (use e(4) f(6,7) in simp_all)
  qed
  then show ?thesis
    unfolding krhino_event_set_def event_set_def Let_def
    by (intro if_cases [where P = "\<lambda>r. inv_wait (snd r)"]) (use s(2) in \<open>simp_all add: inv_wait_less_flags\<close>)
qed

end
