(* ===== verification/K_Queue.thy ===== *)
theory K_Queue
  imports K_Task
begin

text \<open>
  Message queues (\<^verbatim>\<open>core/k_queue.c\<close>): a queue of pointers kept in a ring buffer of fixed
  blocks. A message is a 32-bit pointer; the ring holds its four bytes in memory
  (\<open>u8_mem\<close>), a receiver gets it in the variable its argument \<open>msg\<close> points to (\<open>u32_mem\<close>). A
  sender that finds a waiting task passes the message through the control block of the
  task. The counters of a queue are bounded by its size, so they are natural numbers.
\<close>

definition upd_queue :: "oid \<Rightarrow> (kqueue_t \<Rightarrow> kqueue_t) \<Rightarrow> kstate \<Rightarrow> kstate" where
  "upd_queue q f s = s\<lparr>queues := (queues s)(q := f (queues s q))\<rparr>"

definition write_u32 :: "nat \<Rightarrow> u32 \<Rightarrow> kstate \<Rightarrow> kstate" where
  "write_u32 a v s = s\<lparr>u32_mem := (u32_mem s)(a := v)\<rparr>"

text \<open>\<open>sizeof(void *)\<close>\<close>

definition PTR_SIZE :: nat where "PTR_SIZE = 4"

definition task_msg_recv :: "u32 \<Rightarrow> tid \<Rightarrow> kstate \<Rightarrow> kstate" where
  "task_msg_recv p_void task s = pend_task_wakeup task (upd_task task (\<lambda>k. k\<lparr>msg := p_void\<rparr>) s)"

definition queue_create :: "oid \<Rightarrow> nat \<Rightarrow> nat \<Rightarrow> alloc_flag \<Rightarrow> kstate \<Rightarrow> kstat_t \<times> kstate" where
  "queue_create queue start msg_num flag s =
    (if msg_num = 0 then (RHINO_INV_PARAM, s)
     else
       let s = upd_blk queue (\<lambda>b. b\<lparr>blk_list := [], blk_policy := BLK_POLICY_PRI\<rparr>) s;
           s = upd_queue queue (\<lambda>q. q\<lparr>queue_start := start,
                 ringbuf := ringbuf_init start (msg_num * PTR_SIZE) RINGBUF_TYPE_FIX PTR_SIZE (ringbuf q),
                 q_size := msg_num, q_cur_num := 0, q_peak_num := 0, queue_alloc_flag := flag\<rparr>) s;
           s = upd_blk queue (\<lambda>b. b\<lparr>obj_type := RHINO_QUEUE_OBJ_TYPE\<rparr>) s
       in (RHINO_SUCCESS, s))"

definition krhino_queue_create :: "oid \<Rightarrow> nat \<Rightarrow> nat \<Rightarrow> kstate \<Rightarrow> kstat_t \<times> kstate" where
  "krhino_queue_create queue start msg_num s = queue_create queue start msg_num K_OBJ_STATIC_ALLOC s"

definition krhino_queue_del :: "oid \<Rightarrow> kstate \<Rightarrow> kstat_t \<times> kstate" where
  "krhino_queue_del queue s =
    (if g_intrpt_nested_level s > 0 then (RHINO_NOT_CALLED_BY_INTRPT, s)
     else if obj_type (blk_objs s queue) \<noteq> RHINO_QUEUE_OBJ_TYPE then (RHINO_KOBJ_TYPE_ERR, s)
     else if queue_alloc_flag (queues s queue) \<noteq> K_OBJ_STATIC_ALLOC then (RHINO_KOBJ_DEL_ERR, s)
     else
       let s = upd_blk queue (\<lambda>b. b\<lparr>obj_type := RHINO_OBJ_TYPE_NONE\<rparr>) s;
           s = wake_all pend_task_rm queue s;
           s = upd_queue queue (\<lambda>q. q\<lparr>ringbuf := ringbuf_reset (ringbuf q)\<rparr>) s
       in (RHINO_SUCCESS, core_sched s))"

definition msg_send :: "oid \<Rightarrow> u32 \<Rightarrow> bool \<Rightarrow> kstate \<Rightarrow> kstat_t \<times> kstate" where
  "msg_send p_q p_void opt_wake_all s =
    (if obj_type (blk_objs s p_q) \<noteq> RHINO_QUEUE_OBJ_TYPE then (RHINO_KOBJ_TYPE_ERR, s)
     else if q_cur_num (queues s p_q) \<ge> q_size (queues s p_q) then (RHINO_QUEUE_FULL, s)
     else case blk_list (blk_objs s p_q) of
       [] \<Rightarrow>
         let s = upd_queue p_q (\<lambda>q. q\<lparr>q_cur_num := q_cur_num q + 1\<rparr>) s;
             s = (if q_cur_num (queues s p_q) > q_peak_num (queues s p_q)
                  then upd_queue p_q (\<lambda>q. q\<lparr>q_peak_num := q_cur_num q\<rparr>) s else s);
             (_, rb, m) = ringbuf_push (ringbuf (queues s p_q)) (bytes_at (le_bytes p_void)) PTR_SIZE (u8_mem s);
             s = (upd_queue p_q (\<lambda>q. q\<lparr>ringbuf := rb\<rparr>) s)\<lparr>u8_mem := m\<rparr>
         in (RHINO_SUCCESS, s)
     | task # _ \<Rightarrow>
         let s = (if opt_wake_all then wake_all (task_msg_recv p_void) p_q s else task_msg_recv p_void task s)
         in (RHINO_SUCCESS, core_sched s))"

definition krhino_queue_back_send :: "oid \<Rightarrow> u32 \<Rightarrow> kstate \<Rightarrow> kstat_t \<times> kstate" where
  "krhino_queue_back_send queue p_msg s = msg_send queue p_msg False s"

definition krhino_queue_all_send :: "oid \<Rightarrow> u32 \<Rightarrow> kstate \<Rightarrow> kstat_t \<times> kstate" where
  "krhino_queue_all_send queue p_msg s = msg_send queue p_msg True s"

definition krhino_queue_recv :: "oid \<Rightarrow> tick_t \<Rightarrow> nat \<Rightarrow> kstate \<Rightarrow> kres \<times> kstate" where
  "krhino_queue_recv queue ticks p_msg s =
    (if g_intrpt_nested_level s > 0 \<and> ticks \<noteq> RHINO_NO_WAIT then (Ret RHINO_NOT_CALLED_BY_INTRPT, s)
     else if obj_type (blk_objs s queue) \<noteq> RHINO_QUEUE_OBJ_TYPE then (Ret RHINO_KOBJ_TYPE_ERR, s)
     else if q_cur_num (queues s queue) > 0 then
       let (e, pdata, rb) = ringbuf_pop (ringbuf (queues s queue)) (u8_mem s);
           s = (if e = RHINO_SUCCESS then write_u32 p_msg (le_u32 pdata) s else s);
           s = upd_queue queue (\<lambda>q. q\<lparr>ringbuf := rb\<rparr>) s;
           s = upd_queue queue (\<lambda>q. q\<lparr>q_cur_num := q_cur_num q - 1\<rparr>) s
       in (Ret RHINO_SUCCESS, s)
     else if ticks = RHINO_NO_WAIT then (Ret RHINO_NO_PEND_WAIT, write_u32 p_msg 0 s)
     else if g_sched_lock s > 0 then (Ret RHINO_SCHED_DISABLE, write_u32 p_msg 0 s)
     else (Blocked, core_sched (pend_to_blk_obj queue (g_active_task s) ticks s)))"

definition krhino_queue_recv_end :: "nat \<Rightarrow> kstate \<Rightarrow> kstat_t \<times> kstate" where
  "krhino_queue_recv_end p_msg s =
    (let (ret, s) = pend_state_end_proc (g_active_task s) s
     in if ret = RHINO_SUCCESS then (ret, write_u32 p_msg (msg (tcb s (g_active_task s))) s)
        else (ret, write_u32 p_msg 0 s))"

definition krhino_queue_is_full :: "oid \<Rightarrow> kstate \<Rightarrow> kstat_t" where
  "krhino_queue_is_full queue s =
    (if obj_type (blk_objs s queue) \<noteq> RHINO_QUEUE_OBJ_TYPE then RHINO_KOBJ_TYPE_ERR
     else if q_cur_num (queues s queue) \<ge> q_size (queues s queue) then RHINO_QUEUE_FULL
     else RHINO_QUEUE_NOT_FULL)"

definition krhino_queue_flush :: "oid \<Rightarrow> kstate \<Rightarrow> kstat_t \<times> kstate" where
  "krhino_queue_flush queue s =
    (if g_intrpt_nested_level s > 0 then (RHINO_NOT_CALLED_BY_INTRPT, s)
     else if obj_type (blk_objs s queue) \<noteq> RHINO_QUEUE_OBJ_TYPE then (RHINO_KOBJ_TYPE_ERR, s)
     else
       let s = upd_queue queue (\<lambda>q. q\<lparr>q_cur_num := 0\<rparr>) s;
           s = upd_queue queue (\<lambda>q. q\<lparr>ringbuf := ringbuf_reset (ringbuf q)\<rparr>) s
       in (RHINO_SUCCESS, s))"

record msg_info_t =
  info_peak_num :: nat
  info_cur_num :: nat
  info_queue_start :: nat
  info_size :: nat
  pend_entry :: "tid option"

text \<open>\<open>pend_entry\<close> is the first waiting task, or the head of the list itself (\<open>None\<close>).\<close>

definition krhino_queue_info_get :: "oid option \<Rightarrow> bool \<Rightarrow> kstate \<Rightarrow> kstat_t \<times> msg_info_t option" where
  "krhino_queue_info_get queue info_null s =
    (case queue of
       None \<Rightarrow> (RHINO_NULL_PTR, None)
     | Some queue \<Rightarrow>
         if info_null then (RHINO_NULL_PTR, None)
         else if obj_type (blk_objs s queue) \<noteq> RHINO_QUEUE_OBJ_TYPE then (RHINO_KOBJ_TYPE_ERR, None)
         else (RHINO_SUCCESS, Some \<lparr>info_peak_num = q_peak_num (queues s queue), info_cur_num = q_cur_num (queues s queue),
           info_queue_start = queue_start (queues s queue), info_size = q_size (queues s queue),
           pend_entry = (case blk_list (blk_objs s queue) of [] \<Rightarrow> None | t # _ \<Rightarrow> Some t)\<rparr>))"

end
