(* ===== verification/K_QueueInv.thy ===== *)
theory K_QueueInv
  imports K_ObjInv K_Queue
begin

text \<open>
  The calls on message queues keep the invariant and lose no wake-up; \<open>q_rep\<close> ties a queue to
  the sequence of messages in its ring, and a queue without waiting receivers delivers every
  accepted message once and in order.
\<close>

section \<open>Invariants\<close>

lemma upd_queue_sel [simp]:
  "blk_objs (upd_queue q f s) = blk_objs s" "tcb (upd_queue q f s) = tcb s" "u8_mem (upd_queue q f s) = u8_mem s"
  "u32_mem (upd_queue q f s) = u32_mem s" "is_mutex (upd_queue q f s) m = is_mutex s m"
  "queues (upd_queue q f s) q = f (queues s q)" "ctx (upd_queue q f s) = ctx s"
  "g_intrpt_nested_level (upd_queue q f s) = g_intrpt_nested_level s"
  by (simp_all add: upd_queue_def is_mutex_def)

lemma write_u32_sel [simp]:
  "blk_objs (write_u32 a v s) = blk_objs s" "tcb (write_u32 a v s) = tcb s" "u8_mem (write_u32 a v s) = u8_mem s"
  "queues (write_u32 a v s) = queues s" "buf_queues (write_u32 a v s) = buf_queues s"
  "u32_mem (write_u32 a v s) = (u32_mem s)(a := v)" "is_mutex (write_u32 a v s) m = is_mutex s m"
  "g_intrpt_nested_level (write_u32 a v s) = g_intrpt_nested_level s" "objs (write_u32 a v s) = objs s"
  by (simp_all add: write_u32_def is_mutex_def objs_def)

lemma sys_inv_upd_queue: "sys_inv s \<Longrightarrow> sys_inv (upd_queue q f s)"
  unfolding upd_queue_def by (rule sys_inv_data(3))

lemma sys_inv_write_u32: "sys_inv s \<Longrightarrow> sys_inv (write_u32 a v s)"
  unfolding write_u32_def by (rule sys_inv_data(6))

lemma inv_wait_write_u32: "inv_wait s \<Longrightarrow> inv_wait (write_u32 a v s)"
  by (rule inv_wait_shrink [of s]) simp_all

lemma inv_wait_u8_mem: "inv_wait s \<Longrightarrow> inv_wait (s\<lparr>u8_mem := m\<rparr>)"
  by (rule inv_wait_shrink [of s]) (simp_all add: objs_def)

lemma inv_wait_upd_queue:
  assumes "inv_wait s" and "blk_list (blk_objs s q) = [] \<or> q_cur_num (f (queues s q)) \<le> q_cur_num (queues s q)"
    and "obj_type (blk_objs s q) = RHINO_QUEUE_OBJ_TYPE"
  shows "inv_wait (upd_queue q f s)"
proof (rule inv_wait_one [OF assms(1), of q])
  fix t assume t: "t \<in> set (blk_list (blk_objs (upd_queue q f s) q))"
  then have "\<not> can_serve s q (tcb s t)" using assms(1) by (simp add: inv_wait_def)
  then show "\<not> can_serve (upd_queue q f s) q (tcb (upd_queue q f s) t)"
    using t assms(2,3) by (auto simp: can_serve_def)
qed (auto simp: upd_queue_def can_serve_def cong: kobj_type_t.case_cong)

lemma queue_create_eq:
  "queue_create q start n flag s =
    (if n = 0 then (RHINO_INV_PARAM, s) else
     (RHINO_SUCCESS, upd_blk q (\<lambda>b. b\<lparr>blk_list := [], blk_policy := BLK_POLICY_PRI, obj_type := RHINO_QUEUE_OBJ_TYPE\<rparr>)
       (upd_queue q (\<lambda>x. x\<lparr>queue_start := start,
          ringbuf := ringbuf_init start (n * PTR_SIZE) RINGBUF_TYPE_FIX PTR_SIZE (ringbuf x),
          q_size := n, q_cur_num := 0, q_peak_num := 0, queue_alloc_flag := flag\<rparr>) s)))"
  by (simp add: queue_create_def Let_def upd_queue_def upd_blk_def)

lemma sys_inv_queue_create:
  assumes "sys_inv s" and "\<not> is_mutex s q" and "blk_list (blk_objs s q) = []"
  shows "sys_inv (snd (krhino_queue_create q start n s))"
  using assms by (simp add: krhino_queue_create_def queue_create_eq sys_inv_upd_blk sys_inv_upd_queue)

lemma inv_wait_queue_create:
  assumes "inv_wait s" and "blk_list (blk_objs s q) = []"
  shows "inv_wait (snd (krhino_queue_create q start n s))"
proof (cases "n = 0")
  case False
  show ?thesis
    by (rule inv_wait_one [OF assms(1), of q])
      (use False in \<open>auto simp: krhino_queue_create_def queue_create_eq upd_queue_def upd_blk_def can_serve_def
        cong: kobj_type_t.case_cong\<close>)
qed (use assms in \<open>simp add: krhino_queue_create_def queue_create_eq\<close>)

text \<open>The data of a deleted object is written after its type is gone.\<close>

lemma inv_wait_no_type:
  assumes "inv_wait s" and "obj_type (blk_objs s q) = RHINO_OBJ_TYPE_NONE"
  shows "inv_wait (upd_queue q f s)"
proof -
  have "blk_list (blk_objs s q) = []" by (rule inv_wait_idle [OF assms(1)]) (simp add: can_serve_def assms(2))
  then show ?thesis
    by (intro inv_wait_one [OF assms(1), of q]) (auto simp: upd_queue_def can_serve_def cong: kobj_type_t.case_cong)
qed

lemma queue_del_ok:
  assumes s: "sys_inv s"
  shows "sys_inv (snd (krhino_queue_del q s))" and "inv_wait s \<Longrightarrow> inv_wait (snd (krhino_queue_del q s))"
proof -
  let ?d = "wake_all pend_task_rm q (upd_blk q (\<lambda>b. b\<lparr>obj_type := RHINO_OBJ_TYPE_NONE\<rparr>) s)"
  let ?e = "upd_queue q (\<lambda>x. x\<lparr>ringbuf := ringbuf_reset (ringbuf x)\<rparr>) ?d"
  have d: "kernel_inv ?e" "keeps s ?e" "inv_wait s \<Longrightarrow> inv_wait ?e" if m: "\<not> is_mutex s q"
  proof -
    show "kernel_inv ?e" using kernel_inv_data(3) [OF sys_inv_del(1) [OF s m]] by (simp add: upd_queue_def)
    show "keeps s ?e" using keeps_trans [OF sys_inv_del(2) [OF s m] keeps_data(3)] by (simp add: upd_queue_def)
    show "inv_wait ?e" if "inv_wait s"
      by (rule inv_wait_no_type [OF sys_inv_del(3) [OF s m that]]) (rule sys_inv_del(4) [OF s m])
  qed
  then show "sys_inv (snd (krhino_queue_del q s))"
    using s sys_inv_sched [OF s] by (auto simp: krhino_queue_del_def Let_def is_mutex_def)
  show "inv_wait s \<Longrightarrow> inv_wait (snd (krhino_queue_del q s))"
    using d inv_wait_core_sched [OF kernel_invD(1), of ?e] by (auto simp: krhino_queue_del_def Let_def is_mutex_def)
qed

interpretation msgl: payload "\<lambda>t. upd_task t (\<lambda>k. k\<lparr>msg := p\<rparr>)" for p
proof
  fix t s
  show "\<exists>f m. upd_task t (\<lambda>k. k\<lparr>msg := p\<rparr>) s = upd_task t f (s\<lparr>u8_mem := m\<rparr>) \<and>
      same_core (f (tcb s t)) (tcb s t) \<and> pend_flags (f (tcb s t)) = pend_flags (tcb s t) \<and>
      pend_option (f (tcb s t)) = pend_option (tcb s t)"
    by (intro exI [of _ "\<lambda>k. k\<lparr>msg := p\<rparr>"] exI [of _ "u8_mem s"]) (simp add: same_core_def)
qed

lemma task_msg_recv_fun: "task_msg_recv p = (\<lambda>t s. pend_task_wakeup t (upd_task t (\<lambda>k. k\<lparr>msg := p\<rparr>) s))"
  by (simp add: task_msg_recv_def fun_eq_iff)

interpretation msgr: waker "task_msg_recv p" for p
  unfolding task_msg_recv_fun by (rule msgl.load_waker)

text \<open>Sending: to the first waiting task, to all of them, or into the ring.\<close>

definition ring_sent :: "u32 \<Rightarrow> oid \<Rightarrow> kstate \<Rightarrow> kstate" where
  "ring_sent x q s =
    (let (_, rb, m) = ringbuf_push (ringbuf (queues s q)) (bytes_at (le_bytes x)) PTR_SIZE (u8_mem s)
     in upd_queue q (\<lambda>k. k\<lparr>q_cur_num := q_cur_num k + 1, 
            q_peak_num := (if q_cur_num k + 1 > q_peak_num k then q_cur_num k + 1 else q_peak_num k),
          ringbuf := rb\<rparr>) (s\<lparr>u8_mem := m\<rparr>))"

lemma msg_send_eq:
  assumes "obj_type (blk_objs s q) = RHINO_QUEUE_OBJ_TYPE"
  shows "msg_send q x wa s =
    (if q_cur_num (queues s q) \<ge> q_size (queues s q) then (RHINO_QUEUE_FULL, s)
     else if blk_list (blk_objs s q) = [] then (RHINO_SUCCESS, ring_sent x q s)
     else (RHINO_SUCCESS, core_sched (if wa then wake_all (task_msg_recv x) q s
             else task_msg_recv x (hd (blk_list (blk_objs s q))) s)))"
proof -
  have "(let s = upd_queue q (\<lambda>k. k\<lparr>q_cur_num := q_cur_num k + 1\<rparr>) s;
           s = (if q_cur_num (queues s q) > q_peak_num (queues s q)
                then upd_queue q (\<lambda>k. k\<lparr>q_peak_num := q_cur_num k\<rparr>) s else s);
           (_, rb, m) = ringbuf_push (ringbuf (queues s q)) (bytes_at (le_bytes x)) PTR_SIZE (u8_mem s);
           s = (upd_queue q (\<lambda>k. k\<lparr>ringbuf := rb\<rparr>) s)\<lparr>u8_mem := m\<rparr>
         in (RHINO_SUCCESS, s)) = (RHINO_SUCCESS, ring_sent x q s)"
    by (cases "q_cur_num (queues s q) + 1 > q_peak_num (queues s q)")
      (simp_all add: ring_sent_def Let_def upd_queue_def split_beta)
  then show ?thesis using assms by (simp add: msg_send_def split: list.split)
qed

lemma sys_inv_ring_sent: "sys_inv s \<Longrightarrow> sys_inv (ring_sent x q s)"
  by (simp add: ring_sent_def sys_inv_upd_queue sys_inv_data(5) split: prod.split)

lemma sys_inv_msg_send:
  assumes s: "sys_inv s"
  shows "sys_inv (snd (msg_send q x wa s))"
proof (cases "obj_type (blk_objs s q) = RHINO_QUEUE_OBJ_TYPE")
  case True
  then have m: "\<not> is_mutex s q" by (simp add: is_mutex_def)
  show ?thesis
    using s msgr.sys_inv_wake [OF s _ m, of "hd (blk_list (blk_objs s q))"] msgr.sys_inv_wake_all [OF s m]
    by (simp add: msg_send_eq [OF True] sys_inv_ring_sent)
qed (use s in \<open>simp add: msg_send_def\<close>)

lemma inv_wait_msg_send:
  assumes s: "sys_inv s" "inv_wait s"
  shows "inv_wait (snd (msg_send q x wa s))"
proof (cases "obj_type (blk_objs s q) = RHINO_QUEUE_OBJ_TYPE")
  case True
  then have m: "\<not> is_mutex s q" by (simp add: is_mutex_def)
  note k = sys_invD(1) [OF s(1)]
  have "inv_wait (ring_sent x q s)" if "blk_list (blk_objs s q) = []"
    using s(2) that True by (auto simp: ring_sent_def split: prod.split intro!: inv_wait_upd_queue inv_wait_u8_mem)
  then show ?thesis
    using s(2) msgr.inv_wait_wake [OF k _ m s(2), of "hd (blk_list (blk_objs s q))"] msgr.inv_wait_wake_all [OF k m s(2)]
    by (simp add: msg_send_eq [OF True])
qed (use s in \<open>simp add: msg_send_def\<close>)

lemma sys_inv_queue_recv:
  assumes s: "sys_inv s" and a: "g_active_task s \<noteq> idle_tid"
    and time: "ticks = RHINO_WAIT_FOREVER \<or> ticks < 2 ^ 63"
  shows "sys_inv (snd (krhino_queue_recv q ticks p s))"
  using sys_inv_pend [OF s _ _ a _ time, of q] s
  by (auto simp: krhino_queue_recv_def is_mutex_def sys_inv_upd_queue sys_inv_write_u32 word_gt_0 RHINO_NO_WAIT_def
      split: prod.split)

lemma inv_wait_queue_recv:
  assumes s: "sys_inv s" "inv_wait s" and a: "g_active_task s \<noteq> idle_tid"
    and time: "ticks = RHINO_WAIT_FOREVER \<or> ticks < 2 ^ 63"
  shows "inv_wait (snd (krhino_queue_recv q ticks p s))"
  using inv_wait_pend [OF s _ a _ time, of q] s
  by (auto simp: krhino_queue_recv_def is_mutex_def word_gt_0 RHINO_NO_WAIT_def can_serve_def
      split: prod.split intro!: inv_wait_upd_queue inv_wait_write_u32)

lemma queue_flush_ok:
  assumes s: "sys_inv s"
  shows "sys_inv (snd (krhino_queue_flush q s))" and "inv_wait s \<Longrightarrow> inv_wait (snd (krhino_queue_flush q s))"
  using s by (auto simp: krhino_queue_flush_def Let_def sys_inv_upd_queue intro!: inv_wait_upd_queue)

section \<open>The messages of a queue\<close>

definition q_rep :: "oid \<Rightarrow> kstate \<Rightarrow> u32 list \<Rightarrow> bool" where
  "q_rep q s msgs \<longleftrightarrow>
     rb_rep_fix (ringbuf (queues s q)) (u8_mem s) (map le_bytes msgs) \<and> blk_size (ringbuf (queues s q)) = PTR_SIZE \<and>
     rb_size (ringbuf (queues s q)) = PTR_SIZE * q_size (queues s q) \<and>
     q_cur_num (queues s q) = length msgs \<and> length msgs \<le> q_size (queues s q)"

lemma q_rep_create:
  assumes "0 < n"
  shows "q_rep q (snd (krhino_queue_create q start n s)) []"
  using assms
  by (simp add: krhino_queue_create_def queue_create_eq q_rep_def upd_blk_def rb_rep_fix_def rb_wf_def rb_content_def
      rb_used_def rb_size_def ringbuf_init_def ringbuf_reset_def PTR_SIZE_def)

lemma concat_le_bytes: "length (concat (map le_bytes msgs)) = 4 * length msgs"
  by (induction msgs) simp_all

lemma q_rep_room:
  assumes "q_rep q s msgs" and "length msgs < q_size (queues s q)"
  shows "blk_size (ringbuf (queues s q)) \<le> freesize (ringbuf (queues s q))"
proof -
  let ?p = "ringbuf (queues s q)"
  have "rb_used ?p = 4 * length msgs" "freesize ?p \<le> rb_size ?p"
    using assms(1) length_rb_content [of ?p "u8_mem s"] concat_le_bytes [of msgs]
    by (simp_all add: q_rep_def rb_rep_fix_def rb_wf_def)
  then show ?thesis using assms by (simp add: q_rep_def rb_used_def PTR_SIZE_def)
qed

lemma map_le_bytes_at: "map (bytes_at (le_bytes x)) [0..<4] = le_bytes x"
  using map_bytes_at_all [of "le_bytes x"] by simp

lemma q_rep_ring_sent:
  assumes r: "q_rep q s msgs" and l: "length msgs < q_size (queues s q)"
  shows "q_rep q (ring_sent x q s) (msgs @ [x])"
proof -
  let ?p = "ringbuf (queues s q)"
  have f: "rb_rep_fix ?p (u8_mem s) (map le_bytes msgs)" and b: "blk_size ?p = 4"
    using r by (simp_all add: q_rep_def PTR_SIZE_def)
  obtain p' m' where push: "ringbuf_push ?p (bytes_at (le_bytes x)) PTR_SIZE (u8_mem s) = (RHINO_SUCCESS, p', m')"
    and rep: "rb_rep_fix p' m' (map le_bytes msgs @ [le_bytes x])" and same: "rb_buf p' = rb_buf ?p" "rb_end p' = rb_end ?p"
      "blk_size p' = blk_size ?p"
    using push_fix_rep [OF f q_rep_room [OF r l], of "bytes_at (le_bytes x)" PTR_SIZE] b map_le_bytes_at by auto
  show ?thesis using r l rep same by (simp add: q_rep_def ring_sent_def push rb_size_def)
qed

lemma q_rep_recv:
  assumes r: "q_rep q s (x # msgs)" and o: "obj_type (blk_objs s q) = RHINO_QUEUE_OBJ_TYPE"
    and g: "g_intrpt_nested_level s = 0 \<or> ticks = RHINO_NO_WAIT"
  shows "\<exists>s'. krhino_queue_recv q ticks a s = (Ret RHINO_SUCCESS, s') \<and> u32_mem s' a = x \<and> q_rep q s' msgs \<and>
    blk_objs s' = blk_objs s \<and> g_intrpt_nested_level s' = g_intrpt_nested_level s"
proof -
  let ?p = "ringbuf (queues s q)"
  have f: "rb_rep_fix ?p (u8_mem s) (le_bytes x # map le_bytes msgs)" and n: "0 < q_cur_num (queues s q)"
    using r by (simp_all add: q_rep_def)
  obtain p' where pop: "ringbuf_pop ?p (u8_mem s) = (RHINO_SUCCESS, le_bytes x, p')"
    and rep: "rb_rep_fix p' (u8_mem s) (map le_bytes msgs)" and same: "rb_buf p' = rb_buf ?p" "rb_end p' = rb_end ?p"
      "blk_size p' = blk_size ?p"
    using pop_fix_rep [OF f] by auto
  have "krhino_queue_recv q ticks a s = (Ret RHINO_SUCCESS,
      upd_queue q (\<lambda>k. k\<lparr>q_cur_num := q_cur_num k - 1\<rparr>) (upd_queue q (\<lambda>k. k\<lparr>ringbuf := p'\<rparr>) (write_u32 a x s)))"
    using n o g by (auto simp: krhino_queue_recv_def pop le_u32_le_bytes)
  then show ?thesis using r rep same by (simp add: q_rep_def rb_size_def)
qed

text \<open>
  A queue used without waiting, as the common contract of a queue of messages: sending is
  \<open>krhino_queue_back_send\<close>, receiving is \<open>krhino_queue_recv\<close> with \<open>RHINO_NO_WAIT\<close>.
\<close>

definition queue_rep :: "oid \<Rightarrow> kstate \<Rightarrow> u32 list \<Rightarrow> bool" where
  "queue_rep q s msgs \<longleftrightarrow> q_rep q s msgs \<and> obj_type (blk_objs s q) = RHINO_QUEUE_OBJ_TYPE \<and> blk_list (blk_objs s q) = []"

definition queue_put :: "oid \<Rightarrow> u32 \<Rightarrow> kstate \<Rightarrow> kstate option" where
  "queue_put q x s = (case krhino_queue_back_send q x s of (e, s') \<Rightarrow> if e = RHINO_SUCCESS then Some s' else None)"

definition queue_get :: "oid \<Rightarrow> nat \<Rightarrow> kstate \<Rightarrow> (u32 \<times> kstate) option" where
  "queue_get q a s =
    (case krhino_queue_recv q RHINO_NO_WAIT a s of
       (e, s') \<Rightarrow> if e = Ret RHINO_SUCCESS then Some (u32_mem s' a, s') else None)"

interpretation kqueue: msg_fifo "queue_rep q" "queue_put q" "queue_get q a" for q a
proof
  fix s ms x s'
  assume r: "queue_rep q s ms" and p: "queue_put q x s = Some s'"
  have o: "obj_type (blk_objs s q) = RHINO_QUEUE_OBJ_TYPE" and l: "blk_list (blk_objs s q) = []"
    and q: "q_rep q s ms" "q_cur_num (queues s q) = length ms"
    using r by (simp_all add: queue_rep_def q_rep_def)
  have s': "s' = ring_sent x q s" "length ms < q_size (queues s q)"
    using p l q by (auto simp: queue_put_def krhino_queue_back_send_def msg_send_eq [OF o] split: if_splits)
  have "blk_objs (ring_sent x q s) = blk_objs s" by (simp add: ring_sent_def split: prod.split)
  then show "queue_rep q s' (ms @ [x])"
    using q_rep_ring_sent [OF q(1) s'(2)] o l by (simp add: s'(1) queue_rep_def)
next
  show "queue_get q a s = None" if "queue_rep q s []" for s
    using that by (auto simp: queue_rep_def q_rep_def queue_get_def krhino_queue_recv_def)
  show "\<exists>s'. queue_get q a s = Some (x, s') \<and> queue_rep q s' ms" if "queue_rep q s (x # ms)" for s x ms
    using q_rep_recv [of q s x ms RHINO_NO_WAIT a] that by (auto simp: queue_rep_def queue_get_def)
qed

end
