(* ===== verification/K_BufQueue.thy ===== *)
theory K_BufQueue
  imports K_Queue
begin

text \<open>
  Buffer queues (\<^verbatim>\<open>core/k_buf_queue.c\<close>): messages of bytes kept in a ring buffer, of variable or
  of fixed size. Messages are copied from and to memory (\<open>u8_mem\<close>); a sender that finds a
  waiting task copies straight into the buffer that task passed (\<open>msg\<close> of its control
  block).
\<close>

definition upd_bq :: "oid \<Rightarrow> (kbuf_queue_t \<Rightarrow> kbuf_queue_t) \<Rightarrow> kstate \<Rightarrow> kstate" where
  "upd_bq q f s = s\<lparr>buf_queues := (buf_queues s)(q := f (buf_queues s q))\<rparr>"

definition buf_queue_create ::
  "oid \<Rightarrow> nat \<Rightarrow> nat \<Rightarrow> nat \<Rightarrow> alloc_flag \<Rightarrow> nat \<Rightarrow> kstate \<Rightarrow> kstat_t \<times> kstate" where
  "buf_queue_create queue buf sz max_msg flag type s =
    (if max_msg = 0 then (RHINO_INV_PARAM, s)
     else if sz = 0 then (RHINO_BUF_QUEUE_SIZE_ZERO, s)
     else
       let s = upd_blk queue (\<lambda>b. b\<lparr>blk_list := []\<rparr>) s;
           s = upd_bq queue (\<lambda>q. q\<lparr>bq_buf := buf, bq_cur_num := 0, bq_peak_num := 0, max_msg_size := max_msg,
                 bq_alloc_flag := flag\<rparr>) s;
           s = upd_blk queue (\<lambda>b. b\<lparr>blk_policy := BLK_POLICY_PRI, obj_type := RHINO_BUF_QUEUE_OBJ_TYPE\<rparr>) s;
           s = upd_bq queue (\<lambda>q. q\<lparr>bq_ringbuf := ringbuf_init buf sz type max_msg (bq_ringbuf q)\<rparr>) s;
           s = upd_bq queue (\<lambda>q. q\<lparr>min_free_buf_size := freesize (bq_ringbuf q)\<rparr>) s
       in (RHINO_SUCCESS, s))"

definition krhino_buf_queue_create :: "oid \<Rightarrow> nat \<Rightarrow> nat \<Rightarrow> nat \<Rightarrow> kstate \<Rightarrow> kstat_t \<times> kstate" where
  "krhino_buf_queue_create queue buf sz max_msg s =
     buf_queue_create queue buf sz max_msg K_OBJ_STATIC_ALLOC RINGBUF_TYPE_DYN s"

definition krhino_fix_buf_queue_create :: "oid \<Rightarrow> nat \<Rightarrow> nat \<Rightarrow> nat \<Rightarrow> kstate \<Rightarrow> kstat_t \<times> kstate" where
  "krhino_fix_buf_queue_create queue buf msg_size msg_num s =
     buf_queue_create queue buf (msg_size * msg_num mod 2 ^ 32) msg_size K_OBJ_STATIC_ALLOC RINGBUF_TYPE_FIX s"

definition krhino_buf_queue_del :: "oid \<Rightarrow> kstate \<Rightarrow> kstat_t \<times> kstate" where
  "krhino_buf_queue_del queue s =
    (if g_intrpt_nested_level s > 0 then (RHINO_NOT_CALLED_BY_INTRPT, s)
     else if obj_type (blk_objs s queue) \<noteq> RHINO_BUF_QUEUE_OBJ_TYPE then (RHINO_KOBJ_TYPE_ERR, s)
     else if bq_alloc_flag (buf_queues s queue) \<noteq> K_OBJ_STATIC_ALLOC then (RHINO_KOBJ_DEL_ERR, s)
     else
       let s = upd_blk queue (\<lambda>b. b\<lparr>obj_type := RHINO_OBJ_TYPE_NONE\<rparr>) s;
           s = wake_all pend_task_rm queue s;
           s = upd_bq queue (\<lambda>q. q\<lparr>bq_ringbuf := ringbuf_reset (bq_ringbuf q)\<rparr>) s
       in (RHINO_SUCCESS, core_sched s))"

text \<open>What a sent message adds to the counters of a queue that kept it.\<close>

definition bq_sent :: "k_ringbuf_t \<Rightarrow> kbuf_queue_t \<Rightarrow> kbuf_queue_t" where
  "bq_sent rb q =
    (let q = q\<lparr>bq_ringbuf := rb\<rparr>;
         q = q\<lparr>bq_cur_num := bq_cur_num q + 1\<rparr>;
         q = (if bq_peak_num q < bq_cur_num q then q\<lparr>bq_peak_num := bq_cur_num q\<rparr> else q)
     in if min_free_buf_size q > freesize (bq_ringbuf q)
        then q\<lparr>min_free_buf_size := freesize (bq_ringbuf q)\<rparr> else q)"

definition buf_queue_send :: "oid \<Rightarrow> u32 \<Rightarrow> nat \<Rightarrow> kstate \<Rightarrow> kstat_t \<times> kstate" where
  "buf_queue_send queue p_msg msg_size s =
    (let data = (\<lambda>i. u8_mem s (unat p_msg + i))
     in if obj_type (blk_objs s queue) \<noteq> RHINO_BUF_QUEUE_OBJ_TYPE then (RHINO_KOBJ_TYPE_ERR, s)
        else if msg_size > max_msg_size (buf_queues s queue) then (RHINO_BUF_QUEUE_MSG_SIZE_OVERFLOW, s)
        else if msg_size = 0 then (RHINO_INV_PARAM, s)
        else case blk_list (blk_objs s queue) of
          [] \<Rightarrow>
            let (err, rb, m) = ringbuf_push (bq_ringbuf (buf_queues s queue)) data msg_size (u8_mem s)
            in if err \<noteq> RHINO_SUCCESS
               then (if err = RHINO_RINGBUF_FULL then RHINO_BUF_QUEUE_FULL else err,
                     upd_bq queue (\<lambda>q. q\<lparr>bq_ringbuf := rb\<rparr>) (s\<lparr>u8_mem := m\<rparr>))
               else (RHINO_SUCCESS, upd_bq queue (bq_sent rb) (s\<lparr>u8_mem := m\<rparr>))
        | task # _ \<Rightarrow>
            let s = s\<lparr>u8_mem := memcpy (unat (msg (tcb s task))) data msg_size (u8_mem s)\<rparr>;
                s = upd_task task (\<lambda>k. k\<lparr>bq_msg_size := msg_size\<rparr>) s;
                s = pend_task_wakeup task s
            in (RHINO_SUCCESS, core_sched s))"

definition krhino_buf_queue_send :: "oid \<Rightarrow> u32 \<Rightarrow> nat \<Rightarrow> kstate \<Rightarrow> kstat_t \<times> kstate" where
  "krhino_buf_queue_send queue p_msg sz s = buf_queue_send queue p_msg sz s"

definition krhino_buf_queue_recv :: "oid \<Rightarrow> tick_t \<Rightarrow> u32 \<Rightarrow> nat \<Rightarrow> kstate \<Rightarrow> kres \<times> kstate" where
  "krhino_buf_queue_recv queue ticks p_msg p_size s =
    (if g_intrpt_nested_level s > 0 \<and> ticks \<noteq> RHINO_NO_WAIT then (Ret RHINO_NOT_CALLED_BY_INTRPT, s)
     else if obj_type (blk_objs s queue) \<noteq> RHINO_BUF_QUEUE_OBJ_TYPE then (Ret RHINO_KOBJ_TYPE_ERR, s)
     else if \<not> ringbuf_is_empty (bq_ringbuf (buf_queues s queue)) then
       let (e, pdata, rb) = ringbuf_pop (bq_ringbuf (buf_queues s queue)) (u8_mem s);
           s = (if e = RHINO_SUCCESS
                then write_u32 p_size (of_nat (length pdata))
                       (s\<lparr>u8_mem := memcpy (unat p_msg) (bytes_at pdata) (length pdata) (u8_mem s)\<rparr>)
                else s);
           s = upd_bq queue (\<lambda>q. q\<lparr>bq_ringbuf := rb\<rparr>) s;
           s = upd_bq queue (\<lambda>q. q\<lparr>bq_cur_num := bq_cur_num q - 1\<rparr>) s
       in (Ret RHINO_SUCCESS, s)
     else if ticks = RHINO_NO_WAIT then (Ret RHINO_NO_PEND_WAIT, write_u32 p_size 0 s)
     else if g_sched_lock s > 0 then (Ret RHINO_SCHED_DISABLE, write_u32 p_size 0 s)
     else
       let s = upd_task (g_active_task s) (\<lambda>k. k\<lparr>msg := p_msg\<rparr>) s;
           s = pend_to_blk_obj queue (g_active_task s) ticks s
       in (Blocked, core_sched s))"

definition krhino_buf_queue_recv_end :: "nat \<Rightarrow> kstate \<Rightarrow> kstat_t \<times> kstate" where
  "krhino_buf_queue_recv_end p_size s =
    (let (ret, s) = pend_state_end_proc (g_active_task s) s
     in if ret = RHINO_SUCCESS then (ret, write_u32 p_size (of_nat (bq_msg_size (tcb s (g_active_task s)))) s)
        else (ret, write_u32 p_size 0 s))"

definition krhino_buf_queue_flush :: "oid \<Rightarrow> kstate \<Rightarrow> kstat_t \<times> kstate" where
  "krhino_buf_queue_flush queue s =
    (if g_intrpt_nested_level s > 0 then (RHINO_NOT_CALLED_BY_INTRPT, s)
     else if obj_type (blk_objs s queue) \<noteq> RHINO_BUF_QUEUE_OBJ_TYPE then (RHINO_KOBJ_TYPE_ERR, s)
     else
       let s = upd_bq queue (\<lambda>q. q\<lparr>bq_ringbuf := ringbuf_reset (bq_ringbuf q)\<rparr>) s;
           s = upd_bq queue (\<lambda>q. q\<lparr>bq_cur_num := 0, bq_peak_num := 0, min_free_buf_size := freesize (bq_ringbuf q)\<rparr>) s
       in (RHINO_SUCCESS, s))"

record kbuf_queue_info_t =
  info_buf_size :: nat
  info_max_msg_size :: nat
  bq_info_cur_num :: nat
  bq_info_peak_num :: nat
  info_free_buf_size :: nat
  info_min_free_buf_size :: nat

definition krhino_buf_queue_info_get :: "oid \<Rightarrow> kstate \<Rightarrow> kstat_t \<times> kbuf_queue_info_t option" where
  "krhino_buf_queue_info_get queue s =
    (if obj_type (blk_objs s queue) \<noteq> RHINO_BUF_QUEUE_OBJ_TYPE then (RHINO_KOBJ_TYPE_ERR, None)
     else
       let q = buf_queues s queue; rb = bq_ringbuf q
       in (RHINO_SUCCESS, Some \<lparr>info_buf_size = rb_end rb - rb_buf rb, info_max_msg_size = max_msg_size q,
             bq_info_cur_num = bq_cur_num q, bq_info_peak_num = bq_peak_num q,
             info_free_buf_size = freesize rb, info_min_free_buf_size = min_free_buf_size q\<rparr>))"

end
