(* ===== verification/K_BufQueueInv.thy ===== *)
theory K_BufQueueInv
  imports K_QueueInv K_BufQueue
begin

text \<open>
  The calls on buffer queues keep the invariant and lose no wake-up; \<open>bq_rep\<close> ties a queue
  to the messages in its ring: a send appends the bytes of the caller's buffer, a receive
  copies the oldest message out.
\<close>

section \<open>Invariants\<close>

lemma upd_bq_sel [simp]:
  "blk_objs (upd_bq q f s) = blk_objs s" "tcb (upd_bq q f s) = tcb s" "u8_mem (upd_bq q f s) = u8_mem s"
  "u32_mem (upd_bq q f s) = u32_mem s" "is_mutex (upd_bq q f s) m = is_mutex s m"
  "buf_queues (upd_bq q f s) q = f (buf_queues s q)" "ctx (upd_bq q f s) = ctx s"
  by (simp_all add: upd_bq_def is_mutex_def)

lemma sys_inv_upd_bq: "sys_inv s \<Longrightarrow> sys_inv (upd_bq q f s)"
  unfolding upd_bq_def by (rule sys_inv_data(4))

lemma inv_wait_upd_bq:
  assumes "inv_wait s" and "blk_list (blk_objs s q) = [] \<or> ringbuf_is_empty (bq_ringbuf (f (buf_queues s q)))"
    and "obj_type (blk_objs s q) = RHINO_BUF_QUEUE_OBJ_TYPE"
  shows "inv_wait (upd_bq q f s)"
  by (rule inv_wait_one [OF assms(1), of q])
    (use assms(2,3) in \<open>auto simp: upd_bq_def can_serve_def cong: kobj_type_t.case_cong\<close>)

lemma buf_queue_create_eq:
  "buf_queue_create q buf sz mx flag type s =
    (if mx = 0 then (RHINO_INV_PARAM, s) else if sz = 0 then (RHINO_BUF_QUEUE_SIZE_ZERO, s)
     else (RHINO_SUCCESS,
       upd_blk q (\<lambda>b. b\<lparr>blk_list := [], blk_policy := BLK_POLICY_PRI, obj_type := RHINO_BUF_QUEUE_OBJ_TYPE\<rparr>)
       (upd_bq q (\<lambda>k. k\<lparr>bq_buf := buf, bq_cur_num := 0, bq_peak_num := 0, max_msg_size := mx, bq_alloc_flag := flag,
          bq_ringbuf := ringbuf_init buf sz type mx (bq_ringbuf k), min_free_buf_size := sz\<rparr>) s)))"
  by (simp add: buf_queue_create_def Let_def upd_bq_def upd_blk_def ringbuf_init_def ringbuf_reset_def)

lemma buf_queue_create_ok:
  assumes "blk_list (blk_objs s q) = []"
  shows "sys_inv s \<Longrightarrow> \<not> is_mutex s q \<Longrightarrow> sys_inv (snd (buf_queue_create q buf sz mx flag type s))"
    and "inv_wait s \<Longrightarrow> inv_wait (snd (buf_queue_create q buf sz mx flag type s))"
proof -
  show "sys_inv s \<Longrightarrow> \<not> is_mutex s q \<Longrightarrow> sys_inv (snd (buf_queue_create q buf sz mx flag type s))"
    using assms by (simp add: buf_queue_create_eq sys_inv_upd_blk sys_inv_upd_bq)
  assume w: "inv_wait s"
  show "inv_wait (snd (buf_queue_create q buf sz mx flag type s))"
  proof (cases "mx = 0 \<or> sz = 0")
    case False
    show ?thesis
      by (rule inv_wait_one [OF w, of q])
        (use False in \<open>auto simp: buf_queue_create_eq upd_bq_def upd_blk_def can_serve_def cong: kobj_type_t.case_cong\<close>)
  qed (use w in \<open>auto simp: buf_queue_create_eq\<close>)
qed

lemma buf_queue_del_ok:
  assumes s: "sys_inv s"
  shows "sys_inv (snd (krhino_buf_queue_del q s))" and "inv_wait s \<Longrightarrow> inv_wait (snd (krhino_buf_queue_del q s))"
proof -
  let ?d = "wake_all pend_task_rm q (upd_blk q (\<lambda>b. b\<lparr>obj_type := RHINO_OBJ_TYPE_NONE\<rparr>) s)"
  let ?e = "upd_bq q (\<lambda>k. k\<lparr>bq_ringbuf := ringbuf_reset (bq_ringbuf k)\<rparr>) ?d"
  have d: "kernel_inv ?e" "keeps s ?e" "inv_wait s \<Longrightarrow> inv_wait ?e" if m: "\<not> is_mutex s q"
  proof -
    show "kernel_inv ?e" using kernel_inv_data(4) [OF sys_inv_del(1) [OF s m]] by (simp add: upd_bq_def)
    show "keeps s ?e" using keeps_trans [OF sys_inv_del(2) [OF s m] keeps_data(4)] by (simp add: upd_bq_def)
    assume w: "inv_wait s"
    have "blk_list (blk_objs ?d q) = []"
      by (rule inv_wait_idle [OF sys_inv_del(3) [OF s m w]]) (simp add: can_serve_def sys_inv_del(4) [OF s m])
    then show "inv_wait ?e"
      by (intro inv_wait_one [OF sys_inv_del(3) [OF s m w], of q])
        (auto simp: upd_bq_def can_serve_def cong: kobj_type_t.case_cong)
  qed
  then show "sys_inv (snd (krhino_buf_queue_del q s))"
    using s sys_inv_sched [OF s] by (auto simp: krhino_buf_queue_del_def Let_def is_mutex_def)
  show "inv_wait s \<Longrightarrow> inv_wait (snd (krhino_buf_queue_del q s))"
    using d inv_wait_core_sched [OF kernel_invD(1), of ?e] by (auto simp: krhino_buf_queue_del_def Let_def is_mutex_def)
qed

text \<open>Copying a message to a waiting task.\<close>

definition deliver :: "(nat \<Rightarrow> u8) \<Rightarrow> nat \<Rightarrow> tid \<Rightarrow> kstate \<Rightarrow> kstate" where
  "deliver data n t s = upd_task t (\<lambda>k. k\<lparr>bq_msg_size := n\<rparr>)
     (s\<lparr>u8_mem := memcpy (unat (msg (tcb s t))) data n (u8_mem s)\<rparr>)"

interpretation bql: payload "deliver data n" for data n
proof
  fix t s
  show "\<exists>f m. deliver data n t s = upd_task t f (s\<lparr>u8_mem := m\<rparr>) \<and> same_core (f (tcb s t)) (tcb s t) \<and>
      pend_flags (f (tcb s t)) = pend_flags (tcb s t) \<and> pend_option (f (tcb s t)) = pend_option (tcb s t)"
    unfolding deliver_def
    by (intro exI [of _ "\<lambda>k. k\<lparr>bq_msg_size := n\<rparr>"] exI [of _ "memcpy (unat (msg (tcb s t))) data n (u8_mem s)"])
      (simp add: same_core_def)
qed

interpretation bqr: waker "\<lambda>t s. pend_task_wakeup t (deliver data n t s)" for data n
  by (rule bql.load_waker)

lemma buf_queue_send_eq:
  assumes "obj_type (blk_objs s q) = RHINO_BUF_QUEUE_OBJ_TYPE" and "n \<le> max_msg_size (buf_queues s q)" and "0 < n"
  shows "buf_queue_send q p n s =
    (let data = (\<lambda>i. u8_mem s (unat p + i)) in
     if blk_list (blk_objs s q) = [] then
       (case ringbuf_push (bq_ringbuf (buf_queues s q)) data n (u8_mem s) of (err, rb, m) \<Rightarrow>
         (if err = RHINO_SUCCESS then (RHINO_SUCCESS, upd_bq q (bq_sent rb) (s\<lparr>u8_mem := m\<rparr>))
          else (if err = RHINO_RINGBUF_FULL then RHINO_BUF_QUEUE_FULL else err,
                upd_bq q (\<lambda>k. k\<lparr>bq_ringbuf := rb\<rparr>) (s\<lparr>u8_mem := m\<rparr>))))
     else (RHINO_SUCCESS, core_sched (pend_task_wakeup (hd (blk_list (blk_objs s q)))
             (deliver data n (hd (blk_list (blk_objs s q))) s))))"
  using assms by (simp add: buf_queue_send_def Let_def deliver_def split: list.split prod.split)

lemma buf_queue_send_refused:
  "obj_type (blk_objs s q) \<noteq> RHINO_BUF_QUEUE_OBJ_TYPE \<or> max_msg_size (buf_queues s q) < n \<or> n = 0 \<Longrightarrow>
    snd (buf_queue_send q p n s) = s"
  by (auto simp: buf_queue_send_def Let_def)

lemma sys_inv_buf_queue_send:
  assumes s: "sys_inv s"
  shows "sys_inv (snd (krhino_buf_queue_send q p n s))"
proof (cases "obj_type (blk_objs s q) \<noteq> RHINO_BUF_QUEUE_OBJ_TYPE \<or> max_msg_size (buf_queues s q) < n \<or> n = 0")
  case False
  then have ok: "obj_type (blk_objs s q) = RHINO_BUF_QUEUE_OBJ_TYPE" "n \<le> max_msg_size (buf_queues s q)" "0 < n"
    by auto
  then have m: "\<not> is_mutex s q" by (simp add: is_mutex_def)
  show ?thesis
    using bqr.sys_inv_wake [OF s _ m, of "hd (blk_list (blk_objs s q))"]
    by (auto simp: krhino_buf_queue_send_def buf_queue_send_eq [OF ok] Let_def s split: prod.split
        intro!: sys_inv_upd_bq sys_inv_data(5))
qed (simp add: krhino_buf_queue_send_def buf_queue_send_refused s)

lemma inv_wait_buf_queue_send:
  assumes s: "sys_inv s" "inv_wait s"
  shows "inv_wait (snd (krhino_buf_queue_send q p n s))"
proof (cases "obj_type (blk_objs s q) \<noteq> RHINO_BUF_QUEUE_OBJ_TYPE \<or> max_msg_size (buf_queues s q) < n \<or> n = 0")
  case False
  then have ok: "obj_type (blk_objs s q) = RHINO_BUF_QUEUE_OBJ_TYPE" "n \<le> max_msg_size (buf_queues s q)" "0 < n"
    by auto
  then have m: "\<not> is_mutex s q" by (simp add: is_mutex_def)
  show ?thesis
    using bqr.inv_wait_wake [OF sys_invD(1) [OF s(1)] _ m s(2), of "hd (blk_list (blk_objs s q))"]
    by (auto simp: krhino_buf_queue_send_def buf_queue_send_eq [OF ok] Let_def s(2) ok split: prod.split
        intro!: inv_wait_upd_bq inv_wait_u8_mem)
qed (simp add: krhino_buf_queue_send_def buf_queue_send_refused s)

lemma sys_inv_buf_queue_recv:
  assumes s: "sys_inv s" and a: "g_active_task s \<noteq> idle_tid"
    and time: "ticks = RHINO_WAIT_FOREVER \<or> ticks < 2 ^ 63"
  shows "sys_inv (snd (krhino_buf_queue_recv q ticks p z s))"
proof -
  let ?w = "upd_task (g_active_task s) (\<lambda>k. k\<lparr>msg := p\<rparr>) s"
  have w: "sys_inv ?w" by (rule sys_inv_upd_task [OF s]) (simp add: same_core_def)
  have sel: "g_active_task ?w = g_active_task s" "g_intrpt_nested_level ?w = g_intrpt_nested_level s"
    "g_sched_lock ?w = g_sched_lock s" "is_mutex ?w q = is_mutex s q"
    by (simp_all add: upd_task_def is_mutex_def)
  have "sys_inv (core_sched (pend_to_blk_obj q (g_active_task s) ticks ?w))"
    if "g_intrpt_nested_level s = 0" "g_sched_lock s = 0" "\<not> is_mutex s q"
    using sys_inv_pend [OF w _ _ _ _ time, of q] that a by (simp add: sel)
  then show ?thesis
    using s by (auto simp: krhino_buf_queue_recv_def Let_def sel(1) is_mutex_def word_gt_0 RHINO_NO_WAIT_def
        sys_inv_upd_bq sys_inv_write_u32 sys_inv_data(5) split: prod.split)
qed

lemma inv_wait_buf_queue_recv:
  assumes s: "sys_inv s" "inv_wait s" and a: "g_active_task s \<noteq> idle_tid"
    and time: "ticks = RHINO_WAIT_FOREVER \<or> ticks < 2 ^ 63"
  shows "inv_wait (snd (krhino_buf_queue_recv q ticks p z s))"
proof -
  let ?w = "upd_task (g_active_task s) (\<lambda>k. k\<lparr>msg := p\<rparr>) s"
  have w: "sys_inv ?w" by (rule sys_inv_upd_task [OF s(1)]) (simp add: same_core_def)
  have sel: "g_active_task ?w = g_active_task s" "g_intrpt_nested_level ?w = g_intrpt_nested_level s"
    "is_mutex ?w q = is_mutex s q" "blk_objs ?w = blk_objs s" "buf_queues ?w = buf_queues s"
    by (simp_all add: upd_task_def is_mutex_def)
  have iw: "inv_wait ?w"
    by (rule inv_wait_shrink [OF s(2)]) (auto simp: upd_task_def objs_def fun_eq_iff)
  have blocked: "inv_wait (core_sched (pend_to_blk_obj q (g_active_task s) ticks ?w))"
    if "g_intrpt_nested_level s = 0" "obj_type (blk_objs s q) = RHINO_BUF_QUEUE_OBJ_TYPE"
      "ringbuf_is_empty (bq_ringbuf (buf_queues s q))"
    using inv_wait_pend [OF w iw _ _ _ time, of q] that a by (simp add: sel can_serve_def is_mutex_def)
  have idle: "blk_list (blk_objs s q) = []" if "obj_type (blk_objs s q) = RHINO_BUF_QUEUE_OBJ_TYPE"
      "\<not> ringbuf_is_empty (bq_ringbuf (buf_queues s q))"
    by (rule inv_wait_idle [OF s(2)]) (simp add: can_serve_def that)
  show ?thesis
    using s(2) blocked idle
    by (auto simp: krhino_buf_queue_recv_def Let_def sel(1) word_gt_0 RHINO_NO_WAIT_def
        split: prod.split intro!: inv_wait_upd_bq inv_wait_write_u32 inv_wait_u8_mem)
qed

lemma reset_empty: "rb_buf p < rb_end p \<Longrightarrow> ringbuf_is_empty (ringbuf_reset p)"
  by (simp add: ringbuf_is_empty_def ringbuf_reset_def)

lemma buf_queue_flush_ok:
  assumes s: "sys_inv s"
  shows "sys_inv (snd (krhino_buf_queue_flush q s))"
    and "rb_buf (bq_ringbuf (buf_queues s q)) < rb_end (bq_ringbuf (buf_queues s q)) \<Longrightarrow> inv_wait s \<Longrightarrow>
      inv_wait (snd (krhino_buf_queue_flush q s))"
  using s by (auto simp: krhino_buf_queue_flush_def Let_def sys_inv_upd_bq reset_empty intro!: inv_wait_upd_bq)

section \<open>The messages of a queue\<close>

definition bq_rep :: "oid \<Rightarrow> kstate \<Rightarrow> u8 list list \<Rightarrow> bool" where
  "bq_rep q s msgs \<longleftrightarrow> rb_rep (bq_ringbuf (buf_queues s q), u8_mem s) msgs \<and> bq_cur_num (buf_queues s q) = length msgs"

lemma rb_rep_mem:
  assumes "rb_rep (p, m) msgs" and "\<And>a. rb_buf p \<le> a \<Longrightarrow> a < rb_end p \<Longrightarrow> m' a = m a"
  shows "rb_rep (p, m') msgs"
proof -
  have w: "rb_wf p" using assms(1) by (auto simp: rb_rep_def rb_rep_dyn_def rb_rep_fix_def)
  then have n: "0 < rb_size p" "rb_end p = rb_buf p + rb_size p" by (auto simp: rb_wf_def rb_size_def)
  have "rb_buf p \<le> rb_cell p i \<and> rb_cell p i < rb_end p" for i
    using mod_less_divisor [OF n(1), of "rb_head p - rb_buf p + i"] n(2) by (simp add: rb_cell_def)
  then have "rb_content p m' = rb_content p m" using assms(2) by (simp add: rb_content_def)
  then show ?thesis using assms(1) by (simp add: rb_rep_def rb_rep_dyn_def rb_rep_fix_def)
qed

lemma bq_rep_send:
  assumes r: "bq_rep q s msgs" and o: "obj_type (blk_objs s q) = RHINO_BUF_QUEUE_OBJ_TYPE"
    and l: "blk_list (blk_objs s q) = []"
    and f: "rb_type (bq_ringbuf (buf_queues s q)) = RINGBUF_TYPE_FIX \<Longrightarrow> n = blk_size (bq_ringbuf (buf_queues s q))"
    and e: "krhino_buf_queue_send q p n s = (RHINO_SUCCESS, s')"
  shows "bq_rep q s' (msgs @ [mem_read (u8_mem s) (unat p) n])" "blk_objs s' = blk_objs s"
proof -
  let ?x = "mem_read (u8_mem s) (unat p) n" and ?r = "bq_ringbuf (buf_queues s q)"
  let ?d = "\<lambda>i. u8_mem s (unat p + i)"
  have ok: "n \<le> max_msg_size (buf_queues s q)" "0 < n"
    using e o by (auto simp: krhino_buf_queue_send_def buf_queue_send_def Let_def split: if_splits)
  obtain rb m where push: "ringbuf_push ?r ?d n (u8_mem s) = (RHINO_SUCCESS, rb, m)"
    and s': "s' = upd_bq q (bq_sent rb) (s\<lparr>u8_mem := m\<rparr>)"
    using e l by (auto simp: krhino_buf_queue_send_def buf_queue_send_eq [OF o ok] Let_def split: prod.splits if_splits)
  have b: "rb_rep (?r, u8_mem s) msgs" using r by (simp add: bq_rep_def)
  have "rb_rep (rb, m) (msgs @ [?x])"
    using ring_push_rep [OF b f push] by (simp add: mem_read_def)
  then show "bq_rep q s' (msgs @ [?x])" using r by (auto simp: s' bq_rep_def bq_sent_def Let_def)
  show "blk_objs s' = blk_objs s" by (simp add: s')
qed

lemma bq_rep_recv:
  assumes r: "bq_rep q s (x # msgs)" and o: "obj_type (blk_objs s q) = RHINO_BUF_QUEUE_OBJ_TYPE"
    and g: "g_intrpt_nested_level s = 0 \<or> ticks = RHINO_NO_WAIT"
    and out: "unat p + length x \<le> rb_buf (bq_ringbuf (buf_queues s q)) \<or> rb_end (bq_ringbuf (buf_queues s q)) \<le> unat p"
  shows "\<exists>s'. krhino_buf_queue_recv q ticks p z s = (Ret RHINO_SUCCESS, s') \<and>
    mem_read (u8_mem s') (unat p) (length x) = x \<and> u32_mem s' z = of_nat (length x) \<and> bq_rep q s' msgs"
proof -
  let ?r = "bq_ringbuf (buf_queues s q)"
  have b: "rb_rep (?r, u8_mem s) (x # msgs)" using r by (simp add: bq_rep_def)
  obtain rb where pop: "ringbuf_pop ?r (u8_mem s) = (RHINO_SUCCESS, x, rb)" and rep: "rb_rep (rb, u8_mem s) msgs"
    and same: "rb_buf rb = rb_buf ?r" "rb_end rb = rb_end ?r"
    using b pop_dyn [of ?r "u8_mem s" x msgs] pop_fix_rep [of ?r "u8_mem s" x msgs] by (auto simp: rb_rep_def)
  have ne: "\<not> ringbuf_is_empty ?r"
    using pop by (auto simp: ringbuf_pop_def split: if_splits)
  let ?m = "memcpy (unat p) (bytes_at x) (length x) (u8_mem s)"
  have "rb_rep (rb, ?m) msgs"
    by (rule rb_rep_mem [OF rep]) (use out same in \<open>auto simp: memcpy_def\<close>)
  moreover have "krhino_buf_queue_recv q ticks p z s = (Ret RHINO_SUCCESS,
      upd_bq q (\<lambda>k. k\<lparr>bq_cur_num := bq_cur_num k - 1\<rparr>) (upd_bq q (\<lambda>k. k\<lparr>bq_ringbuf := rb\<rparr>)
        (write_u32 z (of_nat (length x)) (s\<lparr>u8_mem := ?m\<rparr>))))"
    using o g ne by (auto simp: krhino_buf_queue_recv_def pop)
  ultimately show ?thesis using r by (simp add: bq_rep_def mem_read_memcpy map_bytes_at_all)
qed

end
