(* ===== verification/K_TaskInv.thy ===== *)
theory K_TaskInv
  imports K_Task K_SysInv
begin

text \<open>
  The calls of \<^verbatim>\<open>core/k_task.c\<close> keep the invariant: creation, sleep, yield, suspend and
  resume, a change of the base priority (the priority in force becomes the effective one),
  and deletion, which hands every mutex of the task to its first waiter.
\<close>

section \<open>One task changes its state\<close>

lemma kernel_inv_one_task:
  assumes k: "kernel_inv s" and t: "t \<noteq> idle_tid"
    and s': "s' = s\<lparr>tcb := (tcb s)(t := k'), g_ready_queue := rq, g_tick_head := th\<rparr>"
    and same: "prio k' = prio (tcb s t)" "b_prio k' = b_prio (tcb s t)" "mutex_list k' = mutex_list (tcb s t)"
      "live k' = live (tcb s t)" "pended k' = pended (tcb s t)" "pended k' \<Longrightarrow> blk_obj k' = blk_obj (tcb s t)"
    and susp: "live k' \<Longrightarrow> suspended k' \<longleftrightarrow> suspend_count k' > 0"
    and r: "inv_ready s'" and tk: "inv_tick s'"
  shows "kernel_inv s'"
proof -
  note i = kinvD [OF kernel_invD(1) [OF k]]
  have b: "inv_blk s'"
    by (rule inv_blk_cong [OF _ _ _ _ i(2)]) (use same in \<open>auto simp: s'\<close>)
  have "inv_tasks s'"
    by (rule inv_tasks_cong [OF _ _ _ _ _ i(4)]) (use same susp i(4) in \<open>auto simp: s' inv_tasks_def\<close>)
  moreover have "inv_idle s'" using i(5) t by (simp add: s' inv_idle_def)
  moreover have "no_fault s'" using i(6) by (simp add: s' no_fault_def)
  moreover have "pi_inv s'"
    by (rule pi_inv_cong_same [OF kernel_invD(1) [OF k] b _ _ _ _ kernel_invD(2) [OF k]])
      (use same in \<open>auto simp: s' is_mutex_def\<close>)
  ultimately show ?thesis using r b tk by (simp add: kernel_inv_def kinv_def)
qed

lemma kernel_inv_state:
  assumes k: "kernel_inv s" and t: "t \<noteq> idle_tid"
    and same: "prio k' = prio (tcb s t)" "b_prio k' = b_prio (tcb s t)" "mutex_list k' = mutex_list (tcb s t)"
      "live k' = live (tcb s t)" "pended k' = pended (tcb s t)" "pended k' \<Longrightarrow> blk_obj k' = blk_obj (tcb s t)"
      "sleeping k' = sleeping (tcb s t)" "task_state k' = K_RDY \<longleftrightarrow> task_state (tcb s t) = K_RDY"
      "tick_head k' = tick_head (tcb s t)" "tick_match k' = tick_match (tcb s t)"
    and susp: "live k' \<Longrightarrow> suspended k' \<longleftrightarrow> suspend_count k' > 0"
  shows "kernel_inv (s\<lparr>tcb := (tcb s)(t := k')\<rparr>)"
proof (rule kernel_inv_one_task [OF k t _ same(1-6) susp])
  note i = kinvD [OF kernel_invD(1) [OF k]]
  show "s\<lparr>tcb := (tcb s)(t := k')\<rparr> = s\<lparr>tcb := (tcb s)(t := k'), g_ready_queue := g_ready_queue s, g_tick_head := g_tick_head s\<rparr>"
    by simp
  show "inv_ready (s\<lparr>tcb := (tcb s)(t := k')\<rparr>)"
    by (rule inv_ready_cong [OF _ _ _ i(1)]) (use same in auto)
  show "inv_tick (s\<lparr>tcb := (tcb s)(t := k')\<rparr>)"
    by (rule inv_tick_cong [OF _ _ _ _ _ i(3)]) (use same in auto)
qed

lemma kernel_inv_leave_ready:
  assumes k: "kernel_inv s" and t: "task_state (tcb s t) = K_RDY" "t \<noteq> idle_tid"
    and s': "s' = s\<lparr>tcb := (tcb s)(t := k'), g_ready_queue := rq_without t s, g_tick_head := th\<rparr>"
    and same: "prio k' = prio (tcb s t)" "b_prio k' = b_prio (tcb s t)" "mutex_list k' = mutex_list (tcb s t)"
      "live k'" "\<not> pended k'" "task_state k' \<noteq> K_RDY"
    and susp: "suspended k' \<longleftrightarrow> suspend_count k' > 0" and tk: "inv_tick s'"
  shows "kernel_inv s'"
proof (rule kernel_inv_one_task [OF k t(2) s' same(1-3) _ _ _ susp _ tk])
  note i = kinvD [OF kernel_invD(1) [OF k]]
  show "inv_ready s'"
    by (rule inv_ready_leave [OF i(1), of _ t])
      (use rq_without_props [OF i(1,5) t] same t in \<open>auto simp: s'\<close>)
  show "live k' = live (tcb s t)" "pended k' = pended (tcb s t)" using same t by (auto simp: kstates)
  show "pended k' \<Longrightarrow> blk_obj k' = blk_obj (tcb s t)" using same by simp
qed

section \<open>Sleep\<close>

definition put_to_sleep :: "tid \<Rightarrow> tick_t \<Rightarrow> kstate \<Rightarrow> kstate" where
  "put_to_sleep t ticks s =
    (let k = (set_timeout (g_tick_count s) ticks (tcb s t))\<lparr>task_state := K_SLEEP\<rparr>
     in s\<lparr>tcb := (tcb s)(t := k), g_ready_queue := rq_without t s,
          g_tick_head := tick_list_pri_insert ((tcb s)(t := k)) (g_tick_count s) t (g_tick_head s)\<rparr>)"

lemma krhino_task_sleep_eq:
  assumes k: "kinv s" and t: "task_state (tcb s (g_active_task s)) = K_RDY" "g_active_task s \<noteq> idle_tid"
    and g: "ticks > 0" "g_intrpt_nested_level s = 0" "g_sched_lock s = 0"
  shows "krhino_task_sleep ticks s = (Blocked, core_sched (put_to_sleep (g_active_task s) ticks s))"
proof -
  let ?t = "g_active_task s"
  note rm = ready_list_rm_eq [OF kinvD(1) [OF k] kinvD(5) [OF k] t]
  have "ready_list_rm ?t (tick_list_insert ?t ticks (upd_task ?t (\<lambda>k. k\<lparr>task_state := K_SLEEP\<rparr>) s)) =
      put_to_sleep ?t ticks s"
    using g by (intro kstate.equality)
      (auto simp: put_to_sleep_def tick_list_insert_eq upd_task_def rm set_timeout_def Let_def
        intro!: fun_upd_eqI tick_list_pri_insert_cong)
  then show ?thesis using g by (simp add: krhino_task_sleep_def Let_def tick_list_insert_eq upd_task_def)
qed

lemma kernel_inv_put_to_sleep:
  assumes k: "kernel_inv s" and t: "task_state (tcb s t) = K_RDY" "t \<noteq> idle_tid"
    and g: "0 < ticks" "ticks < 2 ^ 63"
  shows "kernel_inv (put_to_sleep t ticks s)"
proof (rule kernel_inv_leave_ready [OF k t])
  let ?s = "put_to_sleep t ticks s" and ?k = "(set_timeout (g_tick_count s) ticks (tcb s t))\<lparr>task_state := K_SLEEP\<rparr>"
  note i = kinvD [OF kernel_invD(1) [OF k]]
  show "?s = s\<lparr>tcb := (tcb s)(t := ?k), g_ready_queue := rq_without t s,
      g_tick_head := tick_list_pri_insert ((tcb s)(t := ?k)) (g_tick_count s) t (g_tick_head s)\<rparr>"
    by (simp add: put_to_sleep_def Let_def)
  have "\<not> tick_head (tcb s t)" using i(3) t by (auto simp: inv_tick_def kstates)
  then show "inv_tick ?s"
    by (rule inv_tick_enter [OF i(3), of t _ "tcb ?s" ticks])
      (use g in \<open>auto simp: put_to_sleep_def Let_def kstates\<close>)
  have "suspend_count (tcb s t) = 0"
    using kinv_suspended [OF kernel_invD(1) [OF k], of t] t by (auto simp: kstates word_gt_0)
  then show "suspended ?k \<longleftrightarrow> suspend_count ?k > 0" by (simp add: suspended_def)
qed (simp_all add: kstates)

lemma sys_inv_task_sleep:
  assumes s: "sys_inv s" and a: "g_active_task s \<noteq> idle_tid" and g: "ticks < 2 ^ 63"
  shows "sys_inv (snd (krhino_task_sleep ticks s))"
proof (cases "ticks = 0 \<or> g_intrpt_nested_level s > 0 \<or> g_sched_lock s > 0")
  case True
  then show ?thesis using s by (auto simp: krhino_task_sleep_def)
next
  case False
  then have z: "0 < ticks" "g_intrpt_nested_level s = 0" "g_sched_lock s = 0" by (auto simp: word_gt_0)
  have r: "task_state (tcb s (g_active_task s)) = K_RDY"
    by (rule sys_inv_rdy [OF s z(2)])
  have "kernel_inv (put_to_sleep (g_active_task s) ticks s)"
    by (rule kernel_inv_put_to_sleep [OF sys_invD(1) [OF s] r a z(1) g])
  then have "sys_inv (core_sched (put_to_sleep (g_active_task s) ticks s))"
    by (rule sys_inv_block [OF s _ _ z(3)]) (simp add: put_to_sleep_def Let_def ctx_def)
  then show ?thesis by (simp add: krhino_task_sleep_eq [OF sys_invD(2) [OF s] r a z])
qed

section \<open>Suspend and resume\<close>

lemma kernel_inv_suspend_ready:
  assumes k: "kernel_inv s" and t: "task_state (tcb s t) = K_RDY" "t \<noteq> idle_tid"
  shows "kernel_inv (s\<lparr>tcb := (tcb s)(t := (tcb s t)\<lparr>suspend_count := 1, task_state := K_SUSPENDED\<rparr>),
    g_ready_queue := rq_without t s\<rparr>)" (is "kernel_inv ?s")
proof (rule kernel_inv_leave_ready [OF k t])
  note i = kinvD [OF kernel_invD(1) [OF k]]
  show "?s = s\<lparr>tcb := (tcb s)(t := (tcb s t)\<lparr>suspend_count := 1, task_state := K_SUSPENDED\<rparr>),
      g_ready_queue := rq_without t s, g_tick_head := g_tick_head s\<rparr>"
    by simp
  show "inv_tick ?s"
    by (rule inv_tick_cong [OF _ _ _ _ _ i(3)]) (use t in \<open>auto simp: kstates\<close>)
qed (simp_all add: kstates)

definition suspend_more :: "tid \<Rightarrow> task_stat_t \<Rightarrow> u8 \<Rightarrow> kstate \<Rightarrow> kstate" where
  "suspend_more t st c s = s\<lparr>tcb := (tcb s)(t := (tcb s t)\<lparr>suspend_count := c, task_state := st\<rparr>)\<rparr>"

lemma kernel_inv_suspend_more:
  assumes k: "kernel_inv s" and t: "t \<noteq> idle_tid"
    and st: "(task_state (tcb s t), st) \<in> {(K_SLEEP, K_SLEEP_SUSPENDED), (K_PEND, K_PEND_SUSPENDED),
      (K_SLEEP_SUSPENDED, K_SLEEP), (K_PEND_SUSPENDED, K_PEND)} \<or> task_state (tcb s t) = st \<and> live (tcb s t)"
    and c: "st = K_SUSPENDED \<or> st = K_SLEEP_SUSPENDED \<or> st = K_PEND_SUSPENDED \<longleftrightarrow> c > 0"
  shows "kernel_inv (suspend_more t st c s)"
  unfolding suspend_more_def
  by (rule kernel_inv_state [OF k t]) (use st c in \<open>auto simp: kstates\<close>)

lemma task_suspend_eq:
  assumes k: "kinv s" and t: "task \<noteq> idle_tid"
  shows "task_suspend task s =
    (if task = g_active_task s \<and> g_sched_lock s > 0 then (RHINO_SCHED_DISABLE, s)
     else if task_state (tcb s task) = K_RDY then
       (RHINO_SUCCESS, core_sched (s\<lparr>tcb := (tcb s)(task := (tcb s task)\<lparr>suspend_count := 1, task_state := K_SUSPENDED\<rparr>),
         g_ready_queue := rq_without task s\<rparr>))
     else if task_state (tcb s task) = K_SLEEP then (RHINO_SUCCESS, core_sched (suspend_more task K_SLEEP_SUSPENDED 1 s))
     else if task_state (tcb s task) = K_PEND then (RHINO_SUCCESS, core_sched (suspend_more task K_PEND_SUSPENDED 1 s))
     else if \<not> live (tcb s task) then (RHINO_INV_TASK_STATE, s)
     else if suspend_count (tcb s task) = - 1 then (RHINO_SUSPENDED_COUNT_OVF, s)
     else (RHINO_SUCCESS, core_sched (suspend_more task (task_state (tcb s task)) (suspend_count (tcb s task) + 1) s)))"
proof -
  note rm = ready_list_rm_eq [OF kinvD(1) [OF k] kinvD(5) [OF k]]
  show ?thesis
    using t by (cases "task_state (tcb s task)")
      (auto simp: task_suspend_def suspend_more_def upd_task_def rm kstates intro!: arg_cong [where f = core_sched] kstate.equality fun_upd_eqI)
qed

lemma sys_inv_task_suspend:
  assumes s: "sys_inv s" and t: "task \<noteq> idle_tid"
  shows "sys_inv (snd (task_suspend task s))"
proof -
  note k = sys_invD(1) [OF s] and i = sys_invD(2) [OF s]
  have more: "sys_inv (core_sched (suspend_more task st c s))"
    if "kernel_inv (suspend_more task st c s)" "st = K_RDY \<longleftrightarrow> task_state (tcb s task) = K_RDY" for st c
    by (rule sys_inv_sched [OF s that(1) keepsI]) (use that(2) in \<open>auto simp: suspend_more_def ctx_def\<close>)
  have count: "suspend_count (tcb s task) + 1 > 0" if "suspend_count (tcb s task) \<noteq> - 1"
    using that by (metis add_eq_0_iff2 word_gt_0)
  have ready: "sys_inv (core_sched (s\<lparr>tcb := (tcb s)(task := (tcb s task)\<lparr>suspend_count := 1, task_state := K_SUSPENDED\<rparr>),
         g_ready_queue := rq_without task s\<rparr>))"
    if "task_state (tcb s task) = K_RDY" "\<not> (task = g_active_task s \<and> g_sched_lock s > 0)"
    by (rule sys_inv_core_sched [OF kernel_inv_suspend_ready [OF k that(1) t]])
      (use that active_rdy_locked [OF sys_invD(3) [OF s]] sys_invD(4) [OF s] in \<open>auto simp: active_rdy_def booted_def\<close>)
  show ?thesis
    using ready more [OF kernel_inv_suspend_more [OF k t]] s count
    by (cases "task_state (tcb s task)") (simp_all add: task_suspend_eq [OF i t] kstates)
qed

definition resume_ready :: "tid \<Rightarrow> kstate \<Rightarrow> kstate" where
  "resume_ready t s = s\<lparr>tcb := (tcb s)(t := (tcb s t)\<lparr>suspend_count := 0, task_state := K_RDY\<rparr>),
     g_ready_queue := g_ready_queue (ready_list_add t s)\<rparr>"

lemma kernel_inv_resume_ready:
  assumes k: "kernel_inv s" and t: "task_state (tcb s t) = K_SUSPENDED"
  shows "kernel_inv (resume_ready t s)"
proof (rule kernel_inv_one_task [OF k])
  let ?s = "resume_ready t s"
  note i = kinvD [OF kernel_invD(1) [OF k]]
  show "t \<noteq> idle_tid" by (rule kinv_not_idle [OF kernel_invD(1) [OF k]]) (simp add: t)
  show "?s = s\<lparr>tcb := (tcb s)(t := (tcb s t)\<lparr>suspend_count := 0, task_state := K_RDY\<rparr>),
      g_ready_queue := g_ready_queue (ready_list_add t s), g_tick_head := g_tick_head s\<rparr>"
    by (simp add: resume_ready_def)
  show "inv_ready ?s"
    by (rule inv_ready_enter [OF i(1), of t _ s])
      (use t kinv_prio [OF kernel_invD(1) [OF k], of t] in \<open>auto simp: resume_ready_def kstates\<close>)
  show "inv_tick ?s"
    by (rule inv_tick_cong [OF _ _ _ _ _ i(3)])
      (use t i(3) in \<open>auto simp: resume_ready_def kstates inv_tick_def\<close>)
qed (use t in \<open>simp_all add: kstates\<close>)

lemma same_state: "task_state k = st \<Longrightarrow> k\<lparr>suspend_count := c, task_state := st\<rparr> = k\<lparr>suspend_count := c\<rparr>"
  by (cases k) simp

lemma task_resume_eq:
  "task_resume task s =
    (let c = suspend_count (tcb s task) - 1
     in case task_state (tcb s task) of
       K_SUSPENDED \<Rightarrow>
         (RHINO_SUCCESS, core_sched (if c = 0 then resume_ready task s else suspend_more task K_SUSPENDED c s))
     | K_SLEEP_SUSPENDED \<Rightarrow>
         (RHINO_SUCCESS, core_sched (suspend_more task (if c = 0 then K_SLEEP else K_SLEEP_SUSPENDED) c s))
     | K_PEND_SUSPENDED \<Rightarrow>
         (RHINO_SUCCESS, core_sched (suspend_more task (if c = 0 then K_PEND else K_PEND_SUSPENDED) c s))
     | K_SEED \<Rightarrow> (RHINO_INV_TASK_STATE, s)
     | K_DELETED \<Rightarrow> (RHINO_INV_TASK_STATE, s)
     | _ \<Rightarrow> (RHINO_TASK_NOT_SUSPENDED, s))"
proof (cases "task_state (tcb s task) = K_SUSPENDED \<and> suspend_count (tcb s task) - 1 = 0")
  case True
  let ?u = "upd_task task (\<lambda>k. k\<lparr>task_state := K_RDY\<rparr>) (upd_task task (\<lambda>k. k\<lparr>suspend_count := suspend_count k - 1\<rparr>) s)"
  have "g_ready_queue (ready_list_add task ?u) = g_ready_queue (ready_list_add task s)"
    by (simp add: upd_task_def ready_list_add_def ready_list_add_tail_def ready_list_add_head_def)
  then have "ready_list_add task ?u = resume_ready task s"
    using True by (subst ready_list_add_eq) (simp add: resume_ready_def upd_task_def)
  then show ?thesis using True by (simp add: task_resume_def Let_def upd_task_def)
next
  case False
  then show ?thesis
    by (cases "task_state (tcb s task)") (auto simp: task_resume_def suspend_more_def upd_task_def Let_def same_state)
qed

lemma sys_inv_task_resume:
  assumes s: "sys_inv s"
  shows "sys_inv (snd (task_resume task s))"
proof -
  note k = sys_invD(1) [OF s] and i = sys_invD(2) [OF s]
  let ?c = "suspend_count (tcb s task) - 1"
  have more: "sys_inv (core_sched (suspend_more task st c s))"
    if "kernel_inv (suspend_more task st c s)" "st \<noteq> K_RDY" "task_state (tcb s task) \<noteq> K_RDY" for st c
    by (rule sys_inv_sched [OF s that(1) keepsI]) (use that(2,3) in \<open>auto simp: suspend_more_def ctx_def\<close>)
  have ready: "sys_inv (core_sched (resume_ready task s))" if "task_state (tcb s task) = K_SUSPENDED"
    by (rule sys_inv_sched [OF s kernel_inv_resume_ready [OF k that] keepsI])
      (use that in \<open>auto simp: resume_ready_def ctx_def\<close>)
  have t: "task \<noteq> idle_tid" if "task_state (tcb s task) \<noteq> K_RDY" using kinv_not_idle [OF i] that by blast
  show ?thesis
    using ready more [OF kernel_inv_suspend_more [OF k]] s t
    by (cases "task_state (tcb s task)") (simp_all add: task_resume_eq Let_def kstates word_gt_0)
qed

section \<open>Yield\<close>

lemma sys_inv_task_yield:
  assumes s: "sys_inv s" and n: "g_intrpt_nested_level s = 0"
  shows "sys_inv (snd (krhino_task_yield s))"
proof -
  have "g_active_task s \<in> set (cur_list_item (g_ready_queue s) (prio (tcb s (g_active_task s))))"
    using sys_inv_rdy [OF s n] kinvD(1) [OF sys_invD(2) [OF s]] by (simp add: inv_ready_def)
  then have "ready_list_head_to_tail (g_active_task s) s = rotate_ready (prio (tcb s (g_active_task s))) s"
    by (auto simp: ready_list_head_to_tail_def rotate_ready_def)
  moreover have "sys_inv (core_sched (rotate_ready p s))" for p
    by (rule sys_inv_sched [OF s kernel_inv_rotate_ready [OF sys_invD(1) [OF s]] keepsI])
      (simp_all add: rotate_ready_def)
  ultimately show ?thesis by (simp add: krhino_task_yield_def)
qed

section \<open>Change of priority\<close>

lemma kinv_set_b_prio:
  assumes "kinv s" and "t \<noteq> idle_tid" and "p < RHINO_CONFIG_PRI_MAX"
  shows "kinv (upd_task t (\<lambda>k. k\<lparr>b_prio := p\<rparr>) s)" (is "kinv ?s")
proof (rule kinvI)
  note i = kinvD [OF assms(1)]
  show "inv_ready ?s" by (rule inv_ready_cong [OF _ _ _ i(1)]) (auto simp: upd_task_def)
  show "inv_blk ?s" by (rule inv_blk_cong [OF _ _ _ _ i(2)]) (auto simp: upd_task_def kstates)
  show "inv_tick ?s" by (rule inv_tick_cong [OF _ _ _ _ _ i(3)]) (auto simp: upd_task_def kstates)
  show "inv_tasks ?s" by (rule inv_tasks_cong [OF _ _ _ _ _ i(4)])
      (use i(4) assms(3) in \<open>auto simp: upd_task_def kstates inv_tasks_def\<close>)
  show "inv_idle ?s" using i(5) assms(2) by (simp add: inv_idle_def upd_task_def)
  show "no_fault ?s" using i(6) by (simp add: no_fault_def upd_task_def)
qed

lemma pi_but_set_b_prio:
  assumes k: "kernel_inv s" and t: "t \<noteq> idle_tid" and p: "p < RHINO_CONFIG_PRI_MAX" and l: "live (tcb s t)"
  defines "s' \<equiv> upd_task t (\<lambda>k. k\<lparr>b_prio := p\<rparr>) s"
  shows "pi_but t s'" "owns_ok s' t" "eff s' t = mutex_pri_limit t p s"
proof -
  note i = kernel_invD [OF k]
  have sel: "blk_objs s' = blk_objs s" "mutexes s' = mutexes s" "is_mutex s' = is_mutex s"
    "prio (tcb s' u) = prio (tcb s u)" "mutex_list (tcb s' u) = mutex_list (tcb s u)"
    "live (tcb s' u) = live (tcb s u)" "b_prio (tcb s' u) = (if u = t then p else b_prio (tcb s u))" for u
    by (auto simp: s'_def upd_task_def is_mutex_def kstates fun_eq_iff)
  have "waits_for s' = waits_for s"
    using waits_for_iff [OF kinvD(2) [OF i(1)]] waits_for_iff [OF kinvD(2) [OF kinv_set_b_prio [OF i(1) t p]]]
    by (auto simp: sel s'_def [symmetric])
  then have m: "mtx_struct s'" using i(3) by (simp add: mtx_struct_def sel)
  have o: "owns_ok s' u = owns_ok s u" and w: "waiters s' u = waiters s u" for u
    by (simp_all add: owns_ok_def waiters_def sel)
  have ok: "owns_ok s u" "prio (tcb s u) = eff s u" if "live (tcb s u)" for u
    using i(2) that by (auto simp: pi_inv_def pi_ok_def)
  have "eff s' u = eff s u" if "u \<noteq> t" for u using that by (simp add: eff_def w sel)
  with m ok show "pi_but t s'" by (simp add: pi_but_def pi_ok_def o sel)
  show "owns_ok s' t" using ok l by (simp add: o)
  then have "m \<in> set (mutex_list (tcb s t)) \<Longrightarrow> is_mutex s m" for m by (simp add: owns_ok_def sel)
  from look_eff [OF i(1,3) this, where b = p] show "eff s' t = mutex_pri_limit t p s"
    by (simp add: eff_def w sel mutex_pri_limit_Min)
qed

lemma krhino_task_pri_change_ok:
  assumes s: "sys_inv s" and l: "live (tcb s t)"
    and g: "prio (tcb s t) < RHINO_IDLE_PRI" "pri < RHINO_IDLE_PRI" "g_intrpt_nested_level s = 0"
  obtains s' where "krhino_task_pri_change t pri s = (RHINO_SUCCESS, Some (prio (tcb s t)), core_sched s')"
    "kernel_inv s'" "prio (tcb s' t) = eff s' t" "b_prio (tcb s' t) = pri"
    "prio_frame (upd_task t (\<lambda>k. k\<lparr>b_prio := pri\<rparr>) s) s'"
proof -
  define s1 where "s1 = upd_task t (\<lambda>k. k\<lparr>b_prio := pri\<rparr>) s"
  note k = sys_invD(1) [OF s] and ki = sys_invD(2) [OF s]
  have ti: "t \<noteq> idle_tid" using kinvD(5) [OF ki] g(1) by (auto simp: inv_idle_def)
  have pm: "pri < RHINO_CONFIG_PRI_MAX" using g(2) by (simp add: kconfig)
  have k1: "kinv s1" unfolding s1_def by (rule kinv_set_b_prio [OF ki ti pm])
  note b = pi_but_set_b_prio [OF k ti pm l, folded s1_def]
  have l1: "live (tcb s1 t)" using l by (simp add: s1_def upd_task_def kstates)
  have lim: "mutex_pri_limit t pri s < RHINO_CONFIG_PRI_MAX"
    using eff_le_base [of s1 t] pm by (simp add: b(3) [symmetric]) (simp add: s1_def upd_task_def)
  obtain s2 where s2: "task_pri_change t (mutex_pri_limit t pri s) s1 = (RHINO_SUCCESS, s2)" "kinv s2"
    "prio_frame s1 s2" "pi_but t s2" "prio (tcb s2 t) = mutex_pri_limit t pri s" "eff s2 t = eff s1 t"
    using task_pri_change_restores [OF k1 b(1) owns_ok_sub [OF b(2)] l1 ti lim] by blast
  have "pi_ok s2 t" using s2 b by (simp add: pi_ok_def prio_frame_mtx [OF s2(3)])
  then have "kernel_inv s2" using s2 by (simp add: kernel_inv_def pi_inv_but [of s2 t])
  moreover have "krhino_task_pri_change t pri s = (RHINO_SUCCESS, Some (prio (tcb s t)), core_sched s2)"
  proof -
    have "task_state (tcb s t) \<noteq> K_DELETED" using l by (simp add: live_def)
    moreover have "prio (tcb s1 t) = prio (tcb s t)" by (simp add: s1_def upd_task_def)
    ultimately show ?thesis using g s2(1) by (simp add: krhino_task_pri_change_def s1_def [symmetric])
  qed
  moreover have "b_prio (tcb s2 t) = pri" using prio_frame_task [OF s2(3)] by (simp add: s1_def upd_task_def)
  ultimately show thesis using that s2 b s1_def by simp
qed

lemma sys_inv_task_pri_change:
  assumes s: "sys_inv s" and t: "task_state (tcb s task) \<noteq> K_SEED"
  shows "sys_inv (snd (snd (krhino_task_pri_change task pri s)))"
proof (cases "live (tcb s task) \<and> prio (tcb s task) < RHINO_IDLE_PRI \<and> pri < RHINO_IDLE_PRI \<and> g_intrpt_nested_level s = 0")
  case True
  then obtain s' where s': "krhino_task_pri_change task pri s = (RHINO_SUCCESS, Some (prio (tcb s task)), core_sched s')"
    "kernel_inv s'" "prio_frame (upd_task task (\<lambda>k. k\<lparr>b_prio := pri\<rparr>) s) s'"
    using krhino_task_pri_change_ok [OF s] by metis
  have "keeps s (upd_task task (\<lambda>k. k\<lparr>b_prio := pri\<rparr>) s)" by (rule keepsI) (auto simp: upd_task_def)
  then have "keeps s s'" using keeps_prio_frame [OF s'(3)] by (rule keeps_trans)
  then show ?thesis using sys_inv_sched [OF s s'(2)] by (simp add: s'(1))
next
  case False
  then have "snd (snd (krhino_task_pri_change task pri s)) = s"
    using t by (auto simp: krhino_task_pri_change_def live_def word_gt_0)
  with s show ?thesis by simp
qed

section \<open>Creation\<close>

definition add_task :: "tid \<Rightarrow> ktask_t \<Rightarrow> kstate \<Rightarrow> kstate" where
  "add_task t k s = s\<lparr>tcb := (tcb s)(t := k), g_tasks := g_tasks s @ [t],
     g_ready_queue := (if task_state k = K_RDY then rq_add_tail (prio k) t (g_ready_queue s) else g_ready_queue s)\<rparr>"

definition new_task :: "ktask_t \<Rightarrow> bool" where
  "new_task k \<longleftrightarrow> prio k < RHINO_CONFIG_PRI_MAX \<and> b_prio k = prio k \<and> mutex_list k = [] \<and> \<not> tick_head k \<and>
     (task_state k = K_RDY \<and> suspend_count k = 0 \<or> task_state k = K_SUSPENDED \<and> suspend_count k > 0)"

lemma kinv_add_task:
  assumes k: "kinv s" and t: "\<not> live (tcb s t)" and n: "new_task k'"
  shows "kinv (add_task t k' s)" (is "kinv ?s")
proof (rule kinvI)
  note i = kinvD [OF k]
  have ti: "t \<noteq> idle_tid" using i(5) t by (auto simp: inv_idle_def live_def)
  have nt: "t \<notin> set (cur_list_item (g_ready_queue s) p)" for p using i(1) t by (auto simp: inv_ready_def live_def)
  have th: "\<not> tick_head (tcb s t)" using i(3) t by (auto simp: inv_tick_def kstates)
  have l: "live k'" using n by (auto simp: new_task_def kstates)
  show "inv_ready ?s"
    using i(1) nt n t by (auto simp: inv_ready_def add_task_def new_task_def live_def rq_add_tail_wf)
  show "inv_blk ?s"
    by (rule inv_blk_cong [OF _ _ _ _ i(2)]) (use t n in \<open>auto simp: add_task_def new_task_def kstates\<close>)
  have "t \<notin> set (g_tick_head s)" using i(3) th by (simp add: inv_tick_def)
  then have "map (ticks_left ?s) (g_tick_head s) = map (ticks_left s) (g_tick_head s)"
    by (intro map_cong) (auto simp: ticks_left_def add_task_def)
  moreover have "ticks_left ?s u = ticks_left s u" if "u \<noteq> t" for u
    using that by (simp add: ticks_left_def add_task_def)
  moreover have "g_tick_head ?s = g_tick_head s" "\<And>u. u \<noteq> t \<Longrightarrow> tcb ?s u = tcb s u" "tcb ?s t = k'"
    by (simp_all add: add_task_def)
  moreover have "\<not> tick_head k'" "\<not> sleeping k'" using n by (auto simp: new_task_def kstates)
  ultimately show "inv_tick ?s"
    using i(3) th unfolding inv_tick_def by metis
  show "inv_tasks ?s"
    using i(4) t l n by (auto simp: inv_tasks_def add_task_def new_task_def kstates)
  show "inv_idle ?s" using i(5) ti by (simp add: inv_idle_def add_task_def)
  show "no_fault ?s" using i(6) by (simp add: no_fault_def add_task_def)
qed

lemma kernel_inv_add_task:
  assumes k: "kernel_inv s" and t: "\<not> live (tcb s t)" and n: "new_task k'"
  shows "kernel_inv (add_task t k' s)"
proof -
  note i = kernel_invD [OF k]
  have ka: "kinv (add_task t k' s)" by (rule kinv_add_task [OF i(1) t n])
  moreover have "pi_inv (add_task t k' s)"
  proof (rule pi_inv_cong [OF i(1) kinvD(2) [OF ka] _ _ _ _ _ i(2)])
    show "live (tcb s u) \<Longrightarrow> live (tcb (add_task t k' s) u)" for u using t by (auto simp: add_task_def)
    show "live (tcb (add_task t k' s) u) \<Longrightarrow> \<not> live (tcb s u) \<Longrightarrow>
        mutex_list (tcb (add_task t k' s) u) = [] \<and> prio (tcb (add_task t k' s) u) = b_prio (tcb (add_task t k' s) u)" for u
      using n by (cases "u = t") (simp_all add: add_task_def new_task_def)
  qed (use t in \<open>auto simp: add_task_def is_mutex_def\<close>)
  ultimately show ?thesis by (simp add: kernel_inv_def)
qed

text \<open>The control block that \<open>task_create\<close> fills in.\<close>

definition fresh_tcb :: "nat \<Rightarrow> tick_t \<Rightarrow> nat \<Rightarrow> bool \<Rightarrow> alloc_flag \<Rightarrow> ktask_t" where
  "fresh_tcb pri ticks stk_size autorun flag =
    (let tt = (if ticks > 0 then ucast ticks else RHINO_CONFIG_TIME_SLICE_DEFAULT)
     in zero_task\<lparr>time_total := tt, task_time_slice := tt, sched_policy := KSCHED_RR,
       task_state := (if autorun then K_RDY else K_SUSPENDED), suspend_count := (if autorun then 0 else 1),
       prio := pri, b_prio := pri, stack_size := stk_size, mm_alloc_flag := flag\<rparr>)"

lemma task_create_eq:
  assumes "booted s" and "stk_size > 0" and "pri < RHINO_CONFIG_PRI_MAX" and "g_intrpt_nested_level s = 0"
    and "pri \<noteq> RHINO_IDLE_PRI"
  shows "task_create task pri ticks stk_size autorun flag s =
    (RHINO_SUCCESS, (if autorun then core_sched else id) (add_task task (fresh_tcb pri ticks stk_size autorun flag) s))"
proof -
  have "zero_task\<lparr>time_total := tt, task_time_slice := tt, sched_policy := KSCHED_RR, task_state := K_RDY,
      prio := pri, b_prio := pri, stack_size := stk_size, mm_alloc_flag := flag\<rparr> =
    zero_task\<lparr>time_total := tt, task_time_slice := tt, sched_policy := KSCHED_RR, task_state := K_RDY, suspend_count := 0,
      prio := pri, b_prio := pri, stack_size := stk_size, mm_alloc_flag := flag\<rparr>" for tt
    by (simp add: zero_task_def)
  then show ?thesis
    using assms by (auto simp: task_create_def fresh_tcb_def add_task_def ready_list_add_tail_def Let_def booted_def)
qed

lemma new_task_fresh: "pri < RHINO_CONFIG_PRI_MAX \<Longrightarrow> new_task (fresh_tcb pri ticks stk_size autorun flag)"
  by (simp add: new_task_def fresh_tcb_def zero_task_def Let_def)

lemma sys_inv_task_create:
  assumes s: "sys_inv s" and t: "\<not> live (tcb s task)"
  shows "sys_inv (snd (task_create task pri ticks stk_size autorun flag s))"
proof (cases "stk_size > 0 \<and> pri < RHINO_CONFIG_PRI_MAX \<and> g_intrpt_nested_level s = 0 \<and> pri \<noteq> RHINO_IDLE_PRI")
  case True
  let ?s = "add_task task (fresh_tcb pri ticks stk_size autorun flag) s"
  have k: "kernel_inv ?s" by (rule kernel_inv_add_task [OF sys_invD(1) [OF s] t]) (simp add: new_task_fresh True)
  have kp: "keeps s ?s" by (rule keepsI) (use t in \<open>auto simp: add_task_def ctx_def live_def\<close>)
  have "sys_inv (if autorun then core_sched ?s else ?s)"
  proof (cases autorun)
    case False
    then have "g_ready_queue ?s = g_ready_queue s" by (simp add: add_task_def fresh_tcb_def zero_task_def Let_def)
    with False show ?thesis using sys_inv_same [OF s k kp] by simp
  qed (use sys_inv_sched [OF s k kp] in simp)
  with True show ?thesis by (cases autorun) (simp_all add: task_create_eq [OF sys_invD(4) [OF s]])
next
  case False
  then have "snd (task_create task pri ticks stk_size autorun flag s) = s"
    using sys_invD(4) [OF s] by (auto simp: task_create_def booted_def word_gt_0)
  with s show ?thesis by simp
qed

end
