(* ===== verification/K_TaskDel.thy ===== *)
theory K_TaskDel
  imports K_TaskInv
begin

text \<open>
  Deletion of a task: \<open>task_mutex_free\<close> hands every mutex the task holds to its first waiter
  or frees it, then the task leaves the list it is in, and if it waited for a mutex the
  owner gives back the priority it had inherited from it.
\<close>

section \<open>Giving up the mutexes\<close>

lemma free_step_eq:
  "s\<lparr>mutexes := (mutexes s)(m := (mutexes s m)\<lparr>mutex_task := x\<rparr>)\<rparr> = set_owner m x (owner_nested (mutexes s m)) s"
  by (simp add: set_owner_def)

lemma task_mutex_free_loop_Cons:
  assumes "kinv s"
  shows "task_mutex_free_loop (m # ms) s =
    (case blk_list (blk_objs s m) of
       [] \<Rightarrow> task_mutex_free_loop ms (set_owner m None (owner_nested (mutexes s m)) s)
     | w # _ \<Rightarrow> task_mutex_free_loop ms (hand_over m w (owner_nested (mutexes s m)) s))"
proof (cases "blk_list (blk_objs s m)")
  case (Cons w ws)
  then have "pended (tcb s w)" using kinv_first_pended [OF assms, of w m] by simp
  then have "pend_task_wakeup w s = unpend BLK_FINISH w s" by (rule pend_task_wakeup_eq [OF kinvD(3) [OF assms]])
  with Cons show ?thesis by (simp add: hand_over_def take_mutex_def push_mutex_def free_step_eq)
qed (simp add: free_step_eq)

lemma hand_over_sel:
  "u \<noteq> w \<Longrightarrow> tcb (hand_over m w n s) u = tcb s u"
  "m' \<noteq> m \<Longrightarrow> mutexes (hand_over m w n s) m' = mutexes s m'"
  "mutex_task (mutexes (hand_over m w n s) m) = Some w" "is_mutex (hand_over m w n s) = is_mutex s"
  by (auto simp: hand_over_def take_mutex_def push_mutex_def set_owner_def unpend_defs is_mutex_def)

lemma task_mutex_free_loop_ok:
  assumes "kinv s" and "pi_but t s" and "distinct ms"
    and "\<And>m. m \<in> set ms \<longleftrightarrow> is_mutex s m \<and> mutex_task (mutexes s m) = Some t"
  shows "kinv (task_mutex_free_loop ms s) \<and> pi_but t (task_mutex_free_loop ms s) \<and>
    (\<forall>m. is_mutex (task_mutex_free_loop ms s) m \<longrightarrow> mutex_task (mutexes (task_mutex_free_loop ms s) m) \<noteq> Some t) \<and>
    tcb (task_mutex_free_loop ms s) t = tcb s t \<and> keeps s (task_mutex_free_loop ms s)"
  using assms
proof (induction ms arbitrary: s)
  case Nil
  then show ?case by simp
next
  case (Cons m ms)
  note P = Cons.prems and IH = Cons.IH
  have m: "is_mutex s m" "mutex_task (mutexes s m) = Some t" "m \<notin> set ms" using P(3) P(4) [of m] by auto
  let ?n = "owner_nested (mutexes s m)"
  obtain s1 where s1: "task_mutex_free_loop (m # ms) s = task_mutex_free_loop ms s1" "kinv s1" "pi_but t s1"
    "tcb s1 t = tcb s t" "keeps s s1" "is_mutex s1 = is_mutex s"
    "mutex_task (mutexes s1 m) \<noteq> Some t" "\<And>m'. m' \<noteq> m \<Longrightarrow> mutexes s1 m' = mutexes s m'"
  proof (cases "blk_list (blk_objs s m)")
    case Nil
    show thesis
    proof (rule that [of "set_owner m None ?n s"])
      show "keeps s (set_owner m None ?n s)" by (rule keepsI) (simp_all add: set_owner_def)
    qed (use Nil free_ok [OF P(1,2) m(1,2) Nil, of ?n] in
        \<open>auto simp: task_mutex_free_loop_Cons [OF P(1)] set_owner_def is_mutex_def fun_eq_iff\<close>)
  next
    case (Cons w ws)
    note h = hand_over_ok(1,2) [OF P(1,2) m(1,2) Cons, of ?n] hand_over_ok(3) [OF P(1,2) m(1,2) Cons]
    have p: "pended (tcb s w)" using kinv_first_pended [OF P(1), of w m] Cons by simp
    have "keeps s (hand_over m w ?n s)"
      unfolding hand_over_def using keeps_unpend [OF p] keeps_take_mutex by (rule keeps_trans)
    then show thesis
      by (intro that [of "hand_over m w ?n s", OF _ h(1,2)])
        (simp_all add: task_mutex_free_loop_Cons [OF P(1)] Cons hand_over_sel h(3) h(3) [symmetric]
          del: task_mutex_free_loop.simps)
  qed
  have "m' \<in> set ms \<longleftrightarrow> is_mutex s1 m' \<and> mutex_task (mutexes s1 m') = Some t" for m'
    using P(4) [of m'] m(3) s1(6-8) by (cases "m' = m") auto
  from IH [OF s1(2,3) _ this] P(3) s1 keeps_trans [OF s1(5)] show ?case by simp
qed

section \<open>Leaving every list\<close>

definition unlist :: "tid \<Rightarrow> kstate \<Rightarrow> kstate" where
  "unlist t s = s\<lparr>
     tcb := (tcb s)(t := (tcb s t)\<lparr>tick_head := False, task_state := K_DELETED\<rparr>),
     blk_objs := (\<lambda>ob. (blk_objs s ob)\<lparr>blk_list := remove1 t (blk_list (blk_objs s ob))\<rparr>),
     g_tick_head := remove1 t (g_tick_head s),
     g_ready_queue := (if task_state (tcb s t) = K_RDY then rq_without t s else g_ready_queue s),
     g_tasks := remove1 t (g_tasks s)\<rparr>"

lemma kinv_unlist:
  assumes k: "kinv s" and t: "live (tcb s t)" "t \<noteq> idle_tid"
  shows "kinv (unlist t s)" (is "kinv ?s")
proof (rule kinvI)
  note i = kinvD [OF k]
  show "inv_ready ?s"
  proof (cases "task_state (tcb s t) = K_RDY")
    case True
    show ?thesis
      by (rule inv_ready_leave [OF i(1), of _ t])
        (use rq_without_props [OF i(1,5) True t(2)] True in \<open>auto simp: unlist_def\<close>)
  next
    case False
    then show ?thesis by (intro inv_ready_cong [OF _ _ _ i(1)]) (auto simp: unlist_def)
  qed
  show "inv_blk ?s" by (rule inv_blk_leave [OF i(2), of _ t]) (auto simp: unlist_def kstates)
  show "inv_tick ?s" by (rule inv_tick_leave [OF i(3), of _ t]) (auto simp: unlist_def kstates)
  show "inv_tasks ?s" using i(4) by (auto simp: inv_tasks_def unlist_def kstates)
  show "inv_idle ?s" using i(5) t(2) by (simp add: inv_idle_def unlist_def)
  show "no_fault ?s" using i(6) by (simp add: no_fault_def unlist_def)
qed

lemma left_blk_unlist: "kinv s \<Longrightarrow> left_blk t s (unlist t s)"
  by (auto simp: left_blk_def unlist_def kinv_def inv_blk_def kstates)

lemma kernel_inv_unlist:
  assumes k: "kinv s" and b: "pi_but t s" and t: "live (tcb s t)" "t \<noteq> idle_tid"
    and no: "\<forall>m. is_mutex s m \<longrightarrow> mutex_task (mutexes s m) \<noteq> Some t"
  shows "\<not> pended (tcb s t) \<Longrightarrow> kernel_inv (unlist t s)"
    "pended (tcb s t) \<Longrightarrow> kernel_inv (mutex_task_pri_reset t (unlist t s))"
proof -
  note ku = kinv_unlist [OF k t] and l = left_blk_unlist [OF k, of t]
  have dead: "\<not> live (tcb (unlist t s) t)" by (simp add: unlist_def live_def)
  show "kernel_inv (unlist t s)" if p: "\<not> pended (tcb s t)"
  proof -
    have "t \<notin> waiters s u" for u
      using p kinvD(2) [OF k] by (auto simp: waiters_def inv_blk_def)
    then have "eff (unlist t s) u = eff s u" for u by (rule left_blk_eff [OF l])
    moreover have "prio (tcb (unlist t s) u) = prio (tcb s u)"
      and "u \<noteq> t \<Longrightarrow> live (tcb (unlist t s) u) = live (tcb s u)" for u by (simp_all add: unlist_def)
    ultimately have "pi_ok (unlist t s) u" if "live (tcb (unlist t s) u)" for u
      using that b dead by (cases "u = t") (simp_all add: pi_but_def pi_ok_def left_blk_mtx(2) [OF l])
    moreover have "mtx_struct (unlist t s)"
      by (rule left_blk_struct [OF l kinvD(2) [OF k] kinvD(2) [OF ku]]) (use b no in \<open>auto simp: pi_but_def\<close>)
    ultimately show ?thesis using ku by (simp add: kernel_inv_def pi_inv_def)
  qed
  show "kernel_inv (mutex_task_pri_reset t (unlist t s))" if p: "pended (tcb s t)"
    using pri_reset_ok(1,2) [OF k ku p b l] dead no by (simp add: kernel_inv_def)
qed

section \<open>The call\<close>

lemma unlist_eq:
  assumes k: "kinv s" and t: "t \<noteq> idle_tid"
  defines "del \<equiv> upd_task t (\<lambda>k. k\<lparr>task_state := K_DELETED\<rparr>)"
    and "gone \<equiv> \<lambda>s. s\<lparr>g_tasks := remove1 t (g_tasks s)\<rparr>"
  shows "task_state (tcb s t) = K_RDY \<Longrightarrow> gone (del (ready_list_rm t s)) = unlist t s"
    "task_state (tcb s t) = K_SUSPENDED \<Longrightarrow> gone (del s) = unlist t s"
    "sleeping (tcb s t) \<Longrightarrow> gone (del (tick_list_rm t s)) = unlist t s"
    "pended (tcb s t) \<Longrightarrow> gone (del (blk_list_rm t (tick_list_rm t s))) = unlist t s"
proof -
  note i = kinvD [OF k]
  have bl: "remove1 t (blk_list (blk_objs s ob)) = blk_list (blk_objs s ob)" if "\<not> pended (tcb s t)" for ob
    using i(2) that by (intro remove1_idem) (auto simp: inv_blk_def)
  have tl: "remove1 t (g_tick_head s) = g_tick_head s" "(tcb s t)\<lparr>tick_head := False\<rparr> = tcb s t"
    if "\<not> pended (tcb s t)" "\<not> sleeping (tcb s t)"
    using i(3) that by (auto simp: inv_tick_def intro: remove1_idem tick_head_id)
  note rm = ready_list_rm_eq [OF i(1) i(5) _ t] and tr = tick_list_rm_eq [OF i(3)]
  have st: "task_state (tcb s t) = st \<Longrightarrow> \<not> pended (tcb s t) \<longleftrightarrow> st \<noteq> K_PEND \<and> st \<noteq> K_PEND_SUSPENDED"
    "task_state (tcb s t) = st \<Longrightarrow> \<not> sleeping (tcb s t) \<longleftrightarrow> st \<noteq> K_SLEEP \<and> st \<noteq> K_SLEEP_SUSPENDED" for st
    by (auto simp: kstates)
  show "task_state (tcb s t) = K_RDY \<Longrightarrow> gone (del (ready_list_rm t s)) = unlist t s"
    by (rule kstate.equality) (simp_all add: gone_def del_def unlist_def rm upd_task_def bl tl st)
  show "task_state (tcb s t) = K_SUSPENDED \<Longrightarrow> gone (del s) = unlist t s"
    by (rule kstate.equality) (simp_all add: gone_def del_def unlist_def upd_task_def bl tl st)
  show "sleeping (tcb s t) \<Longrightarrow> gone (del (tick_list_rm t s)) = unlist t s"
    using bl by (intro kstate.equality) (auto simp: gone_def del_def unlist_def tr upd_task_def kstates)
  show "pended (tcb s t) \<Longrightarrow> gone (del (blk_list_rm t (tick_list_rm t s))) = unlist t s"
    by (rule kstate.equality) (auto simp: gone_def del_def unlist_def tr kupd kstates)
qed

lemma krhino_task_del_eq:
  assumes s: "sys_inv s" and t: "live (tcb s task)" "prio (tcb s task) \<noteq> RHINO_IDLE_PRI"
    and f: "mm_alloc_flag (tcb s task) = K_OBJ_STATIC_ALLOC" and n: "g_intrpt_nested_level s = 0"
    and lk: "\<not> (task = g_active_task s \<and> g_sched_lock s > 0)"
  defines "s1 \<equiv> task_mutex_free task s"
  defines "s2 \<equiv> (if pended (tcb s task) then mutex_task_pri_reset task (unlist task s1) else unlist task s1)"
  shows "krhino_task_del (Some task) s = (RHINO_SUCCESS, core_sched s2)" "kernel_inv s2" "ctx s2 = ctx s"
    "u \<noteq> task \<Longrightarrow> task_state (tcb s u) = K_RDY \<Longrightarrow> task_state (tcb s2 u) = K_RDY"
    "task_state (tcb s2 task) = K_DELETED" "is_mutex s2 m \<Longrightarrow> mutex_task (mutexes s2 m) \<noteq> Some task"
proof -
  note k = sys_invD(1) [OF s] and ki = sys_invD(2) [OF s]
  have ti: "task \<noteq> idle_tid" using kinvD(5) [OF ki] t(2) by (auto simp: inv_idle_def)
  have pb: "pi_but task s" and ow: "owns_ok s task"
    using kernel_invD(2) [OF k] t(1) by (auto simp: pi_inv_but [of _ task] pi_ok_def)
  have free: "kinv s1" "pi_but task s1" "\<forall>m. is_mutex s1 m \<longrightarrow> mutex_task (mutexes s1 m) \<noteq> Some task"
    "tcb s1 task = tcb s task" "keeps s s1"
    using task_mutex_free_loop_ok [OF ki pb, of "mutex_list (tcb s task)"] ow
    by (auto simp: s1_def task_mutex_free_def owns_ok_def)
  have l1: "live (tcb s1 task)" using t(1) free(4) by simp
  note u = kernel_inv_unlist [OF free(1,2) l1 ti free(3)] and eq = unlist_eq [OF free(1) ti]
  show k2: "kernel_inv s2" using u by (simp add: s2_def free(4))
  have cu: "ctx (unlist task s1) = ctx s1" by (simp add: unlist_def ctx_def)
  then show "ctx s2 = ctx s" using keepsD(1) [OF free(5)] by (simp add: s2_def)
  have fr: "prio_frame (unlist task s1) s2"
  proof (cases "pended (tcb s task)")
    case True
    have "\<not> live (tcb (unlist task s1) task)" by (simp add: unlist_def live_def)
    with True show ?thesis
      using pri_reset_ok(3) [OF free(1) kinv_unlist [OF free(1) l1 ti] _ free(2) left_blk_unlist [OF free(1)]] free(3,4)
      by (simp add: s2_def)
  qed (simp add: s2_def prio_frame_refl)
  note fs = prio_frame_simps [OF fr]
  show "u \<noteq> task \<Longrightarrow> task_state (tcb s u) = K_RDY \<Longrightarrow> task_state (tcb s2 u) = K_RDY"
    using keepsD(3) [OF free(5), of u] by (simp add: fs unlist_def)
  show "task_state (tcb s2 task) = K_DELETED" by (simp add: fs unlist_def)
  show "is_mutex s2 m \<Longrightarrow> mutex_task (mutexes s2 m) \<noteq> Some task"
    using free(3) by (simp add: fs prio_frame_mtx [OF fr]) (simp add: unlist_def is_mutex_def)
  have "\<not> k_fault s2" using kinvD(6) [OF kernel_invD(1) [OF k2]] by (simp add: no_fault_def)
  then have pend: "(mutex_task_pri_reset task x)\<lparr>g_tasks := remove1 task (g_tasks (mutex_task_pri_reset task x))\<rparr> = s2"
    if "pended (tcb s task)" "x\<lparr>g_tasks := remove1 task (g_tasks x)\<rparr> = unlist task s1" "g_tasks x = g_tasks s1" for x
  proof -
    have "task \<in> set (g_tasks x)" using kinvD(4) [OF free(1)] l1 by (simp add: that(3) inv_tasks_def)
    then have len: "length (g_tasks x) = Suc (length (remove1 task (g_tasks x)))"
      by (simp add: length_remove1) (metis Suc_pred length_pos_if_in_set)
    show ?thesis
      using mutex_task_pri_reset_drop_task [OF len, of task] \<open>\<not> k_fault s2\<close> that
      by (simp add: mutex_task_pri_reset_tasks s2_def)
  qed
  have gt: "g_tasks (upd_task task f (blk_list_rm task (tick_list_rm task s1))) = g_tasks s1" for f
    by (simp add: kupd tick_list_rm_def Let_def)
  have d: "krhino_task_del (Some task) s =
    (let set_deleted = upd_task task (\<lambda>k. k\<lparr>task_state := K_DELETED\<rparr>);
         finish = (\<lambda>s. (RHINO_SUCCESS, core_sched (s\<lparr>g_tasks := remove1 task (g_tasks s)\<rparr>)))
     in case task_state (tcb s task) of
          K_RDY \<Rightarrow> finish (set_deleted (ready_list_rm task s1))
        | K_SUSPENDED \<Rightarrow> finish (set_deleted s1)
        | K_SLEEP \<Rightarrow> finish (set_deleted (tick_list_rm task s1))
        | K_SLEEP_SUSPENDED \<Rightarrow> finish (set_deleted (tick_list_rm task s1))
        | K_PEND \<Rightarrow> finish (mutex_task_pri_reset task (set_deleted (blk_list_rm task (tick_list_rm task s1))))
        | K_PEND_SUSPENDED \<Rightarrow> finish (mutex_task_pri_reset task (set_deleted (blk_list_rm task (tick_list_rm task s1))))
        | _ \<Rightarrow> (RHINO_INV_TASK_STATE, s1))"
  proof -
    have "(task = g_active_task s \<and> g_sched_lock s > 0) = False" using lk by simp
    then show ?thesis
      unfolding krhino_task_del_def by (simp only: option.case Let_def s1_def [symmetric] t(2) f n free(4) if_False) simp
  qed
  show "krhino_task_del (Some task) s = (RHINO_SUCCESS, core_sched s2)"
    using eq pend [OF _ eq(4) gt] t(1)
    by (cases "task_state (tcb s task)") (simp_all add: d Let_def s2_def kstates free(4))
qed

lemma krhino_task_del_None: "krhino_task_del None s = krhino_task_del (Some (g_active_task s)) s"
  by (simp add: krhino_task_del_def)

lemma sys_inv_task_del_Some:
  assumes s: "sys_inv s" and t: "live (tcb s task)"
  shows "sys_inv (snd (krhino_task_del (Some task) s))"
proof (cases "prio (tcb s task) \<noteq> RHINO_IDLE_PRI \<and> mm_alloc_flag (tcb s task) = K_OBJ_STATIC_ALLOC \<and>
    g_intrpt_nested_level s = 0 \<and> \<not> (task = g_active_task s \<and> g_sched_lock s > 0)")
  case True
  then obtain s2 where s2: "krhino_task_del (Some task) s = (RHINO_SUCCESS, core_sched s2)" "kernel_inv s2" "ctx s2 = ctx s"
    "\<And>u. u \<noteq> task \<Longrightarrow> task_state (tcb s u) = K_RDY \<Longrightarrow> task_state (tcb s2 u) = K_RDY"
    using krhino_task_del_eq [OF s t] by meson
  note c = ctxD [OF s2(3)]
  have "sys_inv (core_sched s2)"
  proof (rule sys_inv_core_sched [OF s2(2) _ booted_ctx [OF s2(3) sys_invD(4) [OF s]]])
    assume "g_sched_lock s2 > 0"
    then have "active_rdy s" "task \<noteq> g_active_task s" using True sys_invD(3) [OF s] c by (auto simp: inv_running_def)
    then show "active_rdy s2" using s2(4) [of "g_active_task s"] by (simp add: active_rdy_def c)
  qed
  then show ?thesis by (simp add: s2(1))
next
  case False
  then have "snd (krhino_task_del (Some task) s) = s" by (auto simp: krhino_task_del_def Let_def word_gt_0)
  with s show ?thesis by simp
qed

lemma sys_inv_task_del:
  assumes "sys_inv s" and "live (tcb s (case tsk of None \<Rightarrow> g_active_task s | Some t \<Rightarrow> t))"
  shows "sys_inv (snd (krhino_task_del tsk s))"
  using assms sys_inv_task_del_Some by (cases tsk) (auto simp: krhino_task_del_None)

end
