(* ===== verification/K_WaitInv.thy ===== *)
theory K_WaitInv
  imports K_ObjInv K_TaskDel
begin

text \<open>
  The calls on tasks and the tick lose no wake-up either: they leave the objects alone and
  let no task wait that did not wait before.
\<close>

section \<open>Fewer tasks wait\<close>

definition fewer :: "kstate \<Rightarrow> kstate \<Rightarrow> bool" where
  "fewer s s' \<longleftrightarrow> objs s' = objs s \<and>
     (\<forall>t. pended (tcb s' t) \<longrightarrow> pended (tcb s t) \<and> blk_obj (tcb s' t) \<in> {blk_obj (tcb s t), None})"

lemma inv_wait_fewer:
  assumes w: "inv_wait s" and k: "kinv s" "kinv s'" and f: "fewer s s'"
  shows "inv_wait s'"
proof (rule inv_wait_shrink [OF w])
  show "objs s' = objs s" using f by (simp add: fewer_def)
  show "set (blk_list (blk_objs s' ob)) \<subseteq> set (blk_list (blk_objs s ob))" for ob
    using f kinvD(2) [OF k(1)] kinvD(2) [OF k(2)] by (fastforce simp: fewer_def inv_blk_def)
qed

lemma fewer_refl [simp]: "fewer s s"
  by (simp add: fewer_def)

lemma fewer_trans [trans]: "fewer s s' \<Longrightarrow> fewer s' s'' \<Longrightarrow> fewer s s''"
  unfolding fewer_def by (intro conjI allI impI) (simp, blast, fastforce)

lemma fewer_same:
  "tcb s' = tcb s \<Longrightarrow> (\<And>ob. obj_type (blk_objs s' ob) = obj_type (blk_objs s ob)) \<Longrightarrow> sems s' = sems s \<Longrightarrow>
   events s' = events s \<Longrightarrow> queues s' = queues s \<Longrightarrow> buf_queues s' = buf_queues s \<Longrightarrow> fewer s s'"
  by (simp add: fewer_def objs_def)

lemma fewer_record [simp]:
  "fewer s (s\<lparr>g_ready_queue := rq\<rparr>)" "fewer s (s\<lparr>g_tick_head := th\<rparr>)" "fewer s (s\<lparr>g_tasks := ts\<rparr>)"
  "fewer s (s\<lparr>g_tick_count := c\<rparr>)" "fewer s (k_err_proc e s)" "fewer s (fault s)" "fewer s (blk_list_rm t s)"
  "fewer s (s\<lparr>mutexes := mu\<rparr>)" "fewer s (s\<lparr>g_preferred_ready_task := p, g_active_task := a\<rparr>)"
  "fewer s (s\<lparr>g_preferred_ready_task := p\<rparr>)"
  by (rule fewer_same; simp add: kupd)+

lemma fewer_upd_task:
  assumes "pend_flags (f (tcb s t)) = pend_flags (tcb s t)" and "pend_option (f (tcb s t)) = pend_option (tcb s t)"
    and "pended (f (tcb s t)) \<Longrightarrow> pended (tcb s t) \<and> blk_obj (f (tcb s t)) \<in> {blk_obj (tcb s t), None}"
  shows "fewer s (upd_task t f s)"
  using assms by (auto simp: fewer_def objs_def upd_task_def fun_eq_iff)

lemma fewer_lists [simp]:
  "fewer s (ready_list_add t s)" "fewer s (ready_list_rm t s)" "fewer s (ready_list_head_to_tail t s)"
  "fewer s (tick_list_rm t s)" "fewer s (tick_list_insert t n s)" "fewer s (core_sched s)"
  "fewer s (ready_list_add_tail t s)"
proof -
  show "fewer s (ready_list_add t s)" "fewer s (ready_list_rm t s)" "fewer s (ready_list_head_to_tail t s)"
    "fewer s (ready_list_add_tail t s)"
    by (auto simp: ready_list_add_def ready_list_add_tail_def ready_list_add_head_def ready_list_rm_def
        ready_list_head_to_tail_def split: option.split)
  have h: "fewer s (upd_task t (\<lambda>k. k\<lparr>tick_head := b\<rparr>) s)" for b s by (rule fewer_upd_task) (simp_all add: pended_def)
  show "fewer s (tick_list_rm t s)" by (simp add: tick_list_rm_def Let_def fewer_trans [OF fewer_record(2) h])
  have "fewer s (upd_task t (set_timeout (g_tick_count s) n) s)"
    by (rule fewer_upd_task) (simp_all add: set_timeout_def pended_def)
  from fewer_trans [OF this fewer_record(2)] show "fewer s (tick_list_insert t n s)"
    by (cases "0 < n") (simp_all add: tick_list_insert_eq upd_task_def word_gt_0)
  show "fewer s (core_sched s)"
  proof -
    have p: "fewer s (preferred_cpu_ready_task_get s)" for s
      by (simp add: preferred_cpu_ready_task_get_def split: list.split)
    have c: "fewer s (cpu_task_switch s)" for s by (rule fewer_same) (simp_all add: cpu_task_switch_def)
    show ?thesis unfolding core_sched_def Let_def by (auto intro: fewer_trans [OF p c] p)
  qed
qed

section \<open>Priorities\<close>

text \<open>A change of priorities changes neither the objects nor who waits for what.\<close>

definition tv :: "kstate \<Rightarrow> _" where
  "tv s = (objs s, \<lambda>t. task_state (tcb s t), \<lambda>t. blk_obj (tcb s t))"

lemma tv_fewer: "tv s' = tv s \<Longrightarrow> fewer s s'"
  by (simp add: tv_def fewer_def pended_def fun_eq_iff)

lemma tv_record [simp]:
  "tv (s\<lparr>g_ready_queue := rq\<rparr>) = tv s" "tv (k_err_proc e s) = tv s" "tv (fault s) = tv s" "tv (blk_list_rm t s) = tv s"
  "tv (upd_task t (\<lambda>k. k\<lparr>prio := p\<rparr>) s) = tv s" "tv (upd_task t (\<lambda>k. k\<lparr>mutex_list := ms\<rparr>) s) = tv s"
  "tv (upd_task t (\<lambda>k. k\<lparr>b_prio := p\<rparr>) s) = tv s" "tv (upd_blk ob (\<lambda>b. b\<lparr>blk_list := g b\<rparr>) s) = tv s"
  by (auto simp: tv_def objs_def kupd fun_eq_iff)

lemma tv_lists [simp]:
  "tv (ready_list_add_tail t s) = tv s" "tv (ready_list_add_head t s) = tv s" "tv (ready_list_rm t s) = tv s"
  "tv (pend_list_reorder t s) = tv s"
  by (simp_all add: ready_list_add_tail_def ready_list_add_head_def ready_list_rm_def pend_list_reorder_def Let_def
      split: option.split)

lemma tv_mutex_pri_look: "tv (snd (mutex_pri_look t r s)) = tv s"
  by (simp add: mutex_pri_look_def split_beta Let_def)

lemma tv_pri_change_round:
  "(case pri_change_round t p s of Inl (r, s') \<Rightarrow> tv s' = tv s | Inr (t', p', s') \<Rightarrow> tv s' = tv s)"
  using tv_mutex_pri_look
  by (auto simp: pri_change_round_def pri_change_pend_def Let_def split_beta split: task_stat_t.splits option.splits)

lemma tv_task_pri_change [simp]: "tv (snd (task_pri_change t p s)) = tv s"
proof -
  have "tv (snd (task_pri_change_loop n t p s)) = tv s" for n
  proof (induction n arbitrary: t p s)
    case (Suc n)
    then show ?case
      using tv_pri_change_round [where t = t and p = p and s = s] by (auto split: sum.splits prod.splits)
  qed simp
  then show ?thesis by (simp only: task_pri_change_def)
qed

lemma tv_mutex_release [simp]: "tv (mutex_release t r s) = tv s"
  using tv_mutex_pri_look [of t r s] by (auto simp: mutex_release_def split: prod.splits)

lemma tv_mutex_task_pri_reset [simp]: "tv (mutex_task_pri_reset t s) = tv s"
  by (simp add: mutex_task_pri_reset_def split: option.splits)

section \<open>The calls\<close>

lemma fewer_upd:
  "st \<noteq> K_PEND \<Longrightarrow> st \<noteq> K_PEND_SUSPENDED \<Longrightarrow> fewer s (upd_task t (\<lambda>k. k\<lparr>task_state := st\<rparr>) s)"
  "task_state (tcb s t) = K_PEND \<Longrightarrow> fewer s (upd_task t (\<lambda>k. k\<lparr>task_state := K_PEND_SUSPENDED\<rparr>) s)"
  "task_state (tcb s t) = K_PEND_SUSPENDED \<Longrightarrow> fewer s (upd_task t (\<lambda>k. k\<lparr>task_state := K_PEND\<rparr>) s)"
  "fewer s (upd_task t (\<lambda>k. k\<lparr>blk_state := b\<rparr>) s)" "fewer s (upd_task t (\<lambda>k. k\<lparr>blk_obj := None\<rparr>) s)"
  "fewer s (upd_task t (\<lambda>k. k\<lparr>suspend_count := f k\<rparr>) s)" "fewer s (upd_task t (\<lambda>k. k\<lparr>time_total := c\<rparr>) s)"
  "fewer s (upd_task t (\<lambda>k. k\<lparr>task_time_slice := g k\<rparr>) s)" "fewer s (upd_task t (\<lambda>k. k\<lparr>sched_policy := po\<rparr>) s)"
  "fewer s (upd_task t (\<lambda>k. k\<lparr>mutex_list := h k\<rparr>) s)"
  by (rule fewer_upd_task; simp add: pended_def)+

lemma fewer_prio:
  "fewer s (mutex_release t r s)" "fewer s (mutex_task_pri_reset t s)" "fewer s (snd (task_pri_change t p s))"
  "fewer s (upd_task t (\<lambda>k. k\<lparr>b_prio := p\<rparr>) s)"
  by (rule tv_fewer; simp)+

lemma fewer_wakeup: "fewer s (pend_task_wakeup t s)"
proof -
  have "fewer s (case task_state (tcb s t) of
      K_PEND \<Rightarrow> upd_task t (\<lambda>k. k\<lparr>task_state := K_RDY\<rparr>) (ready_list_add t (blk_list_rm t s))
    | K_PEND_SUSPENDED \<Rightarrow> upd_task t (\<lambda>k. k\<lparr>task_state := K_SUSPENDED\<rparr>) (blk_list_rm t s)
    | _ \<Rightarrow> k_err_proc RHINO_SYS_FATAL_ERR s)" (is "fewer s ?w")
    by (auto split: task_stat_t.split
        intro: fewer_trans [OF fewer_record(7) fewer_upd(1)]
          fewer_trans [OF fewer_trans [OF fewer_record(7) fewer_lists(1)] fewer_upd(1)])
  moreover have "fewer s' (upd_task t (\<lambda>k. k\<lparr>blk_state := BLK_FINISH, blk_obj := None\<rparr>) s')" for s'
    by (rule fewer_upd_task) (auto simp: pended_def)
  ultimately show ?thesis
    unfolding pend_task_wakeup_def Let_def by (meson fewer_trans fewer_lists(4))
qed

lemmas fewer_chain =
  fewer_trans [OF _ fewer_record(1)] fewer_trans [OF _ fewer_record(3)] fewer_trans [OF _ fewer_record(7)]
  fewer_trans [OF _ fewer_record(8)]
  fewer_trans [OF _ fewer_lists(1)] fewer_trans [OF _ fewer_lists(2)] fewer_trans [OF _ fewer_lists(3)]
  fewer_trans [OF _ fewer_lists(4)] fewer_trans [OF _ fewer_lists(5)] fewer_trans [OF _ fewer_lists(6)]
  fewer_trans [OF _ fewer_upd(1) [where st = K_RDY, simplified]] fewer_trans [OF _ fewer_upd(1) [where st = K_SUSPENDED, simplified]]
  fewer_trans [OF _ fewer_upd(1) [where st = K_SLEEP, simplified]]
  fewer_trans [OF _ fewer_upd(1) [where st = K_SLEEP_SUSPENDED, simplified]]
  fewer_trans [OF _ fewer_upd(1) [where st = K_DELETED, simplified]] fewer_trans [OF _ fewer_upd(4)] fewer_trans [OF _ fewer_upd(5)]
  fewer_trans [OF _ fewer_upd(6)] fewer_trans [OF _ fewer_upd(7)] fewer_trans [OF _ fewer_upd(8)]
  fewer_trans [OF _ fewer_upd(9)] fewer_trans [OF _ fewer_upd(10)]
  fewer_trans [OF _ fewer_prio(2)] fewer_trans [OF _ fewer_prio(3)] fewer_trans [OF _ fewer_prio(4)]
  fewer_trans [OF _ fewer_wakeup]

lemma fewer_task_sleep: "fewer s (snd (krhino_task_sleep ticks s))"
  unfolding krhino_task_sleep_def Let_def by (auto intro!: fewer_chain)

lemma fewer_task_yield: "fewer s (snd (krhino_task_yield s))"
  unfolding krhino_task_yield_def Let_def by (auto intro!: fewer_chain)

lemma fewer_susp:
  "task_state (tcb s t) = K_PEND \<Longrightarrow>
    fewer s (upd_task t (\<lambda>k. k\<lparr>task_state := K_PEND_SUSPENDED\<rparr>) (upd_task t (\<lambda>k. k\<lparr>suspend_count := c\<rparr>) s))"
  "task_state (tcb s t) = K_PEND_SUSPENDED \<Longrightarrow>
    fewer s (upd_task t (\<lambda>k. k\<lparr>task_state := K_PEND\<rparr>) (upd_task t (\<lambda>k. k\<lparr>suspend_count := f k\<rparr>) s))"
  by (rule fewer_trans [OF fewer_upd(6) fewer_upd(2)], simp add: upd_task_def)
    (rule fewer_trans [OF fewer_upd(6) fewer_upd(3)], simp add: upd_task_def)

lemma fewer_task_suspend: "fewer s (snd (krhino_task_suspend task s))"
  unfolding krhino_task_suspend_def task_suspend_def Let_def
  by (auto split: option.split task_stat_t.split intro!: fewer_susp fewer_chain)

lemma fewer_task_resume: "fewer s (snd (krhino_task_resume t s))"
  unfolding krhino_task_resume_def task_resume_def Let_def
  by (auto split: task_stat_t.split intro!: fewer_susp fewer_chain)

lemma fewer_task_pri_change: "fewer s (snd (snd (krhino_task_pri_change t p s)))"
  unfolding krhino_task_pri_change_def Let_def by (auto simp: split_beta intro!: fewer_chain)

lemma fewer_task_wait_abort: "fewer s (snd (krhino_task_wait_abort t s))"
  unfolding krhino_task_wait_abort_def Let_def by (auto split: task_stat_t.split intro!: fewer_chain)

lemma fewer_task_mutex_free: "fewer s (task_mutex_free t s)"
proof -
  have "fewer s (task_mutex_free_loop ms s)" for ms
  proof (induction ms arbitrary: s)
    case (Cons m ms)
    show ?case by (auto simp: Let_def split: list.split intro!: fewer_trans [OF _ Cons.IH] fewer_chain)
  qed simp
  then show ?thesis by (simp add: task_mutex_free_def)
qed

lemma fewer_task_del: "fewer s (snd (krhino_task_del t s))"
proof -
  have f: "fewer s (task_mutex_free u s)" for u by (rule fewer_task_mutex_free)
  show ?thesis
    unfolding krhino_task_del_def Let_def
    by (auto split: task_stat_t.split option.split intro!: f fewer_chain)
qed

lemma fewer_attr:
  "fewer s (snd (krhino_task_time_slice_set t c s))" "fewer s (snd (krhino_sched_policy_set t p s))"
  unfolding krhino_task_time_slice_set_def krhino_sched_policy_set_def Let_def
  by (auto split: option.split intro!: fewer_chain)

lemma fewer_tick_expire: "fewer s (tick_expire t s)"
  unfolding tick_expire_def Let_def by (auto split: task_stat_t.split intro!: fewer_chain)

lemma fewer_tick_proc: "fewer s (krhino_tick_proc s)"
proof -
  have "fewer s (tick_list_update_loop ts s)" for ts s
    by (induction ts arbitrary: s) (auto intro: fewer_trans [OF fewer_tick_expire])
  then have u: "fewer s (tick_list_update n s)" for n s
    by (auto simp: tick_list_update_def Let_def intro: fewer_trans [OF fewer_record(4)])
  have "fewer s (time_slice_update s)" for s
    unfolding time_slice_update_def Let_def by (auto split: list.split intro!: fewer_chain)
  then show ?thesis unfolding krhino_tick_proc_def by (rule fewer_trans [OF u])
qed

end
