(* ===== verification/K_Timer.thy ===== *)
theory K_Timer
  imports K_BufQueue
begin

text \<open>
  Software timers (\<^verbatim>\<open>core/k_timer.c\<close>). A call on a timer writes a command
  (\<open>k_timer_queue_cb\<close>) into a local variable and sends its bytes to the timer task through the
  buffer queue \<open>g_timer_queue\<close>; the timer task decodes it, keeps the list of running timers
  ordered by the time that remains and calls the functions of the timers that are due.

  \<open>at\<close> is the address of the local variable; bytes that are not written keep what the memory
  holds. A command has the layout of a 32-bit target: the timer at offset 0, the command at
  4, \<open>first\<close> at 8, the union \<open>u\<close> at 16. The functions the application registered are the argument
  \<open>call\<close>: the address of the function, the timer and its argument. The timer task blocks
  in \<open>krhino_buf_queue_recv\<close>; its code between two such calls is one definition each.
\<close>

section \<open>Commands as bytes\<close>

datatype timer_cmd =
    TIMER_CMD_CB | TIMER_CMD_START | TIMER_CMD_STOP | TIMER_CMD_CHG | TIMER_ARG_CHG | TIMER_ARG_CHG_AUTO
  | TIMER_CMD_DEL | TIMER_CMD_DYN_DEL

fun cmd_num :: "timer_cmd \<Rightarrow> u8" where
  "cmd_num TIMER_CMD_CB = 0"
| "cmd_num TIMER_CMD_START = 1"
| "cmd_num TIMER_CMD_STOP = 2"
| "cmd_num TIMER_CMD_CHG = 3"
| "cmd_num TIMER_ARG_CHG = 4"
| "cmd_num TIMER_ARG_CHG_AUTO = 5"
| "cmd_num TIMER_CMD_DEL = 6"
| "cmd_num TIMER_CMD_DYN_DEL = 7"

record k_timer_queue_cb =
  cb_timer :: oid
  cb_num :: u8
  cb_first :: tick_t
  u_round :: tick_t
  u_arg :: u32

definition CB_SIZE :: nat where "CB_SIZE = 24"

definition put_u64 :: "nat \<Rightarrow> tick_t \<Rightarrow> mem \<Rightarrow> mem" where
  "put_u64 a v m = put_u32 (a + 4) (ucast (drop_bit 32 v)) (put_u32 a (ucast v) m)"

definition get_u64 :: "nat \<Rightarrow> mem \<Rightarrow> tick_t" where
  "get_u64 a m = ucast (get_u32 a m) OR push_bit 32 (ucast (get_u32 (a + 4) m))"

text \<open>\<open>cb.timer\<close>, \<open>cb.cb_num\<close>, \<open>cb.first\<close>, \<open>cb.u.round\<close> and \<open>cb.u.arg\<close> are assigned.\<close>

definition cb_put_timer :: "nat \<Rightarrow> oid \<Rightarrow> mem \<Rightarrow> mem" where
  "cb_put_timer at timer = put_u32 at (of_nat timer)"

definition cb_put_num :: "nat \<Rightarrow> timer_cmd \<Rightarrow> mem \<Rightarrow> mem" where
  "cb_put_num at c m = m(at + 4 := cmd_num c)"

definition cb_put_first :: "nat \<Rightarrow> tick_t \<Rightarrow> mem \<Rightarrow> mem" where
  "cb_put_first at = put_u64 (at + 8)"

definition cb_put_round :: "nat \<Rightarrow> tick_t \<Rightarrow> mem \<Rightarrow> mem" where
  "cb_put_round at = put_u64 (at + 16)"

definition cb_put_arg :: "nat \<Rightarrow> u32 \<Rightarrow> mem \<Rightarrow> mem" where
  "cb_put_arg at = put_u32 (at + 16)"

definition cb_get :: "nat \<Rightarrow> mem \<Rightarrow> k_timer_queue_cb" where
  "cb_get at m = \<lparr>cb_timer = unat (get_u32 at m), cb_num = m (at + 4), cb_first = get_u64 (at + 8) m,
     u_round = get_u64 (at + 16) m, u_arg = get_u32 (at + 16) m\<rparr>"

section \<open>The calls\<close>

definition MAX_TIMER_TICKS :: tick_t where "MAX_TIMER_TICKS = drop_bit 1 (- 1)"

text \<open>The addresses of \<open>g_timer_queue\<close> and of the task \<open>g_timer_task\<close>.\<close>

definition g_timer_queue :: oid where "g_timer_queue = 1"
definition g_timer_task :: tid where "g_timer_task = 1"

definition upd_timer :: "oid \<Rightarrow> (ktimer_t \<Rightarrow> ktimer_t) \<Rightarrow> kstate \<Rightarrow> kstate" where
  "upd_timer t f s = s\<lparr>timers := (timers s)(t := f (timers s t))\<rparr>"

definition cb_send :: "nat \<Rightarrow> (mem \<Rightarrow> mem) \<Rightarrow> kstate \<Rightarrow> kstat_t \<times> kstate" where
  "cb_send at f s = krhino_buf_queue_send g_timer_queue (of_nat at) CB_SIZE (s\<lparr>u8_mem := f (u8_mem s)\<rparr>)"

definition krhino_timer_start :: "nat \<Rightarrow> oid \<Rightarrow> kstate \<Rightarrow> kstat_t \<times> kstate" where
  "krhino_timer_start at timer s = cb_send at (cb_put_num at TIMER_CMD_START \<circ> cb_put_timer at timer) s"

definition krhino_timer_stop :: "nat \<Rightarrow> oid \<Rightarrow> kstate \<Rightarrow> kstat_t \<times> kstate" where
  "krhino_timer_stop at timer s = cb_send at (cb_put_num at TIMER_CMD_STOP \<circ> cb_put_timer at timer) s"

definition krhino_timer_del :: "nat \<Rightarrow> oid \<Rightarrow> kstate \<Rightarrow> kstat_t \<times> kstate" where
  "krhino_timer_del at timer s = cb_send at (cb_put_num at TIMER_CMD_DEL \<circ> cb_put_timer at timer) s"

definition krhino_timer_change :: "nat \<Rightarrow> oid \<Rightarrow> tick_t \<Rightarrow> tick_t \<Rightarrow> kstate \<Rightarrow> kstat_t \<times> kstate" where
  "krhino_timer_change at timer first round s =
    (if first \<ge> - 1 then (RHINO_INV_PARAM, s)
     else if round \<ge> - 1 then (RHINO_INV_PARAM, s)
     else cb_send at (cb_put_num at TIMER_CMD_CHG \<circ> cb_put_round at round \<circ> cb_put_first at first \<circ>
            cb_put_timer at timer) s)"

definition krhino_timer_arg_change :: "nat \<Rightarrow> oid \<Rightarrow> u32 \<Rightarrow> kstate \<Rightarrow> kstat_t \<times> kstate" where
  "krhino_timer_arg_change at timer arg s =
     cb_send at (cb_put_num at TIMER_ARG_CHG \<circ> cb_put_arg at arg \<circ> cb_put_timer at timer) s"

definition krhino_timer_arg_change_auto :: "nat \<Rightarrow> oid \<Rightarrow> u32 \<Rightarrow> kstate \<Rightarrow> kstat_t \<times> kstate" where
  "krhino_timer_arg_change_auto at timer arg s =
     cb_send at (cb_put_num at TIMER_ARG_CHG_AUTO \<circ> cb_put_arg at arg \<circ> cb_put_timer at timer) s"

definition timer_create ::
  "nat \<Rightarrow> oid \<Rightarrow> u32 \<Rightarrow> tick_t \<Rightarrow> tick_t \<Rightarrow> u32 \<Rightarrow> bool \<Rightarrow> alloc_flag \<Rightarrow> kstate \<Rightarrow> kstat_t \<times> kstate" where
  "timer_create at timer cb first round arg auto_run flag s =
    (if first = 0 then (RHINO_INV_PARAM, s)
     else if first \<ge> MAX_TIMER_TICKS then (RHINO_INV_PARAM, s)
     else if round \<ge> MAX_TIMER_TICKS then (RHINO_INV_PARAM, s)
     else
       let s = upd_timer timer (\<lambda>t. t\<lparr>timer_cb := cb, init_count := first, round_ticks := round, timer_remain := 0,
                 timer_match := 0, timer_state := TIMER_DEACTIVE, to_head := False, timer_alloc_flag := flag,
                 timer_cb_arg := arg\<rparr>) s;
           s = upd_timer timer (\<lambda>t. t\<lparr>timer_obj_type := RHINO_TIMER_OBJ_TYPE\<rparr>) s
       in if auto_run then krhino_timer_start at timer s else (RHINO_SUCCESS, s))"

definition krhino_timer_create ::
  "nat \<Rightarrow> oid \<Rightarrow> u32 \<Rightarrow> tick_t \<Rightarrow> tick_t \<Rightarrow> u32 \<Rightarrow> bool \<Rightarrow> kstate \<Rightarrow> kstat_t \<times> kstate" where
  "krhino_timer_create at timer cb first round arg auto_run s =
     timer_create at timer cb first round arg auto_run K_OBJ_STATIC_ALLOC s"

section \<open>The timer task\<close>

fun timer_list_pri_insert :: "(oid \<Rightarrow> ktimer_t) \<Rightarrow> tick_t \<Rightarrow> oid \<Rightarrow> oid list \<Rightarrow> oid list" where
  "timer_list_pri_insert tm now timer [] = [timer]"
| "timer_list_pri_insert tm now timer (q # qs) =
     (if timer_match (tm q) - now > timer_remain (tm timer) then timer # q # qs
      else q # timer_list_pri_insert tm now timer qs)"

definition timer_list_rm :: "oid \<Rightarrow> kstate \<Rightarrow> kstate" where
  "timer_list_rm timer s =
    (if to_head (timers s timer) then
       upd_timer timer (\<lambda>t. t\<lparr>to_head := False\<rparr>) (s\<lparr>g_timer_head := remove1 timer (g_timer_head s)\<rparr>)
     else s)"

text \<open>Linking a timer that is due \<open>ticks\<close> from now.\<close>

definition timer_arm :: "oid \<Rightarrow> tick_t \<Rightarrow> kstate \<Rightarrow> kstate" where
  "timer_arm timer ticks s =
    (let s = upd_timer timer (\<lambda>t. t\<lparr>timer_match := g_timer_count s + ticks, timer_remain := ticks, to_head := True\<rparr>) s
     in s\<lparr>g_timer_head := timer_list_pri_insert (timers s) (g_timer_count s) timer (g_timer_head s)\<rparr>)"

definition cmd_proc :: "k_timer_queue_cb \<Rightarrow> u8 \<Rightarrow> kstate \<Rightarrow> kstate" where
  "cmd_proc cb cmd s =
    (let timer = cb_timer cb; t = timers s timer
     in if cmd = cmd_num TIMER_CMD_START then
          (if timer_obj_type t \<noteq> RHINO_TIMER_OBJ_TYPE then s
           else if timer_state t = TIMER_ACTIVE then s
           else upd_timer timer (\<lambda>t. t\<lparr>timer_state := TIMER_ACTIVE\<rparr>) (timer_arm timer (init_count t) s))
        else if cmd = cmd_num TIMER_CMD_STOP then
          (if timer_obj_type t \<noteq> RHINO_TIMER_OBJ_TYPE then s
           else if timer_state t = TIMER_DEACTIVE then s
           else upd_timer timer (\<lambda>t. t\<lparr>timer_state := TIMER_DEACTIVE\<rparr>) (timer_list_rm timer s))
        else if cmd = cmd_num TIMER_CMD_CHG then
          (if cb_first cb = 0 then s
           else if timer_obj_type t \<noteq> RHINO_TIMER_OBJ_TYPE then s
           else if timer_state t \<noteq> TIMER_DEACTIVE then s
           else upd_timer timer (\<lambda>t. t\<lparr>init_count := cb_first cb, round_ticks := u_round cb\<rparr>) s)
        else if cmd = cmd_num TIMER_ARG_CHG then
          (if timer_obj_type t \<noteq> RHINO_TIMER_OBJ_TYPE then s
           else if timer_state t \<noteq> TIMER_DEACTIVE then s
           else upd_timer timer (\<lambda>t. t\<lparr>timer_cb_arg := u_arg cb\<rparr>) s)
        else if cmd = cmd_num TIMER_CMD_DEL then
          (if timer_obj_type t \<noteq> RHINO_TIMER_OBJ_TYPE then s
           else if timer_state t \<noteq> TIMER_DEACTIVE then s
           else if timer_alloc_flag t \<noteq> K_OBJ_STATIC_ALLOC then s
           else upd_timer timer (\<lambda>t. t\<lparr>timer_obj_type := RHINO_OBJ_TYPE_NONE\<rparr>) s)
        else k_err_proc RHINO_SYS_FATAL_ERR s)"

definition timer_cmd_proc :: "k_timer_queue_cb \<Rightarrow> kstate \<Rightarrow> kstate" where
  "timer_cmd_proc cb s =
    (if cb_num cb = cmd_num TIMER_ARG_CHG_AUTO then
       let s = cmd_proc cb (cmd_num TIMER_CMD_STOP) s;
           s = cmd_proc cb (cmd_num TIMER_ARG_CHG) s
       in cmd_proc cb (cmd_num TIMER_CMD_START) s
     else cmd_proc cb (cb_num cb) s)"

text \<open>
  The loop over the list reads the next node after the timer was unlinked and, for a
  periodic timer, linked again: a periodic timer sends it on from its new place, a one-shot
  timer from its old one. \<open>n\<close> bounds the rounds; running out of it is recorded as a fault.
\<close>

fun node_next :: "oid list \<Rightarrow> oid \<Rightarrow> oid option" where
  "node_next [] x = None"
| "node_next (y # ys) x = (if y = x then (case ys of [] \<Rightarrow> None | z # _ \<Rightarrow> Some z) else node_next ys x)"

definition timer_due :: "tick_t \<Rightarrow> ktimer_t \<Rightarrow> bool" where
  "timer_due now t \<longleftrightarrow> sint (timer_match t - now) \<le> 0"

text \<open>What follows the call of the function of a timer that was due.\<close>

definition timer_again :: "oid \<Rightarrow> kstate \<Rightarrow> kstate" where
  "timer_again q s =
    (let s = timer_list_rm q s
     in if round_ticks (timers s q) > 0 then timer_arm q (round_ticks (timers s q)) s
        else upd_timer q (\<lambda>t. t\<lparr>timer_state := TIMER_DEACTIVE\<rparr>) s)"

fun timer_cb_loop :: "(u32 \<Rightarrow> oid \<Rightarrow> u32 \<Rightarrow> kstate \<Rightarrow> kstate) \<Rightarrow> nat \<Rightarrow> oid option \<Rightarrow> kstate \<Rightarrow> kstate" where
  "timer_cb_loop call n None s = s"
| "timer_cb_loop call 0 (Some q) s = fault s"
| "timer_cb_loop call (Suc n) (Some q) s =
    (if timer_due (g_timer_count s) (timers s q) then
       let s = call (timer_cb (timers s q)) q (timer_cb_arg (timers s q)) s;
           old = g_timer_head s;
           s = timer_again q s
       in timer_cb_loop call n (node_next (if to_head (timers s q) then g_timer_head s else old) q) s
     else s)"

definition timer_cb_proc :: "(u32 \<Rightarrow> oid \<Rightarrow> u32 \<Rightarrow> kstate \<Rightarrow> kstate) \<Rightarrow> kstate \<Rightarrow> kstate" where
  "timer_cb_proc call s =
     timer_cb_loop call (Suc (length (g_timer_head s)))
       (case g_timer_head s of [] \<Rightarrow> None | q # _ \<Rightarrow> Some q) s"

text \<open>Where the timer task waits next: for a command, or for one at most some ticks long.\<close>

datatype timer_wait = Wait_cmd | Wait_cmd_for tick_t

fun timer_task_inner ::
  "(u32 \<Rightarrow> oid \<Rightarrow> u32 \<Rightarrow> kstate \<Rightarrow> kstate) \<Rightarrow> nat \<Rightarrow> kstate \<Rightarrow> (timer_wait \<times> kstate) option" where
  "timer_task_inner call 0 s = None"
| "timer_task_inner call (Suc n) s =
    (case g_timer_head s of
       [] \<Rightarrow> Some (Wait_cmd, s)
     | timer # _ \<Rightarrow>
         let tick_start = krhino_sys_tick_get s;
             delta = timer_match (timers s timer) - tick_start
         in if sint delta > 0 then Some (Wait_cmd_for delta, s)
            else timer_task_inner call n (timer_cb_proc call (s\<lparr>g_timer_count := tick_start\<rparr>)))"

text \<open>After the first \<open>recv\<close> returned \<open>err\<close> with the command at \<open>at\<close>.\<close>

definition timer_task_cmd :: "nat \<Rightarrow> kstat_t \<Rightarrow> kstate \<Rightarrow> kstate" where
  "timer_task_cmd at err s =
    (let tick_end = krhino_sys_tick_get s;
         s = (if err = RHINO_SUCCESS then s\<lparr>g_timer_count := tick_end\<rparr> else k_err_proc RHINO_SYS_FATAL_ERR s)
     in timer_cmd_proc (cb_get at (u8_mem s)) s)"

text \<open>After the \<open>recv\<close> with a timeout returned \<open>err\<close>.\<close>

definition timer_task_timed ::
  "(u32 \<Rightarrow> oid \<Rightarrow> u32 \<Rightarrow> kstate \<Rightarrow> kstate) \<Rightarrow> nat \<Rightarrow> kstat_t \<Rightarrow> kstate \<Rightarrow> kstate" where
  "timer_task_timed call at err s =
    (let tick_end = krhino_sys_tick_get s;
         s = (if err = RHINO_BLK_TIMEOUT then s\<lparr>g_timer_count := tick_end\<rparr>
              else if err = RHINO_SUCCESS then
                timer_cmd_proc (cb_get at (u8_mem s)) (s\<lparr>g_timer_count := tick_end\<rparr>)
              else k_err_proc RHINO_SYS_FATAL_ERR s)
     in timer_cb_proc call s)"

definition RHINO_CONFIG_TIMER_MSG_NUM :: nat where "RHINO_CONFIG_TIMER_MSG_NUM = 20"
definition RHINO_CONFIG_TIMER_TASK_PRI :: nat where "RHINO_CONFIG_TIMER_TASK_PRI = 5"
definition RHINO_CONFIG_TIMER_TASK_STACK_SIZE :: nat where "RHINO_CONFIG_TIMER_TASK_STACK_SIZE = 200"

text \<open>\<open>buf\<close> is the address of the array \<open>timer_queue_cb\<close>.\<close>

definition ktimer_init :: "nat \<Rightarrow> kstate \<Rightarrow> kstate" where
  "ktimer_init buf s =
    (let s = s\<lparr>g_timer_head := []\<rparr>;
         s = snd (krhino_fix_buf_queue_create g_timer_queue buf CB_SIZE RHINO_CONFIG_TIMER_MSG_NUM s)
     in snd (krhino_task_create g_timer_task RHINO_CONFIG_TIMER_TASK_PRI 0 RHINO_CONFIG_TIMER_TASK_STACK_SIZE True s))"

end
