(* ===== verification/K_Sys.thy ===== *)
theory K_Sys
  imports K_Timer
begin

text \<open>
  Start of the kernel and interrupts (\<^verbatim>\<open>core/k_sys.c\<close>), the idle task (\<^verbatim>\<open>core/k_idle.c\<close>) and the
  list of kernel objects (\<^verbatim>\<open>core/k_stats.c\<close>). The idle task has the address \<open>idle_tid\<close>;
  the work queues are compiled in on \<^verbatim>\<open>CONFIG_KERNEL_WORKQUEUE\<close> only and are off here. \<open>buf\<close> is the
  address of the array \<open>timer_queue_cb\<close>. \<open>cpu_first_task_start\<close> leaves the caller for the chosen task,
  so the result of \<open>krhino_start\<close> is the state in which that task begins.
\<close>

definition RHINO_CONFIG_IDLE_TASK_STACK_SIZE :: nat where "RHINO_CONFIG_IDLE_TASK_STACK_SIZE = 256"

definition kobj_list_init :: "kstate \<Rightarrow> kstate" where
  "kobj_list_init s = s\<lparr>g_tasks := []\<rparr>"

definition krhino_init :: "nat \<Rightarrow> kstate \<Rightarrow> kstat_t \<times> kstate" where
  "krhino_init buf s =
    (let s = s\<lparr>g_sys_stat := RHINO_STOPPED\<rparr>;
         s = s\<lparr>g_ready_queue := runqueue_init (g_ready_queue s)\<rparr>;
         s = tick_list_init s;
         s = kobj_list_init s;
         s = snd (krhino_task_create idle_tid RHINO_IDLE_PRI 0 RHINO_CONFIG_IDLE_TASK_STACK_SIZE True s);
         s = ktimer_init buf s
     in (RHINO_SUCCESS, s))"

definition krhino_start :: "kstate \<Rightarrow> kres \<times> kstate" where
  "krhino_start s =
    (if g_sys_stat s = RHINO_STOPPED then
       let s = preferred_cpu_ready_task_get s;
           s = s\<lparr>g_active_task := g_preferred_ready_task s\<rparr>;
           s = s\<lparr>g_sys_stat := RHINO_RUNNING\<rparr>
       in (Blocked, s)
     else (Ret RHINO_RUNNING, s))"

definition krhino_intrpt_enter :: "kstate \<Rightarrow> kstat_t \<times> kstate" where
  "krhino_intrpt_enter s =
    (if g_intrpt_nested_level s \<ge> RHINO_CONFIG_INTRPT_MAX_NESTED_LEVEL
     then (RHINO_INTRPT_NESTED_LEVEL_OVERFLOW, k_err_proc RHINO_INTRPT_NESTED_LEVEL_OVERFLOW s)
     else (RHINO_SUCCESS, s\<lparr>g_intrpt_nested_level := g_intrpt_nested_level s + 1\<rparr>))"

text \<open>\<open>cpu_intrpt_switch\<close> makes the preferred task the running one when the interrupt ends.\<close>

definition cpu_intrpt_switch :: "kstate \<Rightarrow> kstate" where
  "cpu_intrpt_switch s = s\<lparr>g_active_task := g_preferred_ready_task s\<rparr>"

definition krhino_intrpt_exit :: "kstate \<Rightarrow> kstate" where
  "krhino_intrpt_exit s =
    (let s = (if g_intrpt_nested_level s = 0 then k_err_proc RHINO_INV_INTRPT_NESTED_LEVEL s else s);
         s = s\<lparr>g_intrpt_nested_level := g_intrpt_nested_level s - 1\<rparr>
     in if g_intrpt_nested_level s > 0 then s
        else if g_sched_lock s > 0 then s
        else
          let s = preferred_cpu_ready_task_get s
          in if g_preferred_ready_task s = g_active_task s then s else cpu_intrpt_switch s)"

end
