(* ===== verification/K_SysCalls.thy ===== *)
theory K_SysCalls
  imports K_SemInv K_MutexInv K_EventInv K_BufQueueInv K_WaitInv K_Sys
begin

text \<open>
  The invariant of the running system (\<open>sys_inv\<close>, and \<open>inv_wait\<close>: no task waits for what is already there) for the calls that do
  not belong to one kind of object: the scheduler lock, interrupts and the tick, attributes of
  tasks, the semaphore of a task, the rest of a call that blocked, and the timers.
\<close>

definition good :: "kstate \<Rightarrow> bool" where
  "good s \<longleftrightarrow> sys_inv s \<and> inv_wait s"

lemma goodD: "good s \<Longrightarrow> sys_inv s" "good s \<Longrightarrow> inv_wait s" "good s \<Longrightarrow> kinv s" "good s \<Longrightarrow> kernel_inv s"
  by (auto simp: good_def sys_invD)

lemma goodI: "sys_inv s \<Longrightarrow> inv_wait s \<Longrightarrow> good s"
  by (simp add: good_def)

lemma good_fewer: "good s \<Longrightarrow> sys_inv s' \<Longrightarrow> fewer s s' \<Longrightarrow> good s'"
  using inv_wait_fewer [of s s'] by (simp add: good_def sys_invD)

section \<open>The scheduler lock and interrupts\<close>

lemma kernel_inv_levels:
  assumes "kernel_inv s"
  shows "kernel_inv (s\<lparr>g_sched_lock := l\<rparr>)" "kernel_inv (s\<lparr>g_intrpt_nested_level := n\<rparr>)"
  by (rule kernel_inv_cong [OF assms]; simp add: same_core_def is_mutex_def)+

lemma fewer_levels [simp]: "fewer s (s\<lparr>g_sched_lock := l\<rparr>)" "fewer s (s\<lparr>g_intrpt_nested_level := n\<rparr>)"
  by (rule fewer_same; simp)+

lemma good_sched_disable:
  assumes g: "good s"
  shows "good (snd (krhino_sched_disable s))"
proof (cases "g_intrpt_nested_level s > 0 \<or> g_sched_lock s \<ge> SCHED_MAX_LOCK_COUNT")
  case False
  let ?s = "s\<lparr>g_sched_lock := g_sched_lock s + 1\<rparr>"
  have "g_sched_lock s + 1 \<noteq> 0"
    using False by (auto simp: SCHED_MAX_LOCK_COUNT_def word_less_nat_alt not_le dest!: arg_cong [of _ _ unat]
        simp: unat_word_ariths)
  moreover have "active_rdy s"
    using active_rdy_running False goodD [OF g] by (simp add: sys_invD word_gt_0)
  ultimately have "sys_inv ?s"
    using sys_invD [OF goodD(1) [OF g]] kernel_inv_levels(1) [OF goodD(4) [OF g]]
    by (simp add: sys_inv_def inv_running_def active_rdy_def booted_def)
  with False show ?thesis
    using good_fewer [OF g] by (simp add: krhino_sched_disable_def)
qed (use g in \<open>auto simp: krhino_sched_disable_def\<close>)

lemma good_sched_enable:
  assumes g: "good s"
  shows "good (snd (krhino_sched_enable s))"
proof (cases "g_intrpt_nested_level s > 0 \<or> g_sched_lock s = 0")
  case False
  let ?s = "s\<lparr>g_sched_lock := g_sched_lock s - 1\<rparr>"
  have k: "kernel_inv ?s" by (rule kernel_inv_levels(1) [OF goodD(4) [OF g]])
  have r: "active_rdy ?s" "booted ?s"
    using active_rdy_locked False sys_invD [OF goodD(1) [OF g]] by (auto simp: active_rdy_def booted_def word_gt_0)
  then have "sys_inv (core_sched ?s)" by (intro sys_inv_core_sched [OF k])
  moreover have "sys_inv ?s" if "g_sched_lock ?s > 0"
    using k r that by (auto simp: sys_inv_def inv_running_def)
  ultimately show ?thesis
    using False good_fewer [OF g] fewer_trans [OF fewer_levels(1) fewer_lists(6)]
    by (auto simp: krhino_sched_enable_def Let_def)
qed (use g in \<open>auto simp: krhino_sched_enable_def\<close>)

lemma good_intrpt_enter:
  assumes g: "good s" and n: "g_intrpt_nested_level s < RHINO_CONFIG_INTRPT_MAX_NESTED_LEVEL"
  shows "good (snd (krhino_intrpt_enter s))"
proof -
  let ?s = "s\<lparr>g_intrpt_nested_level := g_intrpt_nested_level s + 1\<rparr>"
  have "g_intrpt_nested_level s + 1 \<noteq> 0"
    using n by (auto simp: RHINO_CONFIG_INTRPT_MAX_NESTED_LEVEL_def word_less_nat_alt dest!: arg_cong [of _ _ unat]
        simp: unat_word_ariths)
  then have "sys_inv ?s"
    using sys_invD [OF goodD(1) [OF g]] kernel_inv_levels(2) [OF goodD(4) [OF g]]
    by (simp add: sys_inv_def inv_running_def active_rdy_def booted_def)
  with n show ?thesis using good_fewer [OF g] by (simp add: krhino_intrpt_enter_def)
qed

text \<open>Leaving the outermost interrupt is a scheduling point.\<close>

lemma krhino_intrpt_exit_eq:
  assumes "kinv s" and "g_intrpt_nested_level s > 0"
  defines "s1 \<equiv> s\<lparr>g_intrpt_nested_level := g_intrpt_nested_level s - 1\<rparr>"
  shows "krhino_intrpt_exit s = core_sched s1"
proof -
  have k1: "kinv s1" unfolding s1_def by (rule kinv_cong [OF _ _ _ _ _ _ _ _ _ assms(1)]) auto
  show ?thesis
    using assms(2) first_ready_props(1) [OF k1] unfolding core_sched_eq [OF k1]
    by (auto simp: krhino_intrpt_exit_def s1_def Let_def preferred_cpu_ready_task_get_def cpu_intrpt_switch_def
        first_ready_def split: list.splits)
qed

lemma good_intrpt_exit:
  assumes g: "good s" and n: "g_intrpt_nested_level s > 0"
  shows "good (krhino_intrpt_exit s)"
proof (rule good_fewer [OF g])
  let ?s = "s\<lparr>g_intrpt_nested_level := g_intrpt_nested_level s - 1\<rparr>"
  note i = sys_invD [OF goodD(1) [OF g]]
  show "sys_inv (krhino_intrpt_exit s)" unfolding krhino_intrpt_exit_eq [OF i(2) n]
    by (rule sys_inv_core_sched [OF kernel_inv_levels(2) [OF i(1)]])
      (use i in \<open>simp_all add: inv_running_def active_rdy_def booted_def\<close>)
  show "fewer s (krhino_intrpt_exit s)" unfolding krhino_intrpt_exit_eq [OF i(2) n]
    by (rule fewer_trans [OF fewer_levels(2) fewer_lists(6)])
qed

section \<open>The tick\<close>

lemma time_slice_update_state [simp]: "task_state (tcb (time_slice_update s) t) = task_state (tcb s t)"
  by (simp add: time_slice_update_def ready_list_head_to_tail_def kupd Let_def split: list.split)

lemma good_tick_proc:
  assumes g: "good s" and n: "g_intrpt_nested_level s > 0"
  shows "good (krhino_tick_proc s)"
proof (rule good_fewer [OF g _ fewer_tick_proc])
  note i = sys_invD [OF goodD(1) [OF g]]
  have c: "ctx (krhino_tick_proc s) = ctx s" by simp
  have "active_rdy (krhino_tick_proc s)" if "active_rdy s"
  proof -
    have "\<not> tick_head (tcb s (g_active_task s))"
      using that kinvD(3) [OF i(2)] by (auto simp: inv_tick_def active_rdy_def kstates)
    then show ?thesis
      using that tick_list_update_ok(5) [OF i(1), of 1 "g_active_task s"]
      by (simp add: active_rdy_def ctxD(3) [OF c]) (simp add: krhino_tick_proc_def)
  qed
  then show "sys_inv (krhino_tick_proc s)"
    using i(3) n kernel_inv_tick_proc [OF i(1)] booted_ctx [OF c i(4)] ctxD [OF c]
    by (auto simp: sys_inv_def inv_running_def)
qed

section \<open>Attributes of tasks\<close>

lemma good_upd_task:
  assumes g: "good s" and f: "same_core (f (tcb s t)) (tcb s t)"
    and p: "pend_flags (f (tcb s t)) = pend_flags (tcb s t)" "pend_option (f (tcb s t)) = pend_option (tcb s t)"
      "blk_obj (f (tcb s t)) = blk_obj (tcb s t)"
  shows "good (upd_task t f s)"
  by (rule good_fewer [OF g sys_inv_upd_task [where f = f, OF goodD(1) [OF g] f] fewer_upd_task])
    (use f p in \<open>auto simp: same_core_def pended_def\<close>)

lemma good_time_slice_set: "good s \<Longrightarrow> good (snd (krhino_task_time_slice_set t slc s))"
  by (auto simp: krhino_task_time_slice_set_def Let_def same_core_def intro!: good_upd_task)

lemma good_policy_set: "good s \<Longrightarrow> good (snd (krhino_sched_policy_set t p s))"
  by (auto simp: krhino_sched_policy_set_def same_core_def intro!: good_upd_task split: option.split)

lemma inv_wait_add_task:
  assumes k: "kinv s" and w: "inv_wait s" and t: "\<not> live (tcb s task)"
  shows "inv_wait (add_task task k' s)"
  unfolding inv_wait_def
proof (intro allI ballI)
  fix ob u assume "u \<in> set (blk_list (blk_objs (add_task task k' s) ob))"
  then have u: "u \<in> set (blk_list (blk_objs s ob))" by (simp add: add_task_def)
  then have "u \<noteq> task" using kinvD(2) [OF k] t by (auto simp: inv_blk_def kstates)
  then have "tcb (add_task task k' s) u = tcb s u" by (simp add: add_task_def)
  moreover have "can_serve (add_task task k' s) ob k = can_serve s ob k" for k
    by (simp add: can_serve_def add_task_def cong: kobj_type_t.case_cong)
  ultimately show "\<not> can_serve (add_task task k' s) ob (tcb (add_task task k' s) u)"
    using u w by (simp add: inv_wait_def)
qed

lemma good_task_create:
  assumes g: "good s" and t: "\<not> live (tcb s task)"
  shows "good (snd (krhino_task_create task pri ticks stk autorun s))"
proof (rule goodI)
  show sy: "sys_inv (snd (krhino_task_create task pri ticks stk autorun s))"
    unfolding krhino_task_create_def by (rule sys_inv_task_create [OF goodD(1) [OF g] t])
  let ?k = "fresh_tcb pri ticks stk autorun K_OBJ_STATIC_ALLOC"
  show "inv_wait (snd (krhino_task_create task pri ticks stk autorun s))"
  proof (cases "stk > 0 \<and> pri < RHINO_CONFIG_PRI_MAX \<and> g_intrpt_nested_level s = 0 \<and> pri \<noteq> RHINO_IDLE_PRI")
    case True
    have "kinv (add_task task ?k s)"
      by (rule kinv_add_task [OF goodD(3) [OF g] t new_task_fresh]) (simp add: True)
    with True inv_wait_add_task [OF goodD(3) [OF g] goodD(2) [OF g] t, of ?k] show ?thesis
      by (cases autorun)
        (simp_all add: krhino_task_create_def task_create_eq [OF sys_invD(4) [OF goodD(1) [OF g]]] inv_wait_core_sched)
  next
    case False
    then have "snd (krhino_task_create task pri ticks stk autorun s) = s"
      using sys_invD(4) [OF goodD(1) [OF g]] by (auto simp: krhino_task_create_def task_create_def booted_def word_gt_0)
    then show ?thesis using goodD(2) [OF g] by simp
  qed
qed

lemma good_task_suspend: "good s \<Longrightarrow> good (snd (krhino_task_suspend task s))"
proof (rule good_fewer [OF _ _ fewer_task_suspend])
  assume g: "good s"
  then have "prio (tcb s idle_tid) = RHINO_IDLE_PRI" using kinvD(5) [OF goodD(3)] by (simp add: inv_idle_def)
  then show "sys_inv (snd (krhino_task_suspend task s))"
    using goodD(1) [OF g] sys_inv_task_suspend [of s] by (force simp: krhino_task_suspend_def split: option.split)
qed

section \<open>The semaphore of a task\<close>

lemma good_task_sem_create:
  assumes g: "good s" and o: "\<not> is_mutex s sem" "blk_list (blk_objs s sem) = []"
  shows "good (snd (krhino_task_sem_create task sem count s))"
proof -
  let ?s = "snd (krhino_sem_create sem count s)"
  have c: "good ?s"
    using sys_inv_sem_create [OF goodD(1) [OF g] o] inv_wait_sem_create [OF goodD(2) [OF g] o(2)] by (rule goodI)
  have "good (upd_task t (\<lambda>k. k\<lparr>task_sem_obj := x\<rparr>) ?s)" for t x
    by (rule good_upd_task [OF c]) (simp_all add: same_core_def)
  with g show ?thesis
    by (auto simp: krhino_task_sem_create_def Let_def split: option.split prod.split)
qed

lemma good_sem:
  assumes g: "good s"
  shows "good (snd (krhino_sem_give sem s))" "good (snd (krhino_sem_give_all sem s))"
    "good (snd (krhino_sem_del sem s))" "good (snd (krhino_sem_count_set sem count s))"
  using goodD(1,2) [OF g]
  by (simp_all add: good_def krhino_sem_give_def krhino_sem_give_all_def sys_inv_sem_give inv_wait_sem_give sys_inv_sem_del
      inv_wait_sem_del sys_inv_sem_count_set inv_wait_sem_count_set)

lemma good_sem_take:
  assumes "good s" and "g_active_task s \<noteq> idle_tid" and "ticks = RHINO_WAIT_FOREVER \<or> ticks < 2 ^ 63"
  shows "good (snd (krhino_sem_take sem ticks s))"
  using assms sys_inv_sem_take [of s] inv_wait_sem_take [of s] by (simp add: good_def)

lemma good_task_sem:
  assumes g: "good s" and t: "task_sem_obj (tcb s task) \<noteq> None"
  shows "good (snd (krhino_task_sem_give task s))" "good (snd (krhino_task_sem_del task s))"
    "good (snd (krhino_task_sem_count_set task count s))"
  using t good_sem [OF g]
  by (auto simp: krhino_task_sem_give_def krhino_task_sem_del_def krhino_task_sem_count_set_def split: option.split)

lemma good_task_sem_take:
  assumes "good s" and "g_active_task s \<noteq> idle_tid" and "ticks = RHINO_WAIT_FOREVER \<or> ticks < 2 ^ 63"
    and "task_sem_obj (tcb s (g_active_task s)) \<noteq> None"
  shows "good (snd (krhino_task_sem_take ticks s))"
  using assms good_sem_take [OF assms(1-3)]
  by (auto simp: krhino_task_sem_take_def krhino_cur_task_get_def split: option.split)

section \<open>The rest of a call that blocked\<close>

lemma pend_state_end_proc_eq: "blk_state (tcb s t) \<noteq> BLK_INVALID \<Longrightarrow> snd (pend_state_end_proc t s) = s"
  by (simp add: pend_state_end_proc_def split: blk_state_t.split)

lemma good_write_u32: "good s \<Longrightarrow> good (write_u32 a v s)"
  by (simp add: good_def sys_inv_write_u32 inv_wait_write_u32)

lemma good_end:
  assumes g: "good s" and b: "blk_state (tcb s (g_active_task s)) \<noteq> BLK_INVALID"
  shows "good (snd (krhino_task_sleep_end s))" "good (snd (krhino_sem_take_end s))"
    "good (snd (krhino_mutex_lock_end s))" "good (snd (krhino_event_get_end s))"
    "good (snd (krhino_queue_recv_end p s))" "good (snd (krhino_buf_queue_recv_end z s))"
proof -
  have e: "pend_state_end_proc (g_active_task s) s = (fst (pend_state_end_proc (g_active_task s) s), s)"
    using pend_state_end_proc_eq [OF b] by (metis prod.collapse)
  show "good (snd (krhino_task_sleep_end s))" "good (snd (krhino_sem_take_end s))"
    "good (snd (krhino_mutex_lock_end s))" "good (snd (krhino_event_get_end s))"
    using g by (subst krhino_task_sleep_end_def krhino_sem_take_end_def krhino_mutex_lock_end_def
        krhino_event_get_end_def, subst e, simp)+
  show "good (snd (krhino_queue_recv_end p s))" "good (snd (krhino_buf_queue_recv_end z s))"
    using g by (subst krhino_queue_recv_end_def krhino_buf_queue_recv_end_def, subst e, simp add: good_write_u32)+
qed

section \<open>Timers\<close>

lemma good_timer_fields:
  assumes g: "good s"
  shows "good (s\<lparr>timers := tm\<rparr>)" "good (s\<lparr>g_timer_head := h\<rparr>)" "good (s\<lparr>g_timer_count := c\<rparr>)" "good (s\<lparr>u8_mem := m\<rparr>)"
proof -
  have "kernel_inv (s\<lparr>timers := tm\<rparr>)" "kernel_inv (s\<lparr>g_timer_head := h\<rparr>)" "kernel_inv (s\<lparr>g_timer_count := c\<rparr>)"
    by (rule kernel_inv_cong [OF goodD(4) [OF g]]; simp add: same_core_def is_mutex_def)+
  then have "sys_inv (s\<lparr>timers := tm\<rparr>)" "sys_inv (s\<lparr>g_timer_head := h\<rparr>)" "sys_inv (s\<lparr>g_timer_count := c\<rparr>)"
    using sys_invD [OF goodD(1) [OF g]]
    by (simp_all add: sys_inv_def inv_running_def active_rdy_def booted_def first_ready_def)
  then show "good (s\<lparr>timers := tm\<rparr>)" "good (s\<lparr>g_timer_head := h\<rparr>)" "good (s\<lparr>g_timer_count := c\<rparr>)"
    by (auto intro!: good_fewer [OF g] fewer_same)
  show "good (s\<lparr>u8_mem := m\<rparr>)" using goodD [OF g] by (simp add: good_def sys_inv_data inv_wait_u8_mem)
qed

lemma good_timer_lists:
  assumes "good s"
  shows "good (upd_timer t f s)" "good (timer_arm t n s)" "good (timer_list_rm t s)" "good (timer_again t s)"
  using assms by (simp_all add: upd_timer_def timer_arm_def timer_list_rm_def timer_again_def Let_def good_timer_fields)

lemma good_cmd_proc:
  assumes "good s" and "cmd \<in> cmd_num ` {TIMER_CMD_START, TIMER_CMD_STOP, TIMER_CMD_CHG, TIMER_ARG_CHG, TIMER_CMD_DEL}"
  shows "good (cmd_proc cb cmd s)"
  using assms by (auto simp: cmd_proc_def Let_def good_timer_lists)

lemma good_timer_cmd_proc:
  assumes "good s" and "cb_num cb \<in> cmd_num ` {TIMER_CMD_START, TIMER_CMD_STOP, TIMER_CMD_CHG, TIMER_ARG_CHG,
    TIMER_ARG_CHG_AUTO, TIMER_CMD_DEL}"
  shows "good (timer_cmd_proc cb s)"
proof (cases "cb_num cb = cmd_num TIMER_ARG_CHG_AUTO")
  case True
  then show ?thesis unfolding timer_cmd_proc_def Let_def by (auto intro!: good_cmd_proc assms(1))
next
  case False
  then show ?thesis using assms unfolding timer_cmd_proc_def by (auto intro!: good_cmd_proc)
qed

lemma good_buf_queue_send: "good s \<Longrightarrow> good (snd (krhino_buf_queue_send q p n s))"
  by (simp add: good_def sys_inv_buf_queue_send inv_wait_buf_queue_send)

lemma good_cb_send: "good s \<Longrightarrow> good (snd (cb_send at f s))"
  by (simp add: cb_send_def good_buf_queue_send good_timer_fields)

lemma good_timer_calls:
  assumes "good s"
  shows "good (snd (krhino_timer_start at t s))" "good (snd (krhino_timer_stop at t s))" "good (snd (krhino_timer_del at t s))"
    "good (snd (krhino_timer_change at t first round s))" "good (snd (krhino_timer_arg_change at t arg s))"
    "good (snd (krhino_timer_arg_change_auto at t arg s))"
    "good (snd (krhino_timer_create at t cb first round arg auto s))"
  using assms
  by (simp_all add: krhino_timer_start_def krhino_timer_stop_def krhino_timer_del_def krhino_timer_change_def
      krhino_timer_arg_change_def krhino_timer_arg_change_auto_def krhino_timer_create_def timer_create_def
      good_cb_send good_timer_lists Let_def)

end
