(* ===== verification/K_Boot.thy ===== *)
theory K_Boot
  imports K_SysCalls
begin

text \<open>
  From reset to the first task. The globals start as zeros (\<open>zeroed\<close>; the memory of messages and
  the other objects may hold anything). \<open>krhino_init\<close> reaches a state in which the kernel can
  be started, the application may create tasks and objects in such a state, and \<open>krhino_start\<close>
  gives the invariant of the running system.
\<close>

definition zeroed :: "kstate \<Rightarrow> bool" where
  "zeroed s \<longleftrightarrow>
     tcb s = (\<lambda>_. zero_task) \<and>
     blk_objs s = (\<lambda>_. \<lparr>blk_list = [], blk_policy = BLK_POLICY_PRI, obj_type = RHINO_OBJ_TYPE_NONE\<rparr>) \<and>
     task_bit_map (g_ready_queue s) = [0, 0] \<and> cur_list_item (g_ready_queue s) = (\<lambda>_. []) \<and>
     g_sched_lock s = 0 \<and> g_intrpt_nested_level s = 0 \<and> \<not> g_idle_task_spawned s \<and> k_errs s = [] \<and> \<not> k_fault s"

definition startable :: "kstate \<Rightarrow> bool" where
  "startable s \<longleftrightarrow> kernel_inv s \<and> inv_wait s \<and> g_sys_stat s = RHINO_STOPPED \<and> g_idle_task_spawned s \<and>
     g_sched_lock s = 0 \<and> g_intrpt_nested_level s = 0"

lemma bitmap_test_zero: "\<not> bitmap_test [0, 0] p"
  by (auto simp: bitmap_test_def less_2_cases_iff nth_Cons' )

section \<open>Initialisation\<close>

lemma task_create_stopped:
  assumes "g_sys_stat s = RHINO_STOPPED" and "stk > 0" and "pri < RHINO_CONFIG_PRI_MAX" and "g_intrpt_nested_level s = 0"
    and "pri = RHINO_IDLE_PRI \<Longrightarrow> \<not> g_idle_task_spawned s"
  shows "krhino_task_create task pri ticks stk True s =
    (RHINO_SUCCESS, add_task task (fresh_tcb pri ticks stk True K_OBJ_STATIC_ALLOC)
       (if pri = RHINO_IDLE_PRI then s\<lparr>g_idle_task_spawned := True\<rparr> else s))"
proof -
  have "zero_task\<lparr>time_total := tt, task_time_slice := tt, sched_policy := KSCHED_RR, task_state := K_RDY,
      prio := pri, b_prio := pri, stack_size := stk, mm_alloc_flag := K_OBJ_STATIC_ALLOC\<rparr> =
    zero_task\<lparr>time_total := tt, task_time_slice := tt, sched_policy := KSCHED_RR, task_state := K_RDY, suspend_count := 0,
      prio := pri, b_prio := pri, stack_size := stk, mm_alloc_flag := K_OBJ_STATIC_ALLOC\<rparr>" for tt
    by (simp add: zero_task_def)
  then show ?thesis
    using assms by (auto simp: krhino_task_create_def task_create_def fresh_tcb_def add_task_def ready_list_add_tail_def Let_def)
qed

lemma idle_created:
  fixes ticks :: tick_t and stk :: nat
  assumes z: "zeroed s"
  defines "s0 \<equiv> s\<lparr>g_sys_stat := RHINO_STOPPED, g_ready_queue := runqueue_init (g_ready_queue s), g_tick_head := [],
    g_tasks := [], g_idle_task_spawned := True\<rparr>"
  defines "s1 \<equiv> add_task idle_tid (fresh_tcb RHINO_IDLE_PRI ticks stk True K_OBJ_STATIC_ALLOC) s0"
  shows "startable s1"
proof -
  note zs = z [unfolded zeroed_def]
  let ?k = "fresh_tcb RHINO_IDLE_PRI ticks stk True K_OBJ_STATIC_ALLOC"
  have kf: "task_state ?k = K_RDY" "prio ?k = RHINO_IDLE_PRI" "b_prio ?k = RHINO_IDLE_PRI" "mutex_list ?k = []"
    "\<not> tick_head ?k" "suspend_count ?k = 0" by (simp_all add: fresh_tcb_def zero_task_def Let_def)
  have tcb1: "tcb s1 t = (if t = idle_tid then ?k else zero_task)" for t
    using zs by (simp add: s1_def s0_def add_task_def)
  have z0: "task_state zero_task = K_SEED" "\<not> tick_head zero_task" by (simp_all add: zero_task_def)
  have sel: "g_tick_head s1 = []" "g_tasks s1 = [idle_tid]" "blk_objs s1 = blk_objs s" "k_errs s1 = []" "\<not> k_fault s1"
    "g_ready_queue s1 = rq_add_tail RHINO_IDLE_PRI idle_tid (runqueue_init (g_ready_queue s))"
    using zs kf by (simp_all add: s1_def s0_def add_task_def)
  have wf: "rq_wf (runqueue_init (g_ready_queue s))"
    using zs by (auto simp: rq_wf_def runqueue_init_def bitmap_test_zero)
  have nm: "\<not> is_mutex s1 m" for m using zs by (simp add: is_mutex_def sel)
  have ip: "RHINO_IDLE_PRI < RHINO_CONFIG_PRI_MAX" by (simp add: kconfig)
  have "inv_ready s1"
    unfolding inv_ready_def sel tcb1
    using zs kf z0 rq_add_tail_wf [OF wf ip, of idle_tid]
    by (auto simp: rq_add_tail_def runqueue_init_def ready_list_init_def Let_def ip split: if_splits)
  moreover have "inv_blk s1" using zs by (auto simp: inv_blk_def sel tcb1 kf z0 kstates)
  moreover have "inv_tick s1" by (auto simp: inv_tick_def sel tcb1 kf z0 kstates)
  moreover have "inv_tasks s1" using ip by (auto simp: inv_tasks_def sel tcb1 kf z0 kstates)
  moreover have "inv_idle s1" "no_fault s1" by (simp_all add: inv_idle_def no_fault_def sel tcb1 kf)
  ultimately have k: "kinv s1" by (intro kinvI)
  have "waits_for s1 = {}" by (auto simp: waits_for_def owner_of_def tcb1 kf z0 pended_def)
  then have "pi_inv s1"
    by (auto simp: pi_inv_def mtx_struct_def nm pi_ok_def owns_ok_def tcb1 kf z0 live_def eff_def waiters_def acyclic_def)
  moreover have "inv_wait s1" using zs by (simp add: inv_wait_def sel)
  ultimately show ?thesis
    using k zs by (simp add: startable_def kernel_inv_def) (simp add: s1_def s0_def add_task_def)
qed

lemma startable_step: "startable s \<Longrightarrow> kernel_inv s' \<Longrightarrow> inv_wait s' \<Longrightarrow> ctx s' = ctx s \<Longrightarrow> startable s'"
  by (simp add: startable_def ctx_def)

lemma startable_create:
  assumes s: "startable s" and o: "\<not> is_mutex s ob" "blk_list (blk_objs s ob) = []"
  shows "startable (snd (krhino_sem_create ob count s))" "startable (snd (krhino_mutex_create ob s))"
    "startable (snd (krhino_event_create ob flags s))" "startable (snd (krhino_queue_create ob start n s))"
    "startable (snd (buf_queue_create ob buf sz mx flag type s))"
proof -
  have k: "kernel_inv s" and w: "inv_wait s" using s by (simp_all add: startable_def)
  have b: "kernel_inv (upd_blk ob f s')" "ctx (upd_blk ob f s') = ctx s'"
    if "kernel_inv s'" "blk_objs s' = blk_objs s" "blk_list (f (blk_objs s ob)) = []"
      "obj_type (f (blk_objs s ob)) \<noteq> RHINO_MUTEX_OBJ_TYPE" for f s'
    using kernel_inv_upd_blk [of s' ob f] that o by (simp_all add: is_mutex_def upd_blk_def)
  note d = kernel_inv_data [OF k]
  show "startable (snd (krhino_sem_create ob count s))"
    by (rule startable_step [OF s _ inv_wait_sem_create [OF w o(2)]])
      (simp_all add: krhino_sem_create_def sem_create_eq upd_sem_def b d)
  show "startable (snd (krhino_mutex_create ob s))"
    by (rule startable_step [OF s kernel_inv_mutex_create [OF k o] inv_wait_mutex_create [OF w o(2)]])
      (simp add: krhino_mutex_create_def mutex_create_eq upd_mutex_def upd_blk_def)
  show "startable (snd (krhino_event_create ob flags s))"
    by (rule startable_step [OF s _ inv_wait_event_create [OF w o(2)]])
      (simp_all add: krhino_event_create_def event_create_eq upd_event_def b d)
  show "startable (snd (krhino_queue_create ob start n s))"
    by (rule startable_step [OF s _ inv_wait_queue_create [OF w o(2)]])
      (simp_all add: krhino_queue_create_def queue_create_eq upd_queue_def b d k)
  show "startable (snd (buf_queue_create ob buf sz mx flag type s))"
    by (rule startable_step [OF s _ buf_queue_create_ok(2) [OF o(2) w]])
      (simp_all add: buf_queue_create_eq upd_bq_def b d k)
qed

lemma startable_task_create:
  assumes s: "startable s" and t: "\<not> live (tcb s task)" and p: "pri < RHINO_IDLE_PRI" "stk > 0"
  shows "startable (snd (krhino_task_create task pri ticks stk True s))"
proof -
  note d = s [unfolded startable_def]
  have pm: "pri < RHINO_CONFIG_PRI_MAX" using p by (simp add: kconfig)
  have "krhino_task_create task pri ticks stk True s =
      (RHINO_SUCCESS, add_task task (fresh_tcb pri ticks stk True K_OBJ_STATIC_ALLOC) s)"
    using d p pm by (subst task_create_stopped) auto
  moreover have "startable (add_task task (fresh_tcb pri ticks stk True K_OBJ_STATIC_ALLOC) s)"
    by (rule startable_step [OF s kernel_inv_add_task [OF _ t new_task_fresh [OF pm]] inv_wait_add_task [OF _ _ t]])
      (use d in \<open>simp_all add: kernel_invD add_task_def ctx_def\<close>)
  ultimately show ?thesis by simp
qed

lemma startable_init:
  assumes z: "zeroed s"
  shows "startable (snd (krhino_init buf s))"
proof -
  let ?z = "s\<lparr>g_sys_stat := RHINO_STOPPED, g_ready_queue := runqueue_init (g_ready_queue s), g_tick_head := [], g_tasks := []\<rparr>"
  define s1 where "s1 = snd (krhino_task_create idle_tid RHINO_IDLE_PRI 0 RHINO_CONFIG_IDLE_TASK_STACK_SIZE True ?z)"
  have e1: "s1 = add_task idle_tid (fresh_tcb RHINO_IDLE_PRI 0 RHINO_CONFIG_IDLE_TASK_STACK_SIZE True K_OBJ_STATIC_ALLOC)
      (?z\<lparr>g_idle_task_spawned := True\<rparr>)"
    unfolding s1_def using z
    by (subst task_create_stopped) (simp_all add: zeroed_def kconfig RHINO_CONFIG_IDLE_TASK_STACK_SIZE_def)
  have s1: "startable s1" unfolding e1 using idle_created [OF z] by simp
  have z1: "\<not> live (tcb s1 g_timer_task)" "blk_objs s1 = blk_objs s"
    using z by (simp_all add: e1 add_task_def zeroed_def g_timer_task_def idle_tid_def live_def zero_task_def)
  let ?h = "s1\<lparr>g_timer_head := []\<rparr>"
  have h: "startable ?h"
    by (rule startable_step [OF s1 kernel_inv_cong inv_wait_shrink])
      (use s1 in \<open>auto simp: startable_def same_core_def is_mutex_def objs_def ctx_def\<close>)
  define s2 where "s2 = snd (krhino_fix_buf_queue_create g_timer_queue buf CB_SIZE RHINO_CONFIG_TIMER_MSG_NUM ?h)"
  have s2: "startable s2"
    unfolding s2_def krhino_fix_buf_queue_create_def
    by (rule startable_create(5) [OF h]) (use z1 z in \<open>simp_all add: zeroed_def is_mutex_def\<close>)
  have "tcb s2 = tcb s1"
    by (simp add: s2_def krhino_fix_buf_queue_create_def buf_queue_create_eq upd_blk_def upd_bq_def)
  then have "startable (snd (krhino_task_create g_timer_task RHINO_CONFIG_TIMER_TASK_PRI 0
      RHINO_CONFIG_TIMER_TASK_STACK_SIZE True s2))"
    by (intro startable_task_create [OF s2])
      (use z1 in \<open>simp_all add: RHINO_CONFIG_TIMER_TASK_PRI_def RHINO_CONFIG_TIMER_TASK_STACK_SIZE_def kconfig\<close>)
  then show ?thesis
    by (simp add: krhino_init_def ktimer_init_def tick_list_init_def kobj_list_init_def Let_def s2_def s1_def)
qed

section \<open>Start\<close>

lemma good_start:
  assumes s: "startable s"
  shows "good (snd (krhino_start s))" "fst (krhino_start s) = Blocked"
proof -
  note d = s [unfolded startable_def]
  have k: "kinv s" using d kernel_invD(1) by blast
  define s1 where "s1 = s\<lparr>g_preferred_ready_task := first_ready s, g_active_task := first_ready s\<rparr>"
  have e: "krhino_start s = (Blocked, s1\<lparr>g_sys_stat := RHINO_RUNNING\<rparr>)"
    using d first_ready_props(1) [OF k]
    by (simp add: krhino_start_def preferred_cpu_ready_task_get_def first_ready_def s1_def Let_def split: list.split)
  have k1: "kernel_inv s1" unfolding s1_def by (rule kernel_inv_active) (use d in simp)
  have "kernel_inv (s1\<lparr>g_sys_stat := RHINO_RUNNING\<rparr>)"
    by (rule kernel_inv_cong [OF k1]) (simp_all add: same_core_def is_mutex_def)
  moreover have "inv_running (s1\<lparr>g_sys_stat := RHINO_RUNNING\<rparr>)" "booted (s1\<lparr>g_sys_stat := RHINO_RUNNING\<rparr>)"
    using d by (simp_all add: s1_def inv_running_def booted_def first_ready_def)
  ultimately have sy: "sys_inv (s1\<lparr>g_sys_stat := RHINO_RUNNING\<rparr>)" by (simp add: sys_inv_def)
  moreover have "inv_wait (s1\<lparr>g_sys_stat := RHINO_RUNNING\<rparr>)"
    by (rule inv_wait_shrink [of s]) (use d in \<open>simp_all add: s1_def objs_def\<close>)
  ultimately show "good (snd (krhino_start s))" "fst (krhino_start s) = Blocked" by (simp_all add: e good_def)
qed

end
