(* ===== verification/K_Step.thy ===== *)
theory K_Step
  imports K_Boot
begin

text \<open>
  The kernel as a transition system. A step is one call of a task or of an interrupt handler, the rest of a call whose
  task runs again after it blocked, the entry or exit of an interrupt, or the tick. Each is
  one critical section of the C code, so the interleavings of tasks and interrupts are the
  sequences of steps. \<open>allowed\<close> is what the kernel leaves to its callers: an object or a control block is not
  created twice, the idle task does not block, a timeout is \<open>RHINO_WAIT_FOREVER\<close> or below \<open>2^63\<close>, a call on a task names
  a task that exists, locking a mutex closes no circle of waiting tasks.
\<close>

datatype (plugins only:) kcall =
    Sched_disable | Sched_enable | Intrpt_enter | Intrpt_exit | Tick
  | Task_create tid nat tick_t nat bool | Task_sleep tick_t | Task_sleep_end | Task_yield | Task_suspend "tid option"
  | Task_resume tid | Task_pri_change tid nat | Task_del "tid option" | Time_slice_set tid u32
  | Policy_set tid "sched_policy_t option"
  | Sem_create oid u32 | Sem_del oid | Sem_give oid | Sem_give_all oid | Sem_take oid tick_t | Sem_take_end
  | Sem_count_set oid u32
  | Task_sem_create "tid option" oid u32 | Task_sem_del tid | Task_sem_give tid | Task_sem_take tick_t
  | Task_sem_count_set tid u32
  | Mutex_create oid | Mutex_del "oid option" | Mutex_lock oid tick_t | Mutex_lock_end | Mutex_unlock oid
  | Event_create oid u32 | Event_del oid | Event_get oid u32 u8 nat tick_t | Event_get_end | Event_set oid u32 u8
  | Queue_create oid nat nat | Queue_del oid | Queue_send oid u32 | Queue_send_all oid u32 | Queue_recv oid tick_t nat
  | Queue_recv_end nat | Queue_flush oid
  | Buf_queue_create oid nat nat nat | Fix_buf_queue_create oid nat nat nat | Buf_queue_del oid
  | Buf_queue_send oid u32 nat | Buf_queue_recv oid tick_t u32 nat | Buf_queue_recv_end nat | Buf_queue_flush oid
  | Timer_create nat oid u32 tick_t tick_t u32 bool | Timer_start nat oid | Timer_stop nat oid | Timer_del nat oid
  | Timer_change nat oid tick_t tick_t | Timer_arg_change nat oid u32 | Timer_arg_change_auto nat oid u32
  | Timer_cmd k_timer_queue_cb

fun exec :: "kcall \<Rightarrow> kstate \<Rightarrow> kstate" where
  "exec Sched_disable s = snd (krhino_sched_disable s)"
| "exec Sched_enable s = snd (krhino_sched_enable s)"
| "exec Intrpt_enter s = snd (krhino_intrpt_enter s)"
| "exec Intrpt_exit s = krhino_intrpt_exit s"
| "exec Tick s = krhino_tick_proc s"
| "exec (Task_create t pri ticks stk run) s = snd (krhino_task_create t pri ticks stk run s)"
| "exec (Task_sleep ticks) s = snd (krhino_task_sleep ticks s)"
| "exec Task_sleep_end s = snd (krhino_task_sleep_end s)"
| "exec Task_yield s = snd (krhino_task_yield s)"
| "exec (Task_suspend t) s = snd (krhino_task_suspend t s)"
| "exec (Task_resume t) s = snd (krhino_task_resume t s)"
| "exec (Task_pri_change t p) s = snd (snd (krhino_task_pri_change t p s))"
| "exec (Task_del t) s = snd (krhino_task_del t s)"
| "exec (Time_slice_set t n) s = snd (krhino_task_time_slice_set t n s)"
| "exec (Policy_set t p) s = snd (krhino_sched_policy_set t p s)"
| "exec (Sem_create x n) s = snd (krhino_sem_create x n s)"
| "exec (Sem_del x) s = snd (krhino_sem_del x s)"
| "exec (Sem_give x) s = snd (krhino_sem_give x s)"
| "exec (Sem_give_all x) s = snd (krhino_sem_give_all x s)"
| "exec (Sem_take x ticks) s = snd (krhino_sem_take x ticks s)"
| "exec Sem_take_end s = snd (krhino_sem_take_end s)"
| "exec (Sem_count_set x n) s = snd (krhino_sem_count_set x n s)"
| "exec (Task_sem_create t x n) s = snd (krhino_task_sem_create t x n s)"
| "exec (Task_sem_del t) s = snd (krhino_task_sem_del t s)"
| "exec (Task_sem_give t) s = snd (krhino_task_sem_give t s)"
| "exec (Task_sem_take ticks) s = snd (krhino_task_sem_take ticks s)"
| "exec (Task_sem_count_set t n) s = snd (krhino_task_sem_count_set t n s)"
| "exec (Mutex_create m) s = snd (krhino_mutex_create m s)"
| "exec (Mutex_del m) s = snd (krhino_mutex_del m s)"
| "exec (Mutex_lock m ticks) s = snd (krhino_mutex_lock m ticks s)"
| "exec Mutex_lock_end s = snd (krhino_mutex_lock_end s)"
| "exec (Mutex_unlock m) s = snd (krhino_mutex_unlock m s)"
| "exec (Event_create e f) s = snd (krhino_event_create e f s)"
| "exec (Event_del e) s = snd (krhino_event_del e s)"
| "exec (Event_get e f opt a ticks) s = snd (krhino_event_get e f opt a ticks s)"
| "exec Event_get_end s = snd (krhino_event_get_end s)"
| "exec (Event_set e f opt) s = snd (krhino_event_set e f opt s)"
| "exec (Queue_create q start n) s = snd (krhino_queue_create q start n s)"
| "exec (Queue_del q) s = snd (krhino_queue_del q s)"
| "exec (Queue_send q x) s = snd (krhino_queue_back_send q x s)"
| "exec (Queue_send_all q x) s = snd (krhino_queue_all_send q x s)"
| "exec (Queue_recv q ticks p) s = snd (krhino_queue_recv q ticks p s)"
| "exec (Queue_recv_end p) s = snd (krhino_queue_recv_end p s)"
| "exec (Queue_flush q) s = snd (krhino_queue_flush q s)"
| "exec (Buf_queue_create q buf sz mx) s = snd (krhino_buf_queue_create q buf sz mx s)"
| "exec (Fix_buf_queue_create q buf sz n) s = snd (krhino_fix_buf_queue_create q buf sz n s)"
| "exec (Buf_queue_del q) s = snd (krhino_buf_queue_del q s)"
| "exec (Buf_queue_send q p n) s = snd (krhino_buf_queue_send q p n s)"
| "exec (Buf_queue_recv q ticks p z) s = snd (krhino_buf_queue_recv q ticks p z s)"
| "exec (Buf_queue_recv_end z) s = snd (krhino_buf_queue_recv_end z s)"
| "exec (Buf_queue_flush q) s = snd (krhino_buf_queue_flush q s)"
| "exec (Timer_create at t cb first round arg run) s = snd (krhino_timer_create at t cb first round arg run s)"
| "exec (Timer_start at t) s = snd (krhino_timer_start at t s)"
| "exec (Timer_stop at t) s = snd (krhino_timer_stop at t s)"
| "exec (Timer_del at t) s = snd (krhino_timer_del at t s)"
| "exec (Timer_change at t first round) s = snd (krhino_timer_change at t first round s)"
| "exec (Timer_arg_change at t arg) s = snd (krhino_timer_arg_change at t arg s)"
| "exec (Timer_arg_change_auto at t arg) s = snd (krhino_timer_arg_change_auto at t arg s)"
| "exec (Timer_cmd cb) s = timer_cmd_proc cb s"

definition unused_obj :: "oid \<Rightarrow> kstate \<Rightarrow> bool" where
  "unused_obj ob s \<longleftrightarrow> \<not> is_mutex s ob \<and> blk_list (blk_objs s ob) = []"

definition may_wait :: "tick_t \<Rightarrow> kstate \<Rightarrow> bool" where
  "may_wait ticks s \<longleftrightarrow> g_active_task s \<noteq> idle_tid \<and> (ticks = RHINO_WAIT_FOREVER \<or> ticks < 2 ^ 63)"

definition woke :: "kstate \<Rightarrow> bool" where
  "woke s \<longleftrightarrow> blk_state (tcb s (g_active_task s)) \<noteq> BLK_INVALID"

definition bq_region :: "oid \<Rightarrow> kstate \<Rightarrow> bool" where
  "bq_region q s \<longleftrightarrow> rb_buf (bq_ringbuf (buf_queues s q)) < rb_end (bq_ringbuf (buf_queues s q))"

definition timer_cmds :: "u8 set" where
  "timer_cmds = cmd_num ` {TIMER_CMD_START, TIMER_CMD_STOP, TIMER_CMD_CHG, TIMER_ARG_CHG, TIMER_ARG_CHG_AUTO, TIMER_CMD_DEL}"

fun allowed :: "kcall \<Rightarrow> kstate \<Rightarrow> bool" where
  "allowed Intrpt_enter s = (g_intrpt_nested_level s < RHINO_CONFIG_INTRPT_MAX_NESTED_LEVEL)"
| "allowed Intrpt_exit s = (g_intrpt_nested_level s > 0)"
| "allowed Tick s = (g_intrpt_nested_level s > 0)"
| "allowed (Task_create t pri ticks stk run) s = (\<not> live (tcb s t))"
| "allowed (Task_sleep ticks) s = (g_active_task s \<noteq> idle_tid \<and> ticks < 2 ^ 63)"
| "allowed Task_sleep_end s = woke s"
| "allowed Task_yield s = (g_intrpt_nested_level s = 0)"
| "allowed (Task_pri_change t p) s = (task_state (tcb s t) \<noteq> K_SEED)"
| "allowed (Task_del t) s = live (tcb s (case t of None \<Rightarrow> g_active_task s | Some t \<Rightarrow> t))"
| "allowed (Sem_create x n) s = unused_obj x s"
| "allowed (Sem_take x ticks) s = may_wait ticks s"
| "allowed Sem_take_end s = woke s"
| "allowed (Task_sem_create t x n) s = unused_obj x s"
| "allowed (Task_sem_del t) s = (task_sem_obj (tcb s t) \<noteq> None)"
| "allowed (Task_sem_give t) s = (task_sem_obj (tcb s t) \<noteq> None)"
| "allowed (Task_sem_take ticks) s = (may_wait ticks s \<and> task_sem_obj (tcb s (g_active_task s)) \<noteq> None)"
| "allowed (Task_sem_count_set t n) s = (task_sem_obj (tcb s t) \<noteq> None)"
| "allowed (Mutex_create m) s = unused_obj m s"
| "allowed (Mutex_lock m ticks) s = (may_wait ticks s \<and> lock_safe m s)"
| "allowed Mutex_lock_end s = woke s"
| "allowed (Event_create e f) s = unused_obj e s"
| "allowed (Event_get e f opt a ticks) s = may_wait ticks s"
| "allowed Event_get_end s = woke s"
| "allowed (Queue_create q start n) s = unused_obj q s"
| "allowed (Queue_recv q ticks p) s = may_wait ticks s"
| "allowed (Queue_recv_end p) s = woke s"
| "allowed (Buf_queue_create q buf sz mx) s = unused_obj q s"
| "allowed (Fix_buf_queue_create q buf sz n) s = unused_obj q s"
| "allowed (Buf_queue_recv q ticks p z) s = may_wait ticks s"
| "allowed (Buf_queue_recv_end z) s = woke s"
| "allowed (Buf_queue_flush q) s = bq_region q s"
| "allowed (Timer_cmd cb) s = (cb_num cb \<in> timer_cmds)"
| "allowed _ s = True"

inductive startable_state :: "kstate \<Rightarrow> bool" where
  init: "zeroed s \<Longrightarrow> startable_state (snd (krhino_init buf s))"
| task: "startable_state s \<Longrightarrow> \<not> live (tcb s t) \<Longrightarrow> pri < RHINO_IDLE_PRI \<Longrightarrow> stk > 0 \<Longrightarrow>
    startable_state (snd (krhino_task_create t pri ticks stk True s))"
| sem: "startable_state s \<Longrightarrow> unused_obj x s \<Longrightarrow> startable_state (snd (krhino_sem_create x n s))"
| mutex: "startable_state s \<Longrightarrow> unused_obj x s \<Longrightarrow> startable_state (snd (krhino_mutex_create x s))"
| event: "startable_state s \<Longrightarrow> unused_obj x s \<Longrightarrow> startable_state (snd (krhino_event_create x f s))"
| queue: "startable_state s \<Longrightarrow> unused_obj x s \<Longrightarrow> startable_state (snd (krhino_queue_create x start n s))"
| buf_queue: "startable_state s \<Longrightarrow> unused_obj x s \<Longrightarrow> startable_state (snd (krhino_buf_queue_create x buf sz mx s))"

inductive reachable :: "kstate \<Rightarrow> bool" where
  start: "startable_state s \<Longrightarrow> reachable (snd (krhino_start s))"
| step: "reachable s \<Longrightarrow> allowed c s \<Longrightarrow> reachable (exec c s)"

lemma startable_state_startable: "startable_state s \<Longrightarrow> startable s"
  by (induction rule: startable_state.induct)
    (auto simp: startable_init startable_task_create startable_create unused_obj_def krhino_buf_queue_create_def)

section \<open>Every step keeps the invariant\<close>

lemma good_tasks:
  assumes g: "good s"
  shows "ticks < 2 ^ 63 \<Longrightarrow> g_active_task s \<noteq> idle_tid \<Longrightarrow> good (snd (krhino_task_sleep ticks s))"
    "g_intrpt_nested_level s = 0 \<Longrightarrow> good (snd (krhino_task_yield s))"
    "good (snd (krhino_task_resume t s))"
    "task_state (tcb s t) \<noteq> K_SEED \<Longrightarrow> good (snd (snd (krhino_task_pri_change t p s)))"
    "live (tcb s (case d of None \<Rightarrow> g_active_task s | Some t \<Rightarrow> t)) \<Longrightarrow> good (snd (krhino_task_del d s))"
  using goodD(1) [OF g]
  by (simp_all add: good_fewer [OF g _ fewer_task_sleep] good_fewer [OF g _ fewer_task_yield]
      good_fewer [OF g _ fewer_task_resume] good_fewer [OF g _ fewer_task_pri_change] good_fewer [OF g _ fewer_task_del]
      sys_inv_task_sleep sys_inv_task_yield sys_inv_task_pri_change sys_inv_task_del
      sys_inv_task_resume [folded krhino_task_resume_def])

lemma good_create:
  assumes g: "good s" and o: "unused_obj x s"
  shows "good (snd (krhino_sem_create x n s))" "good (snd (krhino_mutex_create x s))" "good (snd (krhino_event_create x f s))"
    "good (snd (krhino_queue_create x start n' s))" "good (snd (krhino_buf_queue_create x buf sz mx s))"
    "good (snd (krhino_fix_buf_queue_create x buf sz num s))" "good (snd (krhino_task_sem_create t x n s))"
  using goodD [OF g] o good_task_sem_create [OF g, of x t n]
  by (simp_all add: good_def unused_obj_def sys_inv_sem_create inv_wait_sem_create sys_inv_mutex_create inv_wait_mutex_create
      sys_inv_event_create inv_wait_event_create sys_inv_queue_create inv_wait_queue_create buf_queue_create_ok
      krhino_buf_queue_create_def krhino_fix_buf_queue_create_def)

lemma good_wait:
  assumes g: "good s" and w: "may_wait ticks s"
  shows "good (snd (krhino_sem_take x ticks s))" "good (snd (krhino_event_get x f opt a ticks s))"
    "good (snd (krhino_queue_recv x ticks q s))" "good (snd (krhino_buf_queue_recv x ticks p z s))"
    "lock_safe x s \<Longrightarrow> good (snd (krhino_mutex_lock x ticks s))"
    "task_sem_obj (tcb s (g_active_task s)) \<noteq> None \<Longrightarrow> good (snd (krhino_task_sem_take ticks s))"
  using goodD [OF g] w good_sem_take [OF g] good_task_sem_take [OF g] mutex_lock_ok [of s ticks x]
  by (simp_all add: good_def may_wait_def sys_inv_event_get inv_wait_event_get sys_inv_queue_recv inv_wait_queue_recv
      sys_inv_buf_queue_recv inv_wait_buf_queue_recv)

lemma good_give:
  assumes g: "good s"
  shows "good (snd (krhino_mutex_unlock x s))" "good (snd (krhino_mutex_del mx s))" "good (snd (krhino_event_del x s))"
    "good (snd (krhino_event_set x f opt s))" "good (snd (krhino_queue_del x s))" "good (snd (krhino_queue_back_send x v s))"
    "good (snd (krhino_queue_all_send x v s))" "good (snd (krhino_queue_flush x s))" "good (snd (krhino_buf_queue_del x s))"
    "bq_region x s \<Longrightarrow> good (snd (krhino_buf_queue_flush x s))"
  using goodD [OF g] mutex_unlock_ok [of s x] mutex_del_ok [of s mx]
  by (simp_all add: good_def event_del_ok sys_inv_event_set inv_wait_event_set queue_del_ok sys_inv_msg_send inv_wait_msg_send
      krhino_queue_back_send_def krhino_queue_all_send_def queue_flush_ok buf_queue_del_ok buf_queue_flush_ok bq_region_def)

lemma good_exec: "good s \<Longrightarrow> allowed c s \<Longrightarrow> good (exec c s)"
  by (cases c)
    (simp_all add: good_sched_disable good_sched_enable good_intrpt_enter good_intrpt_exit good_tick_proc good_task_create
      good_tasks good_task_suspend good_time_slice_set good_policy_set good_end woke_def good_create good_sem good_wait
      good_task_sem good_give good_buf_queue_send good_timer_calls good_timer_cmd_proc timer_cmds_def)

lemma reachable_good: "reachable s \<Longrightarrow> good s"
  by (induction rule: reachable.induct) (auto intro: good_start startable_state_startable good_exec)

end
