(* ===== verification/K_Examples.thy ===== *)
theory K_Examples
  imports K_Step
begin

text \<open>
  Concrete states, reached from reset by a few calls; the theorems are applied to them. The state after reset is \<open>zero_state\<close>.
  Task 1 is the timer task, object 1 its queue. In \<open>ex_sem\<close> task 1 runs and semaphore 10 has the value
  0; in \<open>ex_wait\<close> task 1 waits for it and the idle task runs. In \<open>ex_sleep\<close> task 1 sleeps for 5 ticks. In \<open>ex_ev\<close> task 1 waits for both
  flags 1 and 2 of the event group 30. In \<open>ex_low\<close> task 1
  waits for a command and task 3 of priority 20 holds mutex 20; in \<open>ex_two\<close> task 2 of
  priority 10 has preempted it, and in \<open>ex_pi\<close> task 2 waits for the mutex.
\<close>

definition zero_state :: kstate where
  "zero_state = \<lparr>g_sys_stat = RHINO_SUCCESS, g_idle_task_spawned = False,
     g_ready_queue = \<lparr>cur_list_item = (\<lambda>_. []), task_bit_map = [0, 0], highest_pri = 0\<rparr>,
     g_sched_lock = 0, g_intrpt_nested_level = 0, g_preferred_ready_task = 0, g_active_task = 0, g_tick_count = 0,
     g_tick_head = [], tcb = (\<lambda>_. zero_task), g_tasks = [],
     blk_objs = (\<lambda>_. \<lparr>blk_list = [], blk_policy = BLK_POLICY_PRI, obj_type = RHINO_OBJ_TYPE_NONE\<rparr>),
     sems = (\<lambda>_. \<lparr>sem_count = 0, peak_count = 0, sem_alloc_flag = K_OBJ_NO_ALLOC\<rparr>),
     mutexes = (\<lambda>_. \<lparr>mutex_task = None, owner_nested = 0, mutex_alloc_flag = K_OBJ_NO_ALLOC\<rparr>),
     events = (\<lambda>_. \<lparr>event_flags = 0, event_alloc_flag = K_OBJ_NO_ALLOC\<rparr>),
     queues = (\<lambda>_. \<lparr>ringbuf = \<lparr>rb_buf = 0, rb_end = 0, rb_head = 0, rb_tail = 0, freesize = 0, rb_type = 0, blk_size = 0\<rparr>,
       queue_start = 0, q_size = 0, q_cur_num = 0, q_peak_num = 0, queue_alloc_flag = K_OBJ_NO_ALLOC\<rparr>),
     buf_queues = (\<lambda>_. \<lparr>bq_buf = 0,
       bq_ringbuf = \<lparr>rb_buf = 0, rb_end = 0, rb_head = 0, rb_tail = 0, freesize = 0, rb_type = 0, blk_size = 0\<rparr>,
       max_msg_size = 0, bq_cur_num = 0, bq_peak_num = 0, min_free_buf_size = 0, bq_alloc_flag = K_OBJ_NO_ALLOC\<rparr>),
     g_timer_head = [], g_timer_count = 0,
     timers = (\<lambda>_. \<lparr>to_head = False, timer_cb = 0, timer_cb_arg = 0, timer_match = 0, timer_remain = 0, init_count = 0,
       round_ticks = 0, timer_priv = 0, timer_obj_type = RHINO_OBJ_TYPE_NONE, timer_state = TIMER_DEACTIVE,
       timer_alloc_flag = K_OBJ_NO_ALLOC\<rparr>),
     g_workqueue_list_head = [],
     workqueues = (\<lambda>_. \<lparr>work_list = [], work_current = None, worker = 0, wq_sem = 0\<rparr>),
     works = (\<lambda>_. \<lparr>work_handle = 0, work_arg = 0, work_dly = 0, work_timer = None, work_wq = None, work_exit = False\<rparr>),
     u8_mem = (\<lambda>_. 0), u32_mem = (\<lambda>_. 0), k_errs = [], k_fault = False\<rparr>"

definition boot :: kstate where
  "boot = snd (krhino_start (snd (krhino_init 4096 zero_state)))"

definition ex_sem :: kstate where "ex_sem = snd (krhino_sem_create 10 0 boot)"
definition ex_wait :: kstate where "ex_wait = snd (krhino_sem_take 10 RHINO_WAIT_FOREVER ex_sem)"
definition ex_idle :: kstate where "ex_idle = snd (krhino_buf_queue_recv g_timer_queue RHINO_WAIT_FOREVER 0 0 boot)"
definition ex_sleep :: kstate where "ex_sleep = snd (krhino_task_sleep 5 boot)"
definition ex_ev :: kstate where
  "ex_ev = snd (krhino_event_get 30 3 RHINO_AND 500 RHINO_WAIT_FOREVER (snd (krhino_event_create 30 0 boot)))"
definition ex_low0 :: kstate where
  "ex_low0 = snd (krhino_mutex_create 20 (snd (krhino_task_create 3 20 0 100 True ex_idle)))"
definition ex_low :: kstate where "ex_low = snd (krhino_mutex_lock 20 RHINO_WAIT_FOREVER ex_low0)"
definition ex_two :: kstate where "ex_two = snd (krhino_task_create 2 10 0 100 True ex_low)"
definition ex_pi :: kstate where "ex_pi = snd (krhino_mutex_lock 20 RHINO_WAIT_FOREVER ex_two)"

lemmas boot_evals = krhino_start_def krhino_init_def ktimer_init_def kobj_list_init_def tick_list_init_def Let_def
  krhino_fix_buf_queue_create_def buf_queue_create_eq upd_bq_def upd_blk_def krhino_task_create_def task_create_def
  ready_list_add_tail_def rq_add_tail_def ready_list_init_def runqueue_init_def preferred_cpu_ready_task_get_def
  krhino_bitmap_set_def BITMAP_WORD_def BITMAP_MASK_def kconfig idle_tid_def g_timer_task_def g_timer_queue_def CB_SIZE_def
  RHINO_CONFIG_TIMER_MSG_NUM_def RHINO_CONFIG_TIMER_TASK_PRI_def RHINO_CONFIG_TIMER_TASK_STACK_SIZE_def
  RHINO_CONFIG_IDLE_TASK_STACK_SIZE_def ringbuf_init_def ringbuf_reset_def RINGBUF_TYPE_FIX_def

lemma fresh_tcb_sel [simp]:
  "task_state (fresh_tcb p ticks stk True flag) = K_RDY" "prio (fresh_tcb p ticks stk run flag) = p"
  "b_prio (fresh_tcb p ticks stk run flag) = p" "mutex_list (fresh_tcb p ticks stk run flag) = []"
  "mm_alloc_flag (fresh_tcb p ticks stk run flag) = flag" "blk_obj (fresh_tcb p ticks stk run flag) = None"
  "\<not> tick_head (fresh_tcb p ticks stk run flag)" "blk_state (fresh_tcb p ticks stk run flag) = BLK_FINISH"
  by (simp_all add: fresh_tcb_def zero_task_def Let_def)

lemma zero_task_sel [simp]: "task_state zero_task = K_SEED" "\<not> tick_head zero_task"
  by (simp_all add: zero_task_def)

lemma zero_state_sel [simp]:
  "g_sched_lock zero_state = 0" "g_intrpt_nested_level zero_state = 0" "g_tick_count zero_state = 0" "g_tick_head zero_state = []"
  "blk_objs zero_state = (\<lambda>_. \<lparr>blk_list = [], blk_policy = BLK_POLICY_PRI, obj_type = RHINO_OBJ_TYPE_NONE\<rparr>)"
  "sems zero_state = (\<lambda>_. \<lparr>sem_count = 0, peak_count = 0, sem_alloc_flag = K_OBJ_NO_ALLOC\<rparr>)"
  "mutexes zero_state = (\<lambda>_. \<lparr>mutex_task = None, owner_nested = 0, mutex_alloc_flag = K_OBJ_NO_ALLOC\<rparr>)"
  "events zero_state = (\<lambda>_. \<lparr>event_flags = 0, event_alloc_flag = K_OBJ_NO_ALLOC\<rparr>)"
  "u8_mem zero_state = (\<lambda>_. 0)" "k_errs zero_state = []" "\<not> k_fault zero_state"
  by (simp_all add: zero_state_def)

lemma boot_eq:
  "boot = zero_state\<lparr>
     g_sys_stat := RHINO_RUNNING,
     g_idle_task_spawned := True,
     g_ready_queue := \<lparr>cur_list_item = (\<lambda>_. [])(61 := [0], 5 := [1]), task_bit_map = [0x4000000, 4], highest_pri = 5\<rparr>,
     g_preferred_ready_task := 1,
     g_active_task := 1,
     tcb := (\<lambda>_. zero_task)(0 := fresh_tcb 61 0 256 True K_OBJ_STATIC_ALLOC, 1 := fresh_tcb 5 0 200 True K_OBJ_STATIC_ALLOC),
     g_tasks := [0, 1],
     blk_objs := (blk_objs zero_state)(1 := \<lparr>blk_list = [], blk_policy = BLK_POLICY_PRI, obj_type = RHINO_BUF_QUEUE_OBJ_TYPE\<rparr>),
     buf_queues := (buf_queues zero_state)(1 := \<lparr>bq_buf = 4096,
       bq_ringbuf = \<lparr>rb_buf = 4096, rb_end = 4576, rb_head = 4096, rb_tail = 4096, freesize = 480, rb_type = 0, blk_size = 24\<rparr>,
       max_msg_size = 24, bq_cur_num = 0, bq_peak_num = 0, min_free_buf_size = 480, bq_alloc_flag = K_OBJ_STATIC_ALLOC\<rparr>)\<rparr>"
  by (simp add: boot_def boot_evals zero_state_def fresh_tcb_def zero_task_def, simp add: fun_eq_iff)

lemma boot_sel [simp]:
  "g_sys_stat boot = RHINO_RUNNING" "g_idle_task_spawned boot = True"
  "g_ready_queue boot = \<lparr>cur_list_item = (\<lambda>_. [])(61 := [0], 5 := [1]), task_bit_map = [0x4000000, 4], highest_pri = 5\<rparr>"
  "g_sched_lock boot = g_sched_lock zero_state" "g_intrpt_nested_level boot = g_intrpt_nested_level zero_state"
  "g_preferred_ready_task boot = 1" "g_active_task boot = 1" "g_tick_count boot = g_tick_count zero_state"
  "g_tick_head boot = g_tick_head zero_state"
  "tcb boot = (\<lambda>_. zero_task)(0 := fresh_tcb 61 0 256 True K_OBJ_STATIC_ALLOC, 1 := fresh_tcb 5 0 200 True K_OBJ_STATIC_ALLOC)"
  "g_tasks boot = [0, 1]"
  "blk_objs boot = (blk_objs zero_state)(1 := \<lparr>blk_list = [], blk_policy = BLK_POLICY_PRI, obj_type = RHINO_BUF_QUEUE_OBJ_TYPE\<rparr>)"
  "sems boot = sems zero_state" "mutexes boot = mutexes zero_state" "events boot = events zero_state"
  "buf_queues boot = (buf_queues zero_state)(1 := \<lparr>bq_buf = 4096,
       bq_ringbuf = \<lparr>rb_buf = 4096, rb_end = 4576, rb_head = 4096, rb_tail = 4096, freesize = 480, rb_type = 0, blk_size = 24\<rparr>,
       max_msg_size = 24, bq_cur_num = 0, bq_peak_num = 0, min_free_buf_size = 480, bq_alloc_flag = K_OBJ_STATIC_ALLOC\<rparr>)"
  "u8_mem boot = u8_mem zero_state" "k_errs boot = k_errs zero_state" "k_fault boot = k_fault zero_state"
  by (simp_all add: boot_eq)

lemma zeroed_zero_state: "zeroed zero_state"
  by (simp add: zeroed_def zero_state_def)

lemma reachable_boot: "reachable boot"
  unfolding boot_def by (intro reachable.start startable_state.init zeroed_zero_state)

lemma reachable_call: "reachable s \<Longrightarrow> allowed c s \<Longrightarrow> exec c s = s' \<Longrightarrow> reachable s'"
  using reachable.step by blast

lemmas sched_evals = core_sched_def preferred_cpu_ready_task_get_def cpu_task_switch_def ready_list_rm_def rq_rm_def
  ready_list_add_def rq_add_tail_def rq_add_head_def ready_list_init_def ready_list_add_tail_def ready_list_add_head_def
  krhino_bitmap_clear_def krhino_bitmap_set_def BITMAP_WORD_def BITMAP_MASK_def find_first_bit_word_def ffb_step_def
  pend_to_blk_obj_def kupd Let_def RHINO_WAIT_FOREVER_def RHINO_NO_WAIT_def

lemmas create_evals = krhino_task_create_def task_create_def kconfig fresh_tcb_def zero_task_def

section \<open>Waiting for a semaphore\<close>

lemma ex_sem_eq:
  "ex_sem = boot\<lparr>
     blk_objs := (blk_objs boot)(10 := \<lparr>blk_list = [], blk_policy = BLK_POLICY_PRI, obj_type = RHINO_SEM_OBJ_TYPE\<rparr>),
     sems := (sems boot)(10 := \<lparr>sem_count = 0, peak_count = 0, sem_alloc_flag = K_OBJ_STATIC_ALLOC\<rparr>)\<rparr>"
  by (simp add: ex_sem_def krhino_sem_create_def sem_create_eq upd_sem_def upd_blk_def)

lemma ex_sem_sel [simp]:
  "g_sys_stat ex_sem = g_sys_stat boot" "g_idle_task_spawned ex_sem = g_idle_task_spawned boot"
  "g_ready_queue ex_sem = g_ready_queue boot" "g_sched_lock ex_sem = g_sched_lock boot"
  "g_intrpt_nested_level ex_sem = g_intrpt_nested_level boot"
  "g_preferred_ready_task ex_sem = g_preferred_ready_task boot" "g_active_task ex_sem = g_active_task boot"
  "g_tick_count ex_sem = g_tick_count boot" "g_tick_head ex_sem = g_tick_head boot" "tcb ex_sem = tcb boot"
  "g_tasks ex_sem = g_tasks boot"
  "blk_objs ex_sem = (blk_objs boot)(10 := \<lparr>blk_list = [], blk_policy = BLK_POLICY_PRI, obj_type = RHINO_SEM_OBJ_TYPE\<rparr>)"
  "sems ex_sem = (sems boot)(10 := \<lparr>sem_count = 0, peak_count = 0, sem_alloc_flag = K_OBJ_STATIC_ALLOC\<rparr>)"
  "mutexes ex_sem = mutexes boot" "events ex_sem = events boot" "buf_queues ex_sem = buf_queues boot"
  "u8_mem ex_sem = u8_mem boot" "k_errs ex_sem = k_errs boot" "k_fault ex_sem = k_fault boot"
  by (simp_all add: ex_sem_eq)

lemma reachable_ex_sem: "reachable ex_sem"
  by (rule reachable_call [OF reachable_boot, of "Sem_create 10 0"]) (simp_all add: ex_sem_def unused_obj_def is_mutex_def)

lemma ex_wait_eq:
  "ex_wait = ex_sem\<lparr>
     g_ready_queue := \<lparr>cur_list_item = (\<lambda>_. [])(61 := [0], 5 := []), task_bit_map = [0, 4], highest_pri = 61\<rparr>,
     g_preferred_ready_task := 0,
     g_active_task := 0,
     tcb := (tcb ex_sem)(1 := (tcb ex_sem 1)\<lparr>blk_obj := Some 10, task_state := K_PEND\<rparr>),
     blk_objs := (blk_objs ex_sem)(10 := \<lparr>blk_list = [1], blk_policy = BLK_POLICY_PRI, obj_type = RHINO_SEM_OBJ_TYPE\<rparr>)\<rparr>"
  by (simp add: ex_wait_def krhino_sem_take_def sched_evals)

lemma ex_wait_sel [simp]:
  "g_sys_stat ex_wait = g_sys_stat ex_sem" "g_idle_task_spawned ex_wait = g_idle_task_spawned ex_sem"
  "g_ready_queue ex_wait = \<lparr>cur_list_item = (\<lambda>_. [])(61 := [0], 5 := []), task_bit_map = [0, 4], highest_pri = 61\<rparr>"
  "g_sched_lock ex_wait = g_sched_lock ex_sem" "g_intrpt_nested_level ex_wait = g_intrpt_nested_level ex_sem"
  "g_preferred_ready_task ex_wait = 0" "g_active_task ex_wait = 0" "g_tick_count ex_wait = g_tick_count ex_sem"
  "g_tick_head ex_wait = g_tick_head ex_sem"
  "tcb ex_wait = (tcb ex_sem)(1 := (tcb ex_sem 1)\<lparr>blk_obj := Some 10, task_state := K_PEND\<rparr>)"
  "g_tasks ex_wait = g_tasks ex_sem"
  "blk_objs ex_wait = (blk_objs ex_sem)(10 := \<lparr>blk_list = [1], blk_policy = BLK_POLICY_PRI, obj_type = RHINO_SEM_OBJ_TYPE\<rparr>)"
  "sems ex_wait = sems ex_sem" "mutexes ex_wait = mutexes ex_sem" "events ex_wait = events ex_sem"
  "buf_queues ex_wait = buf_queues ex_sem" "u8_mem ex_wait = u8_mem ex_sem" "k_errs ex_wait = k_errs ex_sem"
  "k_fault ex_wait = k_fault ex_sem"
  by (simp_all add: ex_wait_eq)

lemma reachable_ex_wait: "reachable ex_wait"
  by (rule reachable_call [OF reachable_ex_sem, of "Sem_take 10 RHINO_WAIT_FOREVER"])
    (simp_all add: ex_wait_def may_wait_def idle_tid_def)

section \<open>Sleeping and waiting for events\<close>

lemma ex_sleep_eq:
  "ex_sleep = boot\<lparr>
     g_ready_queue := \<lparr>cur_list_item = (\<lambda>_. [])(61 := [0], 5 := []), task_bit_map = [0, 4], highest_pri = 61\<rparr>,
     g_preferred_ready_task := 0,
     g_active_task := 0,
     g_tick_head := [1],
     tcb := (tcb boot)(1 := (tcb boot 1)\<lparr>tick_match := 5, tick_remain := 5, tick_head := True, task_state := K_SLEEP\<rparr>)\<rparr>"
  by (simp add: ex_sleep_def krhino_task_sleep_def tick_list_insert_def sched_evals,
      rule kstate.equality, simp_all add: fresh_tcb_def zero_task_def)

lemma ex_sleep_sel [simp]:
  "g_sys_stat ex_sleep = g_sys_stat boot" "g_idle_task_spawned ex_sleep = g_idle_task_spawned boot"
  "g_ready_queue ex_sleep = \<lparr>cur_list_item = (\<lambda>_. [])(61 := [0], 5 := []), task_bit_map = [0, 4], highest_pri = 61\<rparr>"
  "g_sched_lock ex_sleep = g_sched_lock boot" "g_intrpt_nested_level ex_sleep = g_intrpt_nested_level boot"
  "g_preferred_ready_task ex_sleep = 0" "g_active_task ex_sleep = 0" "g_tick_count ex_sleep = g_tick_count boot"
  "g_tick_head ex_sleep = [1]"
  "tcb ex_sleep = (tcb boot)(1 := (tcb boot 1)\<lparr>tick_match := 5, tick_remain := 5, tick_head := True, task_state := K_SLEEP\<rparr>)"
  "g_tasks ex_sleep = g_tasks boot" "blk_objs ex_sleep = blk_objs boot" "sems ex_sleep = sems boot"
  "mutexes ex_sleep = mutexes boot" "events ex_sleep = events boot" "buf_queues ex_sleep = buf_queues boot"
  "u8_mem ex_sleep = u8_mem boot" "k_errs ex_sleep = k_errs boot" "k_fault ex_sleep = k_fault boot"
  by (simp_all add: ex_sleep_eq)

lemma reachable_ex_sleep: "reachable ex_sleep"
  by (rule reachable_call [OF reachable_boot, of "Task_sleep 5"]) (simp_all add: ex_sleep_def idle_tid_def)

lemma ex_ev_eq:
  "ex_ev = boot\<lparr>
     g_ready_queue := \<lparr>cur_list_item = (\<lambda>_. [])(61 := [0], 5 := []), task_bit_map = [0, 4], highest_pri = 61\<rparr>,
     g_preferred_ready_task := 0,
     g_active_task := 0,
     tcb := (tcb boot)(1 := (tcb boot 1)\<lparr>pend_flags := 3, pend_option := 2, pend_info := 500, blk_obj := Some 30,
       task_state := K_PEND\<rparr>),
     blk_objs := (blk_objs boot)(30 := \<lparr>blk_list = [1], blk_policy = BLK_POLICY_PRI, obj_type = RHINO_EVENT_OBJ_TYPE\<rparr>),
     events := (events boot)(30 := \<lparr>event_flags = 0, event_alloc_flag = K_OBJ_STATIC_ALLOC\<rparr>)\<rparr>"
  by (simp add: ex_ev_def krhino_event_get_def krhino_event_create_def event_create_eq upd_event_def event_status_def
      event_opts sched_evals,
      rule kstate.equality, simp_all add: fresh_tcb_def zero_task_def)

lemma ex_ev_sel [simp]:
  "g_sys_stat ex_ev = g_sys_stat boot" "g_idle_task_spawned ex_ev = g_idle_task_spawned boot"
  "g_ready_queue ex_ev = \<lparr>cur_list_item = (\<lambda>_. [])(61 := [0], 5 := []), task_bit_map = [0, 4], highest_pri = 61\<rparr>"
  "g_sched_lock ex_ev = g_sched_lock boot" "g_intrpt_nested_level ex_ev = g_intrpt_nested_level boot"
  "g_preferred_ready_task ex_ev = 0" "g_active_task ex_ev = 0" "g_tick_count ex_ev = g_tick_count boot"
  "g_tick_head ex_ev = g_tick_head boot"
  "tcb ex_ev = (tcb boot)(1 := (tcb boot 1)\<lparr>pend_flags := 3, pend_option := 2, pend_info := 500, blk_obj := Some 30,
       task_state := K_PEND\<rparr>)"
  "g_tasks ex_ev = g_tasks boot"
  "blk_objs ex_ev = (blk_objs boot)(30 := \<lparr>blk_list = [1], blk_policy = BLK_POLICY_PRI, obj_type = RHINO_EVENT_OBJ_TYPE\<rparr>)"
  "sems ex_ev = sems boot" "mutexes ex_ev = mutexes boot"
  "events ex_ev = (events boot)(30 := \<lparr>event_flags = 0, event_alloc_flag = K_OBJ_STATIC_ALLOC\<rparr>)"
  "buf_queues ex_ev = buf_queues boot" "u8_mem ex_ev = u8_mem boot" "k_errs ex_ev = k_errs boot"
  "k_fault ex_ev = k_fault boot"
  by (simp_all add: ex_ev_eq)

lemma reachable_ex_ev: "reachable ex_ev"
proof -
  let ?a = "snd (krhino_event_create 30 0 boot)"
  have a: "reachable ?a"
    by (rule reachable_call [OF reachable_boot, of "Event_create 30 0"]) (simp_all add: unused_obj_def is_mutex_def)
  show ?thesis
    by (rule reachable_call [OF a, of "Event_get 30 3 RHINO_AND 500 RHINO_WAIT_FOREVER"])
      (simp_all add: ex_ev_def may_wait_def krhino_event_create_def event_create_eq upd_event_def upd_blk_def idle_tid_def)
qed

section \<open>A mutex\<close>

lemma ex_idle_eq:
  "ex_idle = boot\<lparr>
     g_ready_queue := \<lparr>cur_list_item = (\<lambda>_. [])(61 := [0], 5 := []), task_bit_map = [0, 4], highest_pri = 61\<rparr>,
     g_preferred_ready_task := 0,
     g_active_task := 0,
     tcb := (tcb boot)(1 := (tcb boot 1)\<lparr>blk_obj := Some 1, task_state := K_PEND\<rparr>),
     blk_objs := (blk_objs boot)(1 := \<lparr>blk_list = [1], blk_policy = BLK_POLICY_PRI, obj_type = RHINO_BUF_QUEUE_OBJ_TYPE\<rparr>)\<rparr>"
  by (simp add: ex_idle_def krhino_buf_queue_recv_def sched_evals g_timer_queue_def ringbuf_is_empty_def,
      rule kstate.equality, simp_all add: fresh_tcb_def zero_task_def)

lemma ex_idle_sel [simp]:
  "g_sys_stat ex_idle = g_sys_stat boot" "g_idle_task_spawned ex_idle = g_idle_task_spawned boot"
  "g_ready_queue ex_idle = \<lparr>cur_list_item = (\<lambda>_. [])(61 := [0], 5 := []), task_bit_map = [0, 4], highest_pri = 61\<rparr>"
  "g_sched_lock ex_idle = g_sched_lock boot" "g_intrpt_nested_level ex_idle = g_intrpt_nested_level boot"
  "g_preferred_ready_task ex_idle = 0" "g_active_task ex_idle = 0" "g_tick_count ex_idle = g_tick_count boot"
  "g_tick_head ex_idle = g_tick_head boot"
  "tcb ex_idle = (tcb boot)(1 := (tcb boot 1)\<lparr>blk_obj := Some 1, task_state := K_PEND\<rparr>)"
  "g_tasks ex_idle = g_tasks boot"
  "blk_objs ex_idle = (blk_objs boot)(1 := \<lparr>blk_list = [1], blk_policy = BLK_POLICY_PRI, obj_type = RHINO_BUF_QUEUE_OBJ_TYPE\<rparr>)"
  "sems ex_idle = sems boot" "mutexes ex_idle = mutexes boot" "events ex_idle = events boot"
  "buf_queues ex_idle = buf_queues boot" "u8_mem ex_idle = u8_mem boot" "k_errs ex_idle = k_errs boot"
  "k_fault ex_idle = k_fault boot"
  by (simp_all add: ex_idle_eq)

lemma reachable_ex_idle: "reachable ex_idle"
  by (rule reachable_call [OF reachable_boot, of "Buf_queue_recv g_timer_queue RHINO_WAIT_FOREVER 0 0"])
    (simp_all add: ex_idle_def may_wait_def idle_tid_def)

lemma ex_low0_eq:
  "ex_low0 = ex_idle\<lparr>
     g_ready_queue := \<lparr>cur_list_item = (\<lambda>_. [])(61 := [0], 5 := [], 20 := [3]), task_bit_map = [0x800, 4], highest_pri = 20\<rparr>,
     g_preferred_ready_task := 3,
     g_active_task := 3,
     g_tasks := [0, 1, 3],
     tcb := (tcb ex_idle)(3 := fresh_tcb 20 0 100 True K_OBJ_STATIC_ALLOC),
     blk_objs := (blk_objs ex_idle)(20 := \<lparr>blk_list = [], blk_policy = BLK_POLICY_PRI, obj_type = RHINO_MUTEX_OBJ_TYPE\<rparr>),
     mutexes := (mutexes ex_idle)(20 := \<lparr>mutex_task = None, owner_nested = 0, mutex_alloc_flag = K_OBJ_STATIC_ALLOC\<rparr>)\<rparr>"
  by (simp add: ex_low0_def krhino_mutex_create_def mutex_create_eq upd_mutex_def create_evals sched_evals)

lemma ex_low0_sel [simp]:
  "g_sys_stat ex_low0 = g_sys_stat ex_idle" "g_idle_task_spawned ex_low0 = g_idle_task_spawned ex_idle"
  "g_ready_queue ex_low0 = \<lparr>cur_list_item = (\<lambda>_. [])(61 := [0], 5 := [], 20 := [3]), task_bit_map = [0x800, 4], highest_pri = 20\<rparr>"
  "g_sched_lock ex_low0 = g_sched_lock ex_idle" "g_intrpt_nested_level ex_low0 = g_intrpt_nested_level ex_idle"
  "g_preferred_ready_task ex_low0 = 3" "g_active_task ex_low0 = 3" "g_tick_count ex_low0 = g_tick_count ex_idle"
  "g_tick_head ex_low0 = g_tick_head ex_idle"
  "tcb ex_low0 = (tcb ex_idle)(3 := fresh_tcb 20 0 100 True K_OBJ_STATIC_ALLOC)" "g_tasks ex_low0 = [0, 1, 3]"
  "blk_objs ex_low0 = (blk_objs ex_idle)(20 := \<lparr>blk_list = [], blk_policy = BLK_POLICY_PRI, obj_type = RHINO_MUTEX_OBJ_TYPE\<rparr>)"
  "sems ex_low0 = sems ex_idle"
  "mutexes ex_low0 = (mutexes ex_idle)(20 := \<lparr>mutex_task = None, owner_nested = 0, mutex_alloc_flag = K_OBJ_STATIC_ALLOC\<rparr>)"
  "events ex_low0 = events ex_idle" "buf_queues ex_low0 = buf_queues ex_idle" "u8_mem ex_low0 = u8_mem ex_idle"
  "k_errs ex_low0 = k_errs ex_idle" "k_fault ex_low0 = k_fault ex_idle"
  by (simp_all add: ex_low0_eq)

lemma ex_low_eq:
  "ex_low = ex_low0\<lparr>
     tcb := (tcb ex_low0)(3 := (tcb ex_low0 3)\<lparr>mutex_list := [20]\<rparr>),
     mutexes := (mutexes ex_low0)(20 := \<lparr>mutex_task = Some 3, owner_nested = 1, mutex_alloc_flag = K_OBJ_STATIC_ALLOC\<rparr>)\<rparr>"
  by (simp add: ex_low_def krhino_mutex_lock_def upd_mutex_def kupd)

lemma ex_low_sel [simp]:
  "g_sys_stat ex_low = g_sys_stat ex_low0" "g_idle_task_spawned ex_low = g_idle_task_spawned ex_low0"
  "g_ready_queue ex_low = g_ready_queue ex_low0" "g_sched_lock ex_low = g_sched_lock ex_low0"
  "g_intrpt_nested_level ex_low = g_intrpt_nested_level ex_low0"
  "g_preferred_ready_task ex_low = g_preferred_ready_task ex_low0" "g_active_task ex_low = g_active_task ex_low0"
  "g_tick_count ex_low = g_tick_count ex_low0" "g_tick_head ex_low = g_tick_head ex_low0"
  "tcb ex_low = (tcb ex_low0)(3 := (tcb ex_low0 3)\<lparr>mutex_list := [20]\<rparr>)"
  "g_tasks ex_low = g_tasks ex_low0" "blk_objs ex_low = blk_objs ex_low0" "sems ex_low = sems ex_low0"
  "mutexes ex_low = (mutexes ex_low0)(20 := \<lparr>mutex_task = Some 3, owner_nested = 1, mutex_alloc_flag = K_OBJ_STATIC_ALLOC\<rparr>)"
  "events ex_low = events ex_low0" "buf_queues ex_low = buf_queues ex_low0" "u8_mem ex_low = u8_mem ex_low0"
  "k_errs ex_low = k_errs ex_low0" "k_fault ex_low = k_fault ex_low0"
  by (simp_all add: ex_low_eq)

lemma reachable_ex_low: "reachable ex_low"
proof -
  let ?a = "snd (krhino_task_create 3 20 0 100 True ex_idle)"
  have a: "reachable ?a"
    by (rule reachable_call [OF reachable_ex_idle, of "Task_create 3 20 0 100 True"]) (simp_all add: live_def)
  have "reachable ex_low0"
    by (rule reachable_call [OF a, of "Mutex_create 20"])
      (simp_all add: ex_low0_def unused_obj_def is_mutex_def create_evals sched_evals)
  then show ?thesis
    by (rule reachable_call [of _ "Mutex_lock 20 RHINO_WAIT_FOREVER"])
      (simp_all add: ex_low_def may_wait_def lock_safe_def idle_tid_def)
qed

lemma ex_two_eq:
  "ex_two = ex_low\<lparr>
     g_ready_queue := \<lparr>cur_list_item = (\<lambda>_. [])(61 := [0], 5 := [], 20 := [3], 10 := [2]), task_bit_map = [0x200800, 4], highest_pri = 10\<rparr>,
     g_preferred_ready_task := 2,
     g_active_task := 2,
     g_tasks := [0, 1, 3, 2],
     tcb := (tcb ex_low)(2 := fresh_tcb 10 0 100 True K_OBJ_STATIC_ALLOC)\<rparr>"
  by (simp add: ex_two_def create_evals sched_evals)

lemma ex_two_sel [simp]:
  "g_sys_stat ex_two = g_sys_stat ex_low" "g_idle_task_spawned ex_two = g_idle_task_spawned ex_low"
  "g_ready_queue ex_two = \<lparr>cur_list_item = (\<lambda>_. [])(61 := [0], 5 := [], 20 := [3], 10 := [2]), task_bit_map = [0x200800, 4], highest_pri = 10\<rparr>"
  "g_sched_lock ex_two = g_sched_lock ex_low" "g_intrpt_nested_level ex_two = g_intrpt_nested_level ex_low"
  "g_preferred_ready_task ex_two = 2" "g_active_task ex_two = 2" "g_tick_count ex_two = g_tick_count ex_low"
  "g_tick_head ex_two = g_tick_head ex_low"
  "tcb ex_two = (tcb ex_low)(2 := fresh_tcb 10 0 100 True K_OBJ_STATIC_ALLOC)" "g_tasks ex_two = [0, 1, 3, 2]"
  "blk_objs ex_two = blk_objs ex_low" "sems ex_two = sems ex_low" "mutexes ex_two = mutexes ex_low"
  "events ex_two = events ex_low" "buf_queues ex_two = buf_queues ex_low" "u8_mem ex_two = u8_mem ex_low"
  "k_errs ex_two = k_errs ex_low" "k_fault ex_two = k_fault ex_low"
  by (simp_all add: ex_two_eq)

lemma reachable_ex_two: "reachable ex_two"
  by (rule reachable_call [OF reachable_ex_low, of "Task_create 2 10 0 100 True"]) (simp_all add: ex_two_def live_def)

lemma ex_two_safe: "(3, 2) \<notin> (waits_for ex_two)\<^sup>*"
  by (rule notI, erule converse_rtranclE) (simp_all add: waits_for_def owner_of_def pended_def)

lemma ex_pi_eq:
  "ex_pi = ex_two\<lparr>
     g_ready_queue := \<lparr>cur_list_item = (\<lambda>_. [])(61 := [0], 5 := [], 20 := [], 10 := [3]), task_bit_map = [0x200000, 4], highest_pri = 10\<rparr>,
     g_preferred_ready_task := 3,
     g_active_task := 3,
     tcb := (tcb ex_two)(3 := (tcb ex_two 3)\<lparr>prio := 10\<rparr>, 2 := (tcb ex_two 2)\<lparr>blk_obj := Some 20, task_state := K_PEND\<rparr>),
     blk_objs := (blk_objs ex_two)(20 := (blk_objs ex_two 20)\<lparr>blk_list := [2]\<rparr>)\<rparr>"
  by (simp add: ex_pi_def krhino_mutex_lock_def upd_mutex_def task_pri_change_def pri_change_round_def sched_evals)

lemma ex_pi_sel [simp]:
  "g_sys_stat ex_pi = g_sys_stat ex_two" "g_idle_task_spawned ex_pi = g_idle_task_spawned ex_two"
  "g_ready_queue ex_pi = \<lparr>cur_list_item = (\<lambda>_. [])(61 := [0], 5 := [], 20 := [], 10 := [3]), task_bit_map = [0x200000, 4], highest_pri = 10\<rparr>"
  "g_sched_lock ex_pi = g_sched_lock ex_two" "g_intrpt_nested_level ex_pi = g_intrpt_nested_level ex_two"
  "g_preferred_ready_task ex_pi = 3" "g_active_task ex_pi = 3" "g_tick_count ex_pi = g_tick_count ex_two"
  "g_tick_head ex_pi = g_tick_head ex_two"
  "tcb ex_pi = (tcb ex_two)(3 := (tcb ex_two 3)\<lparr>prio := 10\<rparr>, 2 := (tcb ex_two 2)\<lparr>blk_obj := Some 20, task_state := K_PEND\<rparr>)"
  "g_tasks ex_pi = g_tasks ex_two"
  "blk_objs ex_pi = (blk_objs ex_two)(20 := (blk_objs ex_two 20)\<lparr>blk_list := [2]\<rparr>)"
  "sems ex_pi = sems ex_two" "mutexes ex_pi = mutexes ex_two" "events ex_pi = events ex_two"
  "buf_queues ex_pi = buf_queues ex_two" "u8_mem ex_pi = u8_mem ex_two" "k_errs ex_pi = k_errs ex_two"
  "k_fault ex_pi = k_fault ex_two"
  by (simp_all add: ex_pi_eq)

lemma reachable_ex_pi: "reachable ex_pi"
  by (rule reachable_call [OF reachable_ex_two, of "Mutex_lock 20 RHINO_WAIT_FOREVER"])
    (simp_all add: ex_pi_def may_wait_def lock_safe_def idle_tid_def ex_two_safe)

end
