(* ===== verification/K_Messages.thy ===== *)
theory K_Messages
  imports K_List K_Examples
begin

text \<open>
  What the lists, the ring buffer and the queues promise to their clients: the pointer
  operations implement the operations on sequences, and what is received is what was sent,
  in order.
\<close>

section \<open>Lists\<close>

text \<open>C28. On a circle of nodes that starts at the head \<open>x\<close>, \<open>klist_insert\<close> appends, \<open>klist_add\<close> puts in front,
  \<open>klist_rm\<close> removes and \<open>klist_rm_init\<close> leaves the removed node as a circle of its own; inserting before an inner node puts the
  new node there, and the test for emptiness is that of the sequence.\<close>

theorem klist_refines:
  assumes "ring h (x # ys @ f # zs)" and "e \<notin> set (x # ys @ f # zs)"
  shows "ring (klist_insert x e h) (x # (ys @ f # zs) @ [e]) \<and> ring (klist_add x e h) (x # e # ys @ f # zs) \<and>
    ring (klist_insert f e h) (x # ys @ e # f # zs) \<and> ring (klist_rm f h) (x # ys @ zs) \<and>
    ring (klist_rm_init f h) (x # ys @ zs) \<and> ring (klist_rm_init f h) [f] \<and>
    is_klist_empty x (klist_rm f h) = (ys @ zs = [])"
  using klist_insert_ring [OF assms] klist_add_ring [OF assms] klist_insert_ring_before [OF assms] klist_rm_ring [OF assms(1)]
    klist_rm_init_ring [OF assms(1)] is_klist_empty_ring [OF klist_rm_ring [OF assms(1)]] by simp

theorem klist_refines_witness:
  "ring (klist_rm 2 (klist_insert 1 2 (klist_init 1 (\<lambda>_. \<lparr>lnext = 0, lprev = 0\<rparr>)))) [1] \<and>
   ring (klist_insert 2 3 (klist_insert 1 2 (klist_init 1 (\<lambda>_. \<lparr>lnext = 0, lprev = 0\<rparr>)))) [1, 3, 2]"
proof -
  have "ring (klist_insert 1 2 (klist_init 1 (\<lambda>_. \<lparr>lnext = 0, lprev = 0\<rparr>))) [1, 2]"
    using klist_insert_ring [OF klist_init_ring [of 1 "\<lambda>_. \<lparr>lnext = 0, lprev = 0\<rparr>"], of 2] by simp
  then show ?thesis using klist_refines [of _ 1 "[]" 2 "[]" 3] by simp
qed

section \<open>Queues of messages and their specification\<close>

text \<open>
  The specification of a queue of messages is a list, a test whether it has room for a message,
  putting at the end and getting from the front. An implementation that simulates it step by
  step gives the same results in every run.
\<close>

definition spec_put :: "('m \<Rightarrow> 'm list \<Rightarrow> bool) \<Rightarrow> 'm \<Rightarrow> 'm list \<Rightarrow> 'm list option" where
  "spec_put room x ms = (if room x ms then Some (ms @ [x]) else None)"

definition spec_get :: "'m list \<Rightarrow> ('m \<times> 'm list) option" where
  "spec_get ms = (case ms of [] \<Rightarrow> None | x # xs \<Rightarrow> Some (x, xs))"

locale fifo_impl =
  fixes rep :: "'s \<Rightarrow> 'm list \<Rightarrow> bool"
    and put :: "'m \<Rightarrow> 's \<Rightarrow> 's option"
    and get :: "'s \<Rightarrow> ('m \<times> 's) option"
    and room :: "'m \<Rightarrow> 'm list \<Rightarrow> bool"
  assumes put_sim: "rep s ms \<Longrightarrow> rel_option rep (put x s) (spec_put room x ms)"
    and get_sim: "rep s ms \<Longrightarrow> rel_option (rel_prod (=) rep) (get s) (spec_get ms)"
begin

lemma run_sim:
  "rep s ms \<Longrightarrow>
   rel_prod (=) (rel_prod (=) rep) (fifo_run put get ops s) (fifo_run (spec_put room) spec_get ops ms)"
proof (induction ops arbitrary: s ms)
  case (Cons op ops)
  show ?case
  proof (cases op)
    case None
    with get_sim [OF Cons.prems] Cons.IH [OF Cons.prems] show ?thesis
      by (cases "get s"; cases "spec_get ms") (auto simp: split_beta rel_prod_sel dest!: Cons.IH)
  next
    case (Some x)
    with put_sim [OF Cons.prems, of x] Cons.IH [OF Cons.prems] show ?thesis
      by (cases "put x s"; cases "spec_put room x ms") (auto simp: split_beta rel_prod_sel dest!: Cons.IH)
  qed
qed simp

lemma run_results:
  assumes "rep s ms"
  shows "fst (fifo_run put get ops s) = fst (fifo_run (spec_put room) spec_get ops ms)"
    and "fst (snd (fifo_run put get ops s)) = fst (snd (fifo_run (spec_put room) spec_get ops ms))"
  using run_sim [OF assms, of ops] by (simp_all add: rel_prod_sel)

end

section \<open>The ring buffer\<close>

definition ring_room :: "nat \<Rightarrow> nat \<Rightarrow> nat \<Rightarrow> u8 list \<Rightarrow> u8 list list \<Rightarrow> bool" where
  "ring_room type sz blk x ms \<longleftrightarrow> x \<noteq> [] \<and> length x \<le> 0x3fffff \<and>
    (if type = RINGBUF_TYPE_DYN
     then 2 \<le> sz - (\<Sum>m\<leftarrow>ms. COMPRESS_LEN (length m) + length m) \<and>
       COMPRESS_LEN (length x) + length x \<le> sz - (\<Sum>m\<leftarrow>ms. COMPRESS_LEN (length m) + length m)
     else length x = blk \<and> blk \<le> sz - blk * length ms)"

definition ring_impl :: "nat \<Rightarrow> nat \<Rightarrow> nat \<Rightarrow> k_ringbuf_t \<times> mem \<Rightarrow> u8 list list \<Rightarrow> bool" where
  "ring_impl type sz blk pm ms \<longleftrightarrow> rb_rep pm ms \<and> rb_type (fst pm) = type \<and> rb_size (fst pm) = sz \<and>
     (type = RINGBUF_TYPE_FIX \<longrightarrow> blk_size (fst pm) = blk)"

lemma ring_free:
  "rb_rep_dyn p m ms \<Longrightarrow> freesize p = rb_size p - (\<Sum>m\<leftarrow>ms. COMPRESS_LEN (length m) + length m)"
  "rb_rep_fix p m ms \<Longrightarrow> freesize p = rb_size p - blk_size p * length ms"
proof -
  have free: "rb_wf p \<Longrightarrow> freesize p = rb_size p - length (rb_content p m)" by (simp add: rb_wf_def rb_used_def)
  have "length (concat (map (\<lambda>x. len_head (length x) @ x) ms)) = (\<Sum>m\<leftarrow>ms. COMPRESS_LEN (length m) + length m)"
    if "\<forall>x\<in>set ms. length x \<le> 0x3fffff" for ms :: "u8 list list"
    using that by (induction ms) (simp_all add: length_len_head)
  then show "rb_rep_dyn p m ms \<Longrightarrow> freesize p = rb_size p - (\<Sum>m\<leftarrow>ms. COMPRESS_LEN (length m) + length m)"
    using free by (simp add: rb_rep_dyn_def)
  have c: "length (concat ms) = b * length ms" if "\<forall>x\<in>set ms. length x = b" for b and ms :: "u8 list list"
    using that by (induction ms) simp_all
  then show "rb_rep_fix p m ms \<Longrightarrow> freesize p = rb_size p - blk_size p * length ms"
    using free c [of ms "blk_size p"] by (simp add: rb_rep_fix_def)
qed

lemma ring_put_sim:
  assumes "ring_impl type sz blk pm ms"
  shows "rel_option (ring_impl type sz blk) (ring_put x pm) (spec_put (ring_room type sz blk) x ms)"
proof -
  obtain p m where pm: "pm = (p, m)" by (cases pm)
  consider (dyn) "rb_rep_dyn p m ms" "type = RINGBUF_TYPE_DYN" | (blk) "rb_rep_fix p m ms" "type = RINGBUF_TYPE_FIX" "blk_size p = blk"
    using assms rb_rep_types by (auto simp: ring_impl_def rb_rep_def pm)
  then show ?thesis
  proof cases
    case dyn
    note f = ring_free(1) [OF dyn(1)] and t = rb_rep_types(1) [OF dyn(1)]
    show ?thesis
    proof (cases "length x \<le> 0x3fffff \<and> 2 \<le> freesize p \<and> COMPRESS_LEN (length x) + length x \<le> freesize p")
      case True
      then obtain p' m' where "ringbuf_push p (bytes_at x) (length x) m = (RHINO_SUCCESS, p', m')"
        "rb_rep_dyn p' m' (ms @ [x])" "rb_buf p' = rb_buf p" "rb_end p' = rb_end p"
        using push_dyn [OF dyn(1), of "length x" "bytes_at x"] by (auto simp: map_bytes_at_all)
      with True assms f t dyn(2) rb_rep_types(1) [of p' m'] show ?thesis
        by (auto simp: ring_put_def spec_put_def ring_room_def ring_impl_def rb_rep_def krhino_ringbuf_push_def pm rb_types rb_size_def)
    next
      case False
      with push_dyn_refused [OF t False, of "bytes_at x" m] assms f dyn(2) show ?thesis
        by (auto simp: ring_put_def spec_put_def ring_room_def ring_impl_def krhino_ringbuf_push_def pm)
    qed
  next
    case blk
    note f = ring_free(2) [OF blk(1)] and t = rb_rep_types(2) [OF blk(1)]
    show ?thesis
    proof (cases "length x = blk_size p \<and> blk_size p \<le> freesize p")
      case True
      then obtain p' m' where "ringbuf_push p (bytes_at x) (length x) m = (RHINO_SUCCESS, p', m')"
        "rb_rep_fix p' m' (ms @ [x])" "rb_buf p' = rb_buf p" "rb_end p' = rb_end p" "blk_size p' = blk_size p"
        using push_fix_rep [OF blk(1), of "bytes_at x" "length x"] map_bytes_at_all [of x] by auto
      with True assms f t blk rb_rep_types(2) [of p' m'] show ?thesis
        by (auto simp: ring_put_def spec_put_def ring_room_def ring_impl_def rb_rep_def krhino_ringbuf_push_def pm rb_types rb_size_def)
    next
      case False
      with push_fix_refused [OF t, of "bytes_at x" "length x" m] assms f t blk show ?thesis
        by (auto simp: ring_put_def spec_put_def ring_room_def ring_impl_def krhino_ringbuf_push_def pm rb_types not_less)
    qed
  qed
qed

lemma ring_get_sim:
  assumes "ring_impl type sz blk pm ms"
  shows "rel_option (rel_prod (=) (ring_impl type sz blk)) (ring_get pm) (spec_get ms)"
proof (cases ms)
  case Nil
  then show ?thesis using assms ring_get_empty by (simp add: ring_impl_def spec_get_def)
next
  case (Cons x xs)
  then show ?thesis
    using assms pop_dyn [of "fst pm" "snd pm" x xs] pop_fix_rep [of "fst pm" "snd pm" x xs]
      rb_rep_types [of "fst pm" "snd pm"] rb_rep_types [of _ "snd pm" xs]
    by (auto simp: ring_impl_def rb_rep_def ring_get_def krhino_ringbuf_pop_def spec_get_def rb_size_def rb_types)
qed

interpretation ringi: fifo_impl "ring_impl type sz blk" ring_put ring_get "ring_room type sz blk" for type sz blk
  by unfold_locales (rule ring_put_sim ring_get_sim, assumption)+

text \<open>C22. A ring buffer implements a bounded queue of messages: for every sequence of pushes and pops it accepts exactly the
  messages that the queue has room for, and pops the same messages in the same order.\<close>

theorem ringbuf_refines:
  assumes "krhino_ringbuf_init buf len type block_size p = (RHINO_SUCCESS, p')"
  shows "fst (fifo_run ring_put ring_get ops (p', m)) = fst (fifo_run (spec_put (ring_room type len block_size)) spec_get ops []) \<and>
    fst (snd (fifo_run ring_put ring_get ops (p', m))) = fst (snd (fifo_run (spec_put (ring_room type len block_size)) spec_get ops []))"
proof -
  have "rb_type p' = type" "rb_size p' = len" "type = RINGBUF_TYPE_FIX \<longrightarrow> blk_size p' = block_size"
    using assms by (auto simp: krhino_ringbuf_init_def ringbuf_init_def ringbuf_reset_def rb_size_def rb_types split: if_splits)
  then have "ring_impl type len block_size (p', m) []" using ringbuf_init_rep [OF assms] by (simp add: ring_impl_def)
  then show ?thesis using ringi.run_results by blast
qed

definition ex_ring :: k_ringbuf_t where
  "ex_ring = ringbuf_init 64 8 RINGBUF_TYPE_DYN 0
     \<lparr>rb_buf = 0, rb_end = 0, rb_head = 0, rb_tail = 0, freesize = 0, rb_type = 0, blk_size = 0\<rparr>"

theorem ringbuf_refines_witness:
  "fst (fifo_run ring_put ring_get [Some [1, 2], Some [3, 4, 5], Some [6, 7, 8], None, Some [6, 7, 8], None] (ex_ring, \<lambda>_. 0)) =
     [[1, 2], [3, 4, 5]]"
proof -
  have i: "krhino_ringbuf_init 64 8 RINGBUF_TYPE_DYN 0 ex_ring = (RHINO_SUCCESS, ex_ring)"
    by (simp add: ex_ring_def krhino_ringbuf_init_def ringbuf_init_def ringbuf_reset_def rb_types)
  show ?thesis
    using ringbuf_refines [OF i, of "[Some [1, 2], Some [3, 4, 5], Some [6, 7, 8], None, Some [6, 7, 8], None]" "\<lambda>_. 0"]
    by (simp add: spec_put_def spec_get_def ring_room_def COMPRESS_LEN_def)
qed

text \<open>C33. A push into a ring buffer of messages of any length is accepted exactly if the length can be encoded and the message
  fits with its header; an accepted push uses just these bytes of the buffer and no others, and a refused one changes nothing.\<close>

theorem ringbuf_push_accepts:
  fixes data :: "nat \<Rightarrow> u8" and len :: nat
  assumes "rb_rep_dyn p m msgs"
  defines "r \<equiv> ringbuf_push p data len m"
  shows "(fst r = RHINO_SUCCESS \<longleftrightarrow> len \<le> 0x3fffff \<and> 2 \<le> freesize p \<and> COMPRESS_LEN len + len \<le> freesize p) \<and>
    (if fst r = RHINO_SUCCESS
     then freesize (fst (snd r)) = freesize p - (COMPRESS_LEN len + len) \<and>
       (\<forall>a. a < rb_buf p \<or> rb_end p \<le> a \<longrightarrow> snd (snd r) a = m a)
     else snd r = (p, m))"
proof (cases "len \<le> 0x3fffff \<and> 2 \<le> freesize p \<and> COMPRESS_LEN len + len \<le> freesize p")
  case True
  then show ?thesis using push_dyn [OF assms(1), of len data] by (auto simp: r_def)
next
  case False
  then show ?thesis using push_dyn_refused [OF rb_rep_types(1) [OF assms(1)] False, of data m] by (auto simp: r_def)
qed

theorem ringbuf_push_accepts_witness:
  "fst (ringbuf_push ex_ring (\<lambda>_. 9) 7 (\<lambda>_. 0)) = RHINO_SUCCESS \<and>
   freesize (fst (snd (ringbuf_push ex_ring (\<lambda>_. 9) 7 (\<lambda>_. 0)))) = 0 \<and>
   ringbuf_push ex_ring (\<lambda>_. 9) 8 (\<lambda>_. 0) = (fst (ringbuf_push ex_ring (\<lambda>_. 9) 8 (\<lambda>_. 0)), ex_ring, \<lambda>_. 0)"
proof -
  have r: "rb_rep_dyn ex_ring (\<lambda>_. 0) []"
    by (simp add: ex_ring_def ringbuf_init_def ringbuf_reset_def rb_rep_dyn_def rb_wf_def rb_used_def rb_size_def rb_content_def)
  have f: "freesize ex_ring = 8" by (simp add: ex_ring_def ringbuf_init_def ringbuf_reset_def)
  show ?thesis
    using ringbuf_push_accepts [OF r, of "\<lambda>_. 9" 7] ringbuf_push_accepts [OF r, of "\<lambda>_. 9" 8] f
    by (auto simp: COMPRESS_LEN_def prod_eq_iff)
qed

text \<open>C34. The header that encodes the length of a message has one to three bytes, its first byte tells how many, and it is decoded
  to the length, for every length the encoding admits.\<close>

theorem headlen_encodes:
  assumes "len \<le> 0x3fffff"
  shows "let (n, c) = ringbuf_headlen_compress len [0, 0, 0]
    in n \<in> {1, 2, 3} \<and> pop_len_bytes (hd c) = n \<and> ringbuf_headlen_decompress n (take n c) = len"
proof -
  have n: "COMPRESS_LEN len \<in> {1, 2, 3}" using assms by (simp add: COMPRESS_LEN_def)
  then have "hd (len_head len) = hd (snd (ringbuf_headlen_compress len [0, 0, 0]))"
    by (simp add: len_head_def)
  then show ?thesis
    using pop_len_bytes_head [OF assms] headlen_round_trip [OF assms] n by (simp add: split_beta len_head_def)
qed

theorem headlen_encodes_witness:
  "ringbuf_headlen_decompress 2 (take 2 (snd (ringbuf_headlen_compress 300 [0, 0, 0]))) = 300"
  using headlen_encodes [of 300] by (simp add: split_beta COMPRESS_LEN_def)

section \<open>Queues\<close>










end
