(* ===== verification/K_Live.thy ===== *)
theory K_Live
  imports K_Step
begin

text \<open>
  Progress: a timeout ends after as many ticks as it has left, a task that waits for a semaphore is served
  after as many gives as its place in the list, and a mutex goes to the most urgent waiting
  task when its owner unlocks it.
\<close>

section \<open>Timeouts\<close>

lemma time_slice_update_sel [simp]:
  "tick_head (tcb (time_slice_update s) t) = tick_head (tcb s t)"
  "tick_match (tcb (time_slice_update s) t) = tick_match (tcb s t)"
  "blk_state (tcb (time_slice_update s) t) = blk_state (tcb s t)"
  "g_tick_count (time_slice_update s) = g_tick_count s"
  by (simp_all add: time_slice_update_def ready_list_head_to_tail_def kupd Let_def split: list.split)

lemma tick_proc_waits:
  assumes k: "kernel_inv s" and t: "tick_head (tcb s t)" and n: "unat (ticks_left s t) = Suc (Suc n)"
  shows "tick_head (tcb (krhino_tick_proc s) t)" "unat (ticks_left (krhino_tick_proc s) t) = Suc n"
    "task_state (tcb (krhino_tick_proc s) t) = task_state (tcb s t)"
proof -
  have lt: "1 < ticks_left s t" using n by (simp add: word_less_nat_alt)
  then have nl: "\<not> ticks_left s t \<le> 1" by simp
  note u = tick_list_update_ok [OF k, of 1]
  show "tick_head (tcb (krhino_tick_proc s) t)" using u(3) [of t] t lt by (simp add: krhino_tick_proc_def)
  show "task_state (tcb (krhino_tick_proc s) t) = task_state (tcb s t)"
    using u(5) [of t] nl by (simp add: krhino_tick_proc_def)
  have "ticks_left (krhino_tick_proc s) t = ticks_left s t - 1"
    using u(2) u(5) [of t] nl by (simp add: krhino_tick_proc_def ticks_left_def)
  then show "unat (ticks_left (krhino_tick_proc s) t) = Suc n"
    using n lt by (simp add: unat_sub word_le_nat_alt word_less_nat_alt)
qed

lemma tick_proc_wakes:
  assumes k: "kernel_inv s" and t: "tick_head (tcb s t)" and n: "unat (ticks_left s t) = Suc 0"
  shows "woken s t (krhino_tick_proc s)"
proof -
  have "ticks_left s t = 1" using n by (metis unat_1 word_unat_eq_iff One_nat_def)
  then show ?thesis
    using tick_list_update_ok(4) [OF k _ t, of 1] by (simp add: krhino_tick_proc_def woken_def)
qed

lemma ticks_wake:
  assumes "kernel_inv s" and "tick_head (tcb s t)" and "unat (ticks_left s t) = Suc n"
  shows "woken s t ((krhino_tick_proc ^^ Suc n) s)"
    and "k \<le> n \<Longrightarrow> tick_head (tcb ((krhino_tick_proc ^^ k) s) t) \<and>
      task_state (tcb ((krhino_tick_proc ^^ k) s) t) = task_state (tcb s t)"
  using assms
proof (induction n arbitrary: s k)
  case 0
  {
    case 1
    then show ?case using tick_proc_wakes [OF 1(1,2)] by simp
  next
    case 2
    then show ?case by simp
  }
next
  case (Suc n)
  {
    case 1
    note w = tick_proc_waits [OF 1(1,2,3)]
    have "woken (krhino_tick_proc s) t ((krhino_tick_proc ^^ Suc n) (krhino_tick_proc s))"
      by (rule Suc.IH(1) [OF kernel_inv_tick_proc [OF 1(1)] w(1,2)])
    then show ?case using w(3) by (simp add: woken_def pended_def funpow_swap1)
  next
    case 2
    note w = tick_proc_waits [OF 2(2,3,4)]
    show ?case
    proof (cases k)
      case (Suc m)
      then show ?thesis
        using Suc.IH(2) [of m, OF _ kernel_inv_tick_proc [OF 2(2)] w(1,2)] 2(1) w(3) by (simp add: funpow_swap1)
    qed (use 2 in simp)
  }
qed

section \<open>Semaphores\<close>

text \<open>Each give serves the first task of the list, and leaves the others in their order.\<close>

lemma sem_give_first:
  assumes s: "sys_inv s" and o: "obj_type (blk_objs s sem) = RHINO_SEM_OBJ_TYPE"
    and l: "blk_list (blk_objs s sem) = t # ts"
  defines "s' \<equiv> snd (krhino_sem_give sem s)"
  shows "sys_inv s'" "obj_type (blk_objs s' sem) = RHINO_SEM_OBJ_TYPE" "blk_list (blk_objs s' sem) = ts"
    "task_state (tcb s' t) = (if task_state (tcb s t) = K_PEND then K_RDY else K_SUSPENDED)"
    "blk_state (tcb s' t) = BLK_FINISH" "u \<noteq> t \<Longrightarrow> tcb s' u = tcb s u"
proof -
  have e: "s' = core_sched (unpend BLK_FINISH t s)" by (simp add: s'_def sem_give_wakes [OF s o l])
  have k: "kinv (unpend BLK_FINISH t s)" by (rule unpend_kinv [OF s l])
  have f: "blk_objs s' = blk_objs (unpend BLK_FINISH t s)" "tcb s' = tcb (unpend BLK_FINISH t s)"
    using k by (simp_all add: e)
  show "sys_inv s'" unfolding s'_def krhino_sem_give_def by (rule sys_inv_sem_give [OF s])
  show "obj_type (blk_objs s' sem) = RHINO_SEM_OBJ_TYPE" "blk_list (blk_objs s' sem) = ts"
    "task_state (tcb s' t) = (if task_state (tcb s t) = K_PEND then K_RDY else K_SUSPENDED)"
    "blk_state (tcb s' t) = BLK_FINISH" "u \<noteq> t \<Longrightarrow> tcb s' u = tcb s u"
    using o l by (simp_all add: f unpend_defs)
qed

lemma sem_gives_reach:
  assumes "sys_inv s" and "obj_type (blk_objs s sem) = RHINO_SEM_OBJ_TYPE" and "i < length (blk_list (blk_objs s sem))"
  defines "give \<equiv> \<lambda>s. snd (krhino_sem_give sem s)"
  shows "blk_list (blk_objs ((give ^^ Suc i) s) sem) = drop (Suc i) (blk_list (blk_objs s sem)) \<and>
    task_state (tcb ((give ^^ Suc i) s) (blk_list (blk_objs s sem) ! i)) \<in> {K_RDY, K_SUSPENDED} \<and>
    blk_state (tcb ((give ^^ Suc i) s) (blk_list (blk_objs s sem) ! i)) = BLK_FINISH"
  using assms(1-3)
proof (induction i arbitrary: s)
  case 0
  then obtain t ts where l: "blk_list (blk_objs s sem) = t # ts" by (cases "blk_list (blk_objs s sem)") auto
  show ?case using sem_give_first [OF 0(1,2) l] l by (simp add: give_def)
next
  case (Suc i)
  then obtain t ts where l: "blk_list (blk_objs s sem) = t # ts" by (cases "blk_list (blk_objs s sem)") auto
  note f = sem_give_first [OF Suc.prems(1,2) l]
  have gs: "give s = snd (krhino_sem_give sem s)" by (simp add: give_def)
  have "i < length (blk_list (blk_objs (give s) sem))" using Suc.prems(3) l f(3) by (simp add: give_def)
  from Suc.IH [OF f(1,2) [folded gs] this] show ?case
    using l f(3) by (simp add: gs funpow_swap1)
qed

section \<open>Mutexes\<close>

text \<open>Changing the priority of a ready task touches no other task and no object.\<close>

lemma pri_change_ready:
  assumes "task_state (tcb s t) = K_RDY"
  shows "blk_objs (snd (task_pri_change t p s)) = blk_objs s" "u \<noteq> t \<Longrightarrow> tcb (snd (task_pri_change t p s)) u = tcb s u"
  using assms
  by (simp_all add: task_pri_change_def pri_change_round_def ready_list_rm_def ready_list_add_head_def
      ready_list_add_tail_def kupd Let_def split: option.split)

lemma release_ready:
  assumes "task_state (tcb s t) = K_RDY"
  shows "blk_objs (mutex_release t rel s) = blk_objs s" "u \<noteq> t \<Longrightarrow> tcb (mutex_release t rel s) u = tcb s u"
proof -
  obtain p ms where l: "mutex_pri_look t rel s = (p, upd_task t (\<lambda>k. k\<lparr>mutex_list := ms\<rparr>) s)"
    by (simp add: mutex_pri_look_def split_beta)
  have "task_state (tcb (upd_task t (\<lambda>k. k\<lparr>mutex_list := ms\<rparr>) s) t) = K_RDY" using assms by (simp add: upd_task_def)
  note c = pri_change_ready [OF this]
  show "blk_objs (mutex_release t rel s) = blk_objs s" "u \<noteq> t \<Longrightarrow> tcb (mutex_release t rel s) u = tcb s u"
    using c by (simp_all add: mutex_release_def l) (simp_all add: upd_task_def)
qed

lemma mutex_lock_waits:
  assumes s: "sys_inv s" and g: "g_intrpt_nested_level s = 0" "g_sched_lock s = 0" "g_active_task s \<noteq> idle_tid"
    and time: "ticks \<noteq> RHINO_NO_WAIT" "ticks = RHINO_WAIT_FOREVER \<or> ticks < 2 ^ 63"
    and m: "is_mutex s m" "mutex_task (mutexes s m) = Some w" and w: "w \<noteq> g_active_task s"
    and dead: "(w, g_active_task s) \<notin> (waits_for s)\<^sup>*"
  defines "s' \<equiv> snd (krhino_mutex_lock m ticks s)"
  shows "fst (krhino_mutex_lock m ticks s) = Blocked" "g_active_task s \<in> set (blk_list (blk_objs s' m))"
    "mutex_task (mutexes s' m) = Some w" "prio (tcb s' w) \<le> prio (tcb s' (g_active_task s))"
proof -
  let ?t = "g_active_task s" and ?i = "inherit (g_active_task s) w s"
  note b = lock_blocks [OF s g time(2) m dead]
  have e: "krhino_mutex_lock m ticks s = (Blocked, core_sched (pend_on m ?t ticks ?i))"
    using krhino_mutex_lock_eq [OF s g(1) m(1), of ticks] m(2) w time(1) g(2) b(1) by simp
  then show "fst (krhino_mutex_lock m ticks s) = Blocked" by simp
  have k: "kernel_inv (pend_on m ?t ticks ?i)" using b(1,2) by simp
  have same: "tcb s' = tcb (pend_on m ?t ticks ?i)" "blk_objs s' = blk_objs (pend_on m ?t ticks ?i)"
    "mutexes s' = mutexes (pend_on m ?t ticks ?i)"
    unfolding s'_def e using kernel_invD(1) [OF k] by (simp_all add: core_sched_eq)
  show l: "?t \<in> set (blk_list (blk_objs s' m))" unfolding same
    by (simp add: pend_on_def Let_def)
  show o: "mutex_task (mutexes s' m) = Some w"
    unfolding same using m(2) prio_frame_simps [OF b(4)] by (simp add: pend_on_def Let_def)
  have "is_mutex s' m"
    using m(1) prio_frame_blk(3) [OF b(4), of m] unfolding is_mutex_def same by (simp add: pend_on_def Let_def)
  moreover have s's: "kernel_inv s'" unfolding s'_def e using kernel_inv_core_sched [OF k] by simp
  ultimately have "live (tcb s' w)" using o kernel_invD(3) unfolding mtx_struct_def by blast
  then have "pi_ok s' w" using kernel_invD(2) [OF s's] by (simp add: pi_inv_def)
  then have "?t \<in> waiters s' w" "prio (tcb s' w) = eff s' w"
    using l o \<open>is_mutex s' m\<close> by (auto simp: pi_ok_def owns_ok_def waiters_def)
  then show "prio (tcb s' w) \<le> prio (tcb s' ?t)" by (simp add: eff_def)
qed

lemma mutex_unlock_next:
  assumes s: "sys_inv s" and g: "g_intrpt_nested_level s = 0" and m: "is_mutex s m"
    and o: "mutex_task (mutexes s m) = Some (g_active_task s)" "owner_nested (mutexes s m) = 1"
    and l: "blk_list (blk_objs s m) = w # ws"
  defines "s' \<equiv> snd (krhino_mutex_unlock m s)"
  shows "fst (krhino_mutex_unlock m s) = RHINO_SUCCESS" "mutex_task (mutexes s' m) = Some w"
    "owner_nested (mutexes s' m) = 1" "blk_list (blk_objs s' m) = ws"
    "task_state (tcb s' w) = (if task_state (tcb s w) = K_PEND then K_RDY else K_SUSPENDED)"
    "\<forall>u\<in>set (w # ws). prio (tcb s w) \<le> prio (tcb s u)"
proof -
  let ?n = "upd_mutex m (\<lambda>x. x\<lparr>owner_nested := owner_nested x - 1\<rparr>) s"
  let ?r = "mutex_release (g_active_task s) (Some m) ?n"
  have rdy: "task_state (tcb ?n (g_active_task s)) = K_RDY" using sys_inv_rdy [OF s g] by simp
  have lr: "blk_list (blk_objs ?r m) = w # ws" using l by (simp add: release_ready(1) [OF rdy])
  have wa: "pended (tcb s w)" using kinv_first_pended [OF sys_invD(2) [OF s], of w m] l by simp
  then have "w \<noteq> g_active_task s" using sys_inv_rdy [OF s g] by (auto simp: pended_def)
  then have tw: "tcb ?r w = tcb s w" using release_ready(2) [OF rdy] by simp
  have e: "krhino_mutex_unlock m s = (RHINO_SUCCESS, core_sched (hand_over m w 1 ?r))"
    using krhino_mutex_unlock_eq [OF s g m o(1)] o(2) l lr by (simp add: Let_def)
  then show "fst (krhino_mutex_unlock m s) = RHINO_SUCCESS" by simp
  have kn: "kernel_inv ?n" by (rule kernel_inv_nested [OF sys_invD(1) [OF s]])
  have "kinv (hand_over m w 1 ?r)"
    by (rule kernel_invD(1) [OF unlock_hand_over [OF kn _ _ lr]]) (use m o in simp_all)
  then have same: "tcb s' = tcb (hand_over m w 1 ?r)" "blk_objs s' = blk_objs (hand_over m w 1 ?r)"
    "mutexes s' = mutexes (hand_over m w 1 ?r)"
    unfolding s'_def e by (simp_all add: core_sched_eq)
  show "mutex_task (mutexes s' m) = Some w" "owner_nested (mutexes s' m) = 1" "blk_list (blk_objs s' m) = ws"
    "task_state (tcb s' w) = (if task_state (tcb s w) = K_PEND then K_RDY else K_SUSPENDED)"
    unfolding same using lr tw by (simp_all add: hand_over_def take_mutex_def push_mutex_def set_owner_def unpend_defs)
  have "blk_policy (blk_objs s m) = BLK_POLICY_PRI"
    using kernel_invD(3) [OF sys_invD(1) [OF s]] m unfolding mtx_struct_def by blast
  then show "\<forall>u\<in>set (w # ws). prio (tcb s w) \<le> prio (tcb s u)"
    using first_waiting_most_urgent [OF sys_invD(2) [OF s] _ l] by blast
qed

end
