(* ===== verification/K_Calls.thy ===== *)
theory K_Calls
  imports K_Examples K_Live
begin

text \<open>
  What holds of the calls of the kernel one by one: when the running task can change, what a call refuses, what a deleted object
  leaves to the tasks that waited for it, suspending and resuming.
\<close>

section \<open>When the running task changes\<close>

definition may_switch :: "kstate \<Rightarrow> kstate \<Rightarrow> bool" where
  "may_switch s s' \<longleftrightarrow> g_active_task s' = g_active_task s \<or> g_sched_lock s' = 0 \<and> g_intrpt_nested_level s' = 0"

lemma may_switch_ctx [simp]: "ctx s' = ctx s \<Longrightarrow> may_switch s s'"
  by (simp add: may_switch_def ctx_def)

lemma may_switch_sched: "g_active_task s' = g_active_task s \<Longrightarrow> may_switch s (core_sched s')"
  by (simp add: may_switch_def core_sched_def Let_def preferred_cpu_ready_task_get_def cpu_task_switch_def fault_def word_gt_0
      split: list.split)

lemma may_switch_core [simp]: "ctx s' = ctx s \<Longrightarrow> may_switch s (core_sched s')"
  by (rule may_switch_sched) (simp add: ctx_def)

lemma may_switch_refl [simp]: "may_switch s s"
  by (simp add: may_switch_def)

lemma ctx_event_set_loop [simp]: "ctx (event_set_loop ev cur ts s) = ctx s"
proof (induction ts arbitrary: s)
  case (Cons t ts)
  show ?case unfolding event_set_loop.simps Let_def Cons.IH by simp
qed simp

lemma ctx_upd_sem [simp]: "ctx (upd_sem x f s) = ctx s"
  by (simp add: upd_sem_def)

lemma ctx_write_u32 [simp]: "ctx (write_u32 a v s) = ctx s"
  by (simp add: write_u32_def)

lemma ctx_end_proc [simp]: "ctx (snd (pend_state_end_proc t s)) = ctx s"
  by (simp add: pend_state_end_proc_def split: blk_state_t.split)

lemma may_switch_sem:
  "may_switch s (snd (sem_give x w s))" "may_switch s (snd (krhino_sem_take x ticks s))" "may_switch s (snd (krhino_sem_del x s))"
  "may_switch s (snd (krhino_sem_count_set x n s))" "may_switch s (snd (sem_create x n fl s))"
  "may_switch s (snd (krhino_sem_take_end s))"
  by (simp_all add: sem_give_def krhino_sem_take_def krhino_sem_del_def krhino_sem_count_set_def sem_create_def krhino_sem_take_end_def
      Let_def ctx_wake_all split: list.split)

lemma may_switch_event:
  "may_switch s (snd (krhino_event_create x f s))" "may_switch s (snd (krhino_event_del x s))"
  "may_switch s (snd (krhino_event_get x f opt a ticks s))" "may_switch s (snd (krhino_event_get_end s))"
  "may_switch s (snd (krhino_event_set x f opt s))"
  by (simp_all add: krhino_event_create_def event_create_def krhino_event_del_def krhino_event_get_def krhino_event_get_end_def
      krhino_event_set_def event_set_def Let_def ctx_wake_all split_beta )

lemma may_switch_queue:
  "may_switch s (snd (krhino_queue_create x start n s))" "may_switch s (snd (krhino_queue_del x s))"
  "may_switch s (snd (msg_send x v wa s))" "may_switch s (snd (krhino_queue_recv x ticks p s))"
  "may_switch s (snd (krhino_queue_recv_end p s))" "may_switch s (snd (krhino_queue_flush x s))"
  by (simp_all add: krhino_queue_create_def queue_create_eq krhino_queue_del_def msg_send_def task_msg_recv_fun krhino_queue_recv_def
      krhino_queue_recv_end_def krhino_queue_flush_def Let_def ctx_wake_all split_beta split: list.split)

lemma may_switch_buf_queue:
  "may_switch s (snd (buf_queue_create x buf sz mx flag type s))" "may_switch s (snd (krhino_buf_queue_del x s))"
  "may_switch s (snd (buf_queue_send x p n s))" "may_switch s (snd (krhino_buf_queue_recv x ticks p z s))"
  "may_switch s (snd (krhino_buf_queue_recv_end z s))" "may_switch s (snd (krhino_buf_queue_flush x s))"
  by (simp_all add: buf_queue_create_eq krhino_buf_queue_del_def buf_queue_send_def krhino_buf_queue_recv_def
      krhino_buf_queue_recv_end_def krhino_buf_queue_flush_def Let_def ctx_wake_all split_beta
      split: list.split)

lemma may_switch_mutex:
  "may_switch s (snd (krhino_mutex_create x s))" "may_switch s (snd (krhino_mutex_del d s))"
  "may_switch s (snd (krhino_mutex_lock x ticks s))" "may_switch s (snd (krhino_mutex_lock_end s))"
  "may_switch s (snd (krhino_mutex_unlock x s))"
  by (simp_all add: krhino_mutex_create_def mutex_create_def krhino_mutex_del_def krhino_mutex_lock_def krhino_mutex_lock_end_def
      krhino_mutex_unlock_def Let_def ctx_wake_all split_beta split: list.split option.split)

lemma may_switch_task:
  "may_switch s (snd (krhino_task_sleep ticks s))"
  "may_switch s (snd (krhino_task_sleep_end s))"
  "may_switch s (snd (krhino_task_yield s))" "may_switch s (snd (krhino_task_suspend d s))"
  "may_switch s (snd (krhino_task_resume t s))" "may_switch s (snd (snd (krhino_task_pri_change t p s)))"
  "may_switch s (snd (krhino_task_time_slice_set t n s))" "may_switch s (snd (krhino_sched_policy_set t pol s))"
  by (simp_all add: krhino_task_sleep_def krhino_task_sleep_end_def krhino_task_yield_def
      krhino_task_suspend_def task_suspend_def krhino_task_resume_def task_resume_def krhino_task_pri_change_def 
      krhino_task_time_slice_set_def krhino_sched_policy_set_def Let_def split_beta
      split: option.split task_stat_t.split)

lemma may_switch_task_create: "may_switch s (snd (krhino_task_create t pri ticks stk run s))"
proof -
  have a: "g_active_task (ready_list_add_tail t s) = g_active_task s" for s
    using ctxD(3) [of "ready_list_add_tail t s" s] by simp
  have m: "may_switch s s'" if "g_active_task s' = g_active_task s" for s' using that by (simp add: may_switch_def)
  show ?thesis by (simp add: krhino_task_create_def task_create_def Let_def may_switch_sched m a)
qed

lemma ctx_task_mutex_free [simp]: "ctx (task_mutex_free t s) = ctx s"
proof -
  have "ctx (task_mutex_free_loop ms s) = ctx s" for ms
    by (induction ms arbitrary: s) (simp_all add: Let_def split: list.split)
  then show ?thesis by (simp add: task_mutex_free_def)
qed

lemma may_switch_task_del: "may_switch s (snd (krhino_task_del d s))"
  by (simp add: krhino_task_del_def Let_def split_beta split: option.split task_stat_t.split)

lemma may_switch_task_sem:
  "may_switch s (snd (krhino_task_sem_create d x n s))" "may_switch s (snd (krhino_task_sem_del t s))"
  "may_switch s (snd (krhino_task_sem_give t s))" "may_switch s (snd (krhino_task_sem_take ticks s))"
  "may_switch s (snd (krhino_task_sem_count_set t n s))"
proof -
  have "ctx (snd (sem_create x n fl s)) = ctx s" for fl by (simp add: sem_create_def Let_def)
  then show "may_switch s (snd (krhino_task_sem_create d x n s))"
    by (simp add: krhino_task_sem_create_def krhino_sem_create_def split_beta Let_def split: option.split)
qed (simp_all add: krhino_task_sem_del_def krhino_task_sem_give_def krhino_task_sem_take_def krhino_task_sem_count_set_def
    krhino_sem_give_def may_switch_sem split: option.split)

lemma may_switch_before: "may_switch s' s'' \<Longrightarrow> ctx s' = ctx s \<Longrightarrow> may_switch s s''"
  by (simp add: may_switch_def ctx_def)

lemma ctx_timers [simp]: "ctx (s\<lparr>timers := tm\<rparr>) = ctx s" "ctx (s\<lparr>g_timer_head := th\<rparr>) = ctx s" "ctx (s\<lparr>g_timer_count := c\<rparr>) = ctx s"
  by (simp_all add: ctx_def)

lemma may_switch_cb_send: "ctx s' = ctx s \<Longrightarrow> may_switch s (snd (cb_send at f s'))"
  unfolding cb_send_def krhino_buf_queue_send_def by (rule may_switch_before [OF may_switch_buf_queue(3)]) simp

lemma ctx_cmd_proc [simp]: "ctx (cmd_proc cb cmd s) = ctx s"
  by (simp add: cmd_proc_def timer_arm_def timer_list_rm_def upd_timer_def Let_def)

lemma may_switch_timer:
  "may_switch s (snd (krhino_timer_start at t s))" "may_switch s (snd (krhino_timer_stop at t s))"
  "may_switch s (snd (krhino_timer_del at t s))" "may_switch s (snd (krhino_timer_change at t first round s))"
  "may_switch s (snd (krhino_timer_arg_change at t arg s))" "may_switch s (snd (krhino_timer_arg_change_auto at t arg s))"
  "may_switch s (snd (krhino_timer_create at t cb first round arg auto s))" "may_switch s (timer_cmd_proc q s)"
  by (simp_all add: krhino_timer_start_def krhino_timer_stop_def krhino_timer_del_def krhino_timer_change_def
      krhino_timer_arg_change_def krhino_timer_arg_change_auto_def krhino_timer_create_def timer_create_def upd_timer_def
      timer_cmd_proc_def may_switch_cb_send Let_def)

lemma may_switch_sys:
  "may_switch s (snd (krhino_sched_disable s))" "may_switch s (snd (krhino_sched_enable s))"
  "may_switch s (snd (krhino_intrpt_enter s))" "may_switch s (krhino_intrpt_exit s)" "may_switch s (krhino_tick_proc s)"
proof -
  show "may_switch s (krhino_intrpt_exit s)"
    by (simp add: krhino_intrpt_exit_def may_switch_def Let_def preferred_cpu_ready_task_get_def cpu_intrpt_switch_def fault_def
        k_err_proc_def word_gt_0 split: list.split)
qed (simp_all add: krhino_sched_disable_def krhino_sched_enable_def krhino_intrpt_enter_def Let_def may_switch_sched,
  simp_all add: may_switch_def)

text \<open>C20. No call switches to another task while the scheduler is locked or an interrupt is being served: if the running task
  differs after a call, interrupt or tick, then the scheduler is unlocked and no interrupt is left.\<close>

theorem no_switch_when_locked:
  "g_active_task (exec c s) = g_active_task s \<or> g_sched_lock (exec c s) = 0 \<and> g_intrpt_nested_level (exec c s) = 0"
proof -
  have "may_switch s (exec c s)"
    by (cases c)
      (simp_all add: may_switch_sem may_switch_event may_switch_queue may_switch_buf_queue may_switch_mutex may_switch_task
        may_switch_task_create may_switch_task_del may_switch_task_sem may_switch_timer may_switch_sys krhino_sem_create_def
        krhino_sem_give_def krhino_sem_give_all_def krhino_queue_back_send_def krhino_queue_all_send_def krhino_buf_queue_create_def
        krhino_fix_buf_queue_create_def krhino_buf_queue_send_def)
  then show ?thesis by (simp add: may_switch_def)
qed



section \<open>Deleted objects\<close>

text \<open>The loop that removes the waiting tasks of a deleted object tells each of them so.\<close>

lemma wake_all_rm_told:
  assumes k: "kinv s"
  shows "kinv (wake_all pend_task_rm ob s)" "blk_list (blk_objs (wake_all pend_task_rm ob s) ob) = []"
    "t \<in> set (blk_list (blk_objs s ob)) \<Longrightarrow>
      blk_state (tcb (wake_all pend_task_rm ob s) t) = BLK_DEL \<and> blk_obj (tcb (wake_all pend_task_rm ob s) t) = None \<and>
      task_state (tcb (wake_all pend_task_rm ob s) t) = (if task_state (tcb s t) = K_PEND then K_RDY else K_SUSPENDED)"
proof -
  let ?told = "\<lambda>s' t. blk_state (tcb s' t) = BLK_DEL \<and> blk_obj (tcb s' t) = None \<and>
    task_state (tcb s' t) = (if task_state (tcb s t) = K_PEND then K_RDY else K_SUSPENDED)"
  let ?P = "\<lambda>s'. \<forall>t\<in>set (blk_list (blk_objs s ob)). if t \<in> set (blk_list (blk_objs s' ob)) then tcb s' t = tcb s t else ?told s' t"
  have "kinv (wake_all pend_task_rm ob s) \<and> ?P (wake_all pend_task_rm ob s) \<and> blk_list (blk_objs (wake_all pend_task_rm ob s) ob) = []"
  proof (rule wake_all_induct [OF k])
    show "?P s" by simp
    fix t s' assume k': "kinv s'" and P: "?P s'" and t: "t \<in> set (blk_list (blk_objs s' ob))"
    have p: "pended (tcb s' t)" using kinv_first_pended [OF k' t] by simp
    note e = pend_task_rm_eq [OF kinvD(3) [OF k'] p]
    have d: "distinct (blk_list (blk_objs s' ob))" using k' by (simp add: kinv_def inv_blk_def)
    show "kinv (pend_task_rm t s') \<and> ?P (pend_task_rm t s') \<and>
        blk_list (blk_objs (pend_task_rm t s') ob) = remove1 t (blk_list (blk_objs s' ob))"
      using kinv_pend_task_rm [OF k' p] P t d by (auto simp: e unpend_defs)
  qed
  then show "kinv (wake_all pend_task_rm ob s)" "blk_list (blk_objs (wake_all pend_task_rm ob s) ob) = []"
    "t \<in> set (blk_list (blk_objs s ob)) \<Longrightarrow>
      blk_state (tcb (wake_all pend_task_rm ob s) t) = BLK_DEL \<and> blk_obj (tcb (wake_all pend_task_rm ob s) t) = None \<and>
      task_state (tcb (wake_all pend_task_rm ob s) t) = (if task_state (tcb s t) = K_PEND then K_RDY else K_SUSPENDED)"
    by auto
qed

text \<open>C31. Deleting a semaphore releases every task that waits for it: none is left in its list, each is ready (or stays suspended),
  and each will return from its take with the status that the object was deleted.\<close>

theorem sem_del_releases:
  assumes "sys_inv s" and "obj_type (blk_objs s x) = RHINO_SEM_OBJ_TYPE" and "sem_alloc_flag (sems s x) = K_OBJ_STATIC_ALLOC"
    and "g_intrpt_nested_level s = 0"
  defines "s' \<equiv> snd (krhino_sem_del x s)"
  shows "fst (krhino_sem_del x s) = RHINO_SUCCESS \<and> blk_list (blk_objs s' x) = [] \<and> obj_type (blk_objs s' x) = RHINO_OBJ_TYPE_NONE \<and>
    (\<forall>t\<in>set (blk_list (blk_objs s x)). fst (pend_state_end_proc t s') = RHINO_BLK_DEL \<and>
      task_state (tcb s' t) = (if task_state (tcb s t) = K_PEND then K_RDY else K_SUSPENDED))"
proof -
  let ?r = "upd_blk x (\<lambda>b. b\<lparr>obj_type := RHINO_OBJ_TYPE_NONE\<rparr>) s"
  let ?w = "wake_all pend_task_rm x ?r"
  have m: "\<not> is_mutex s x" using assms(2) by (simp add: is_mutex_def)
  have k: "kinv ?r" by (rule kernel_invD(1) [OF kernel_inv_retype [OF sys_invD(1) [OF assms(1)] m]])
  note w = wake_all_rm_told [OF k, where ob = x]
  have d: "krhino_sem_del x s = (RHINO_SUCCESS, core_sched ?w)" using assms(2-4) by (simp add: krhino_sem_del_def)
  have s': "tcb s' = tcb ?w" "blk_objs s' = blk_objs ?w" using w(1) by (simp_all add: s'_def d core_sched_eq)
  have "obj_type (blk_objs ?w x) = RHINO_OBJ_TYPE_NONE" by (rule sys_inv_del(4) [OF assms(1) m])
  then show ?thesis using w(2,3) by (simp add: d s' pend_state_end_proc_def upd_blk_def)
qed

theorem sem_del_releases_witness:
  "fst (krhino_sem_del 10 ex_wait) = RHINO_SUCCESS \<and> fst (pend_state_end_proc 1 (snd (krhino_sem_del 10 ex_wait))) = RHINO_BLK_DEL"
proof -
  have s: "sys_inv ex_wait" by (rule goodD(1) [OF reachable_good [OF reachable_ex_wait]])
  have e: "obj_type (blk_objs ex_wait 10) = RHINO_SEM_OBJ_TYPE" "sem_alloc_flag (sems ex_wait 10) = K_OBJ_STATIC_ALLOC"
    "g_intrpt_nested_level ex_wait = 0" "1 \<in> set (blk_list (blk_objs ex_wait 10))"
    by simp_all
  show ?thesis using sem_del_releases [OF s e(1-3)] e(4) by simp
qed

section \<open>Suspending and resuming\<close>

lemma tcb_core_sched: "tcb (core_sched s) = tcb s"
  by (simp add: core_sched_def preferred_cpu_ready_task_get_def cpu_task_switch_def fault_def Let_def split: list.split)

text \<open>C32. Resuming undoes suspending: a task that was suspended once more and resumed once is in the state it was in,
  ready, sleeping, waiting or suspended as many times as before.\<close>

theorem suspend_resume:
  assumes "sys_inv s" and "live (tcb s t)" and "prio (tcb s t) \<noteq> RHINO_IDLE_PRI" and "suspend_count (tcb s t) \<noteq> - 1"
    and "\<not> (t = g_active_task s \<and> g_sched_lock s > 0)"
  defines "s1 \<equiv> snd (krhino_task_suspend (Some t) s)"
  defines "s2 \<equiv> snd (krhino_task_resume t s1)"
  shows "fst (krhino_task_suspend (Some t) s) = RHINO_SUCCESS \<and> fst (krhino_task_resume t s1) = RHINO_SUCCESS \<and>
    task_state (tcb s1 t) \<in> {K_SUSPENDED, K_SLEEP_SUSPENDED, K_PEND_SUSPENDED} \<and>
    task_state (tcb s2 t) = task_state (tcb s t) \<and> suspend_count (tcb s2 t) = suspend_count (tcb s t)"
proof -
  note k = sys_invD(2) [OF assms(1)]
  have t: "t \<noteq> idle_tid" using assms(3) k by (auto simp: kinv_def inv_idle_def)
  have c: "suspended (tcb s t) \<longleftrightarrow> suspend_count (tcb s t) \<noteq> 0" using kinv_suspended [OF k assms(2)] by (simp add: word_gt_0)
  have e: "krhino_task_suspend (Some t) s = task_suspend t s" using assms(3) by (simp add: krhino_task_suspend_def)
  have n: "suspend_count (tcb s t) + 1 - 1 = suspend_count (tcb s t)" by simp
  show ?thesis
    using assms(2,4,5) c unfolding s2_def s1_def e krhino_task_resume_def
    by (cases "task_state (tcb s t)")
      (auto simp: task_suspend_eq [OF k t] task_resume_eq tcb_core_sched suspend_more_def resume_ready_def Let_def kstates)
qed

theorem suspend_resume_witness:
  "fst (krhino_task_suspend (Some 1) ex_sleep) = RHINO_SUCCESS \<and>
   task_state (tcb (snd (krhino_task_resume 1 (snd (krhino_task_suspend (Some 1) ex_sleep)))) 1) = K_SLEEP"
proof -
  have s: "sys_inv ex_sleep" by (rule goodD(1) [OF reachable_good [OF reachable_ex_sleep]])
  have e: "live (tcb ex_sleep 1)" "prio (tcb ex_sleep 1) \<noteq> RHINO_IDLE_PRI" "suspend_count (tcb ex_sleep 1) \<noteq> - 1"
    "\<not> (1 = g_active_task ex_sleep \<and> g_sched_lock ex_sleep > 0)" "task_state (tcb ex_sleep 1) = K_SLEEP"
    by (simp_all add: kconfig live_def idle_tid_def fresh_tcb_def zero_task_def Let_def)
  show ?thesis using suspend_resume [OF s e(1-4)] e(5) by simp
qed

end
