(* ===== verification/K_TimerInv.thy ===== *)
theory K_TimerInv
  imports K_SysCalls
begin

text \<open>
  The timer list. \<open>timer_inv\<close> ties the list to the state of the timers; \<open>on_time\<close> says that no timer is overdue and the list is
  in the order of the time that remains. The functions registered for the timers are a parameter with the contract \<open>timer_fun\<close>: they call the
  kernel, which keeps its invariant, and change timers only by commands, which do not touch the list.
\<close>

interpretation tlist: keyed_insert "\<lambda>q. timer_match (tm q) - now" "\<lambda>q. timer_remain (tm q)" "timer_list_pri_insert tm now"
  for tm :: "oid \<Rightarrow> ktimer_t" and now :: tick_t
  by unfold_locales auto

definition timer_inv :: "kstate \<Rightarrow> bool" where
  "timer_inv s \<longleftrightarrow> distinct (g_timer_head s) \<and>
     (\<forall>t. (to_head (timers s t) \<longleftrightarrow> t \<in> set (g_timer_head s)) \<and> (timer_state (timers s t) = TIMER_ACTIVE \<longleftrightarrow> t \<in> set (g_timer_head s)))"

definition left :: "kstate \<Rightarrow> oid \<Rightarrow> tick_t" where
  "left s q = timer_match (timers s q) - g_timer_count s"

definition on_time :: "kstate \<Rightarrow> bool" where
  "on_time s \<longleftrightarrow> sorted (map (left s) (g_timer_head s)) \<and> (\<forall>q\<in>set (g_timer_head s). left s q < 2 ^ 63)"

definition at_tick :: "kstate \<Rightarrow> kstate" where
  "at_tick s = s\<lparr>g_timer_count := g_tick_count s\<rparr>"

definition due :: "kstate \<Rightarrow> oid list" where
  "due s = filter (\<lambda>q. timer_due (g_timer_count s) (timers s q)) (g_timer_head s)"

lemma sint_le_zero: "sint (x::tick_t) \<le> 0 \<longleftrightarrow> x = 0 \<or> 2 ^ 63 \<le> x"
proof -
  have u: "uint x < 2 ^ 64" using uint_lt2p [of x] by simp
  have "uint x div 2 ^ 63 = (if 2 ^ 63 \<le> uint x then 1 else 0)"
    using u by (auto intro!: int_div_pos_eq [where r = "uint x - 2 ^ 63"])
  then have "bit (uint x) 63 \<longleftrightarrow> 2 ^ 63 \<le> uint x" by (simp add: bit_iff_odd)
  then have n: "sint x < 0 \<longleftrightarrow> 2 ^ 63 \<le> x"
    by (simp add: sint_uint signed_take_bit_negative_iff word_le_def)
  have "x = 0" if "sint x = 0"
  proof -
    have "of_int (sint x) = x" by simp
    then show ?thesis unfolding that by simp
  qed
  then have "sint x = 0 \<longleftrightarrow> x = 0" by auto
  with n show ?thesis by (auto simp: le_less)
qed

lemma timer_due_left: "timer_due (g_timer_count s) (timers s q) \<longleftrightarrow> left s q = 0 \<or> 2 ^ 63 \<le> left s q"
  by (simp add: timer_due_def left_def sint_le_zero)

section \<open>The list\<close>

lemma timer_inv_arm:
  assumes "timer_inv s" and "q \<notin> set (g_timer_head s)"
  shows "timer_inv (upd_timer q (\<lambda>t. t\<lparr>timer_state := TIMER_ACTIVE\<rparr>) (timer_arm q n s))"
  using assms by (auto simp: timer_inv_def timer_arm_def upd_timer_def Let_def tlist.distinct_ins)

lemma timer_inv_rm:
  assumes "timer_inv s"
  shows "timer_inv (upd_timer q (\<lambda>t. t\<lparr>timer_state := TIMER_DEACTIVE\<rparr>) (timer_list_rm q s))"
  using assms by (auto simp: timer_inv_def timer_list_rm_def upd_timer_def Let_def)

lemma timer_inv_again:
  assumes "timer_inv s" and "q \<in> set (g_timer_head s)"
  shows "timer_inv (timer_again q s)"
  using assms by (auto simp: timer_inv_def timer_again_def timer_arm_def timer_list_rm_def upd_timer_def Let_def tlist.distinct_ins)

lemma timer_inv_fields:
  assumes "timer_inv s" and "\<And>t. to_head (f t) = to_head t" and "\<And>t. timer_state (f t) = timer_state t"
  shows "timer_inv (upd_timer q f s)"
  using assms by (auto simp: timer_inv_def upd_timer_def)

lemma timer_inv_idle: "timer_inv s \<Longrightarrow> timer_state (timers s q) \<noteq> TIMER_ACTIVE \<Longrightarrow> q \<notin> set (g_timer_head s)"
  by (auto simp: timer_inv_def)

lemma timer_inv_cmd: "timer_inv s \<Longrightarrow> timer_inv (cmd_proc cb cmd s)"
  by (simp add: cmd_proc_def Let_def timer_inv_rm timer_inv_fields timer_inv_arm timer_inv_idle)
    (simp add: timer_inv_def k_err_proc_def)

lemma node_next_in: "node_next xs x = Some y \<Longrightarrow> y \<in> set xs"
  by (induction xs x rule: node_next.induct) (auto split: if_splits list.splits)

lemma again_due:
  assumes "timer_inv s" and "q \<in> set (g_timer_head s)" and "round_ticks (timers s q) < 2 ^ 63"
  shows "set (due (timer_again q s)) = set (due s) - {q}" "g_timer_count (timer_again q s) = g_timer_count s"
    "set (g_timer_head (timer_again q s)) = (if round_ticks (timers s q) > 0 then set (g_timer_head s) else set (g_timer_head s) - {q})"
    "r \<noteq> q \<Longrightarrow> timers (timer_again q s) r = timers s r"
    "round_ticks (timers (timer_again q s) r) = round_ticks (timers s r)"
  using assms
  by (auto simp: due_def timer_inv_def timer_again_def timer_arm_def timer_list_rm_def upd_timer_def Let_def timer_due_def sint_le_zero
      word_gt_0 not_le)

lemma node_next_other: "distinct xs \<Longrightarrow> node_next xs x = Some y \<Longrightarrow> y \<noteq> x"
  by (induction xs x rule: node_next.induct) (auto split: if_splits list.splits)

text \<open>The next timer of the loop is in the list.\<close>

lemma next_in_list:
  assumes "timer_inv s" and "q \<in> set (g_timer_head s)" and "round_ticks (timers s q) < 2 ^ 63"
    and "node_next (if to_head (timers (timer_again q s) q) then g_timer_head (timer_again q s) else g_timer_head s) q = Some y"
  shows "y \<in> set (g_timer_head (timer_again q s))"
proof -
  have i: "timer_inv (timer_again q s)" by (rule timer_inv_again [OF assms(1,2)])
  show ?thesis
  proof (cases "to_head (timers (timer_again q s) q)")
    case True
    then show ?thesis using assms(4) node_next_in by metis
  next
    case False
    then have "y \<in> set (g_timer_head s)" "y \<noteq> q"
      using assms(1,4) node_next_in [of "g_timer_head s" q y] node_next_other [of "g_timer_head s" q y] by (auto simp: timer_inv_def)
    then show ?thesis using again_due(3) [OF assms(1-3)] by simp
  qed
qed

text \<open>What happens to a timer that is due: a periodic one starts again, the other stops.\<close>

definition fired :: "tick_t \<Rightarrow> ktimer_t \<Rightarrow> ktimer_t" where
  "fired now t = (if round_ticks t > 0 then t\<lparr>timer_match := now + round_ticks t, timer_remain := round_ticks t, to_head := True\<rparr>
     else t\<lparr>to_head := False, timer_state := TIMER_DEACTIVE\<rparr>)"

lemma again_fired:
  "timer_inv s \<Longrightarrow> q \<in> set (g_timer_head s) \<Longrightarrow> timers (timer_again q s) = (timers s)(q := fired (g_timer_count s) (timers s q))"
  by (auto simp: timer_inv_def timer_again_def timer_arm_def timer_list_rm_def upd_timer_def Let_def fired_def fun_eq_iff
      intro!: ktimer_t.equality)

lemma on_time_again:
  assumes "timer_inv s" and "q \<in> set (g_timer_head s)" and "round_ticks (timers s q) < 2 ^ 63" and "on_time s"
  shows "on_time (timer_again q s)"
proof -
  let ?h = "remove1 q (g_timer_head s)" and ?s = "timer_again q s"
  have t: "to_head (timers s q)" "distinct (g_timer_head s)" using assms(1,2) by (auto simp: timer_inv_def)
  note f = again_fired [OF assms(1,2)] and c = again_due(2) [OF assms(1-3)]
  have l: "left ?s r = left s r" if "r \<in> set ?h" for r using that t by (simp add: left_def f c)
  have so: "sorted (map (left ?s) ?h)"
    using sorted_remove1_map [of "left s" "g_timer_head s" q] assms(4) l by (simp add: on_time_def cong: sorted_map_cong_set)
  have head: "g_timer_head ?s = (if round_ticks (timers s q) > 0 then timer_list_pri_insert (timers ?s) (g_timer_count ?s) q ?h else ?h)"
    using t by (simp add: timer_again_def timer_arm_def timer_list_rm_def upd_timer_def Let_def)
  have "sorted (map (left ?s) (timer_list_pri_insert (timers ?s) (g_timer_count ?s) q ?h))" if "round_ticks (timers s q) > 0"
    unfolding left_def
    by (rule tlist.sorted_ins) (use that so in \<open>simp_all add: f c fired_def left_def [abs_def]\<close>)
  moreover have "left ?s q < 2 ^ 63" if "round_ticks (timers s q) > 0"
    using that assms(3) by (simp add: left_def f c fired_def)
  moreover have "left ?s r < 2 ^ 63" if "r \<in> set ?h" for r using that l assms(4) t by (simp add: on_time_def)
  ultimately have "\<forall>r\<in>set (g_timer_head ?s). left ?s r < 2 ^ 63" "sorted (map (left ?s) (g_timer_head ?s))"
    unfolding head using so by (simp_all split: if_split)
  then show ?thesis unfolding on_time_def by blast
qed

section \<open>The loop over the due timers\<close>

definition timers_ok :: "kstate \<Rightarrow> bool" where
  "timers_ok s \<longleftrightarrow> good s \<and> timer_inv s \<and> (\<forall>q. round_ticks (timers s q) < 2 ^ 63)"

text \<open>What a pass over the list that starts at \<open>s\<close> has reached at \<open>s'\<close>.\<close>

definition passed :: "kstate \<Rightarrow> kstate \<Rightarrow> bool" where
  "passed s s' \<longleftrightarrow> timers_ok s' \<and> set (due s') \<subseteq> set (due s) \<and> g_timer_count s' = g_timer_count s \<and> g_tick_count s' = g_tick_count s \<and>
     (on_time s \<longrightarrow> on_time s') \<and>
     (\<forall>r. timers s' r = (if r \<in> set (due s) - set (due s') then fired (g_timer_count s) (timers s r) else timers s r))"

lemma passed_refl: "timers_ok s \<Longrightarrow> passed s s"
  by (simp add: passed_def)

lemma passed_timers:
  "passed s s' \<Longrightarrow> timers s' r = (if r \<in> set (due s) \<and> r \<notin> set (due s') then fired (g_timer_count s) (timers s r) else timers s r)"
  by (simp add: passed_def)

lemma passed_due: "passed s s' \<Longrightarrow> r \<in> set (due s') \<Longrightarrow> r \<in> set (due s)"
  unfolding passed_def by blast

lemma passed_trans:
  assumes p: "passed s s'" "passed s' s''"
  shows "passed s s''"
proof -
  have "timers s'' r = (if r \<in> set (due s) \<and> r \<notin> set (due s'') then fired (g_timer_count s) (timers s r) else timers s r)" for r
  proof (cases "r \<in> set (due s')")
    case True
    then show ?thesis
      using passed_timers [OF p(1), of r] passed_timers [OF p(2), of r] passed_due [OF p(1), of r] p(1) by (simp add: passed_def)
  next
    case False
    then show ?thesis using passed_timers [OF p(1), of r] passed_timers [OF p(2), of r] passed_due [OF p(2), of r] by auto
  qed
  moreover have "set (due s'') \<subseteq> set (due s)" using passed_due [OF p(1)] passed_due [OF p(2)] by blast
  moreover have "timers_ok s''" "g_timer_count s'' = g_timer_count s" "g_tick_count s'' = g_tick_count s" "on_time s \<longrightarrow> on_time s''"
    using p by (simp_all add: passed_def)
  ultimately show ?thesis unfolding passed_def Diff_iff by blast
qed

lemma tick_again: "g_tick_count (timer_again q s) = g_tick_count s"
  by (simp add: timer_again_def timer_arm_def timer_list_rm_def upd_timer_def Let_def)

lemma at_tick_id: "g_timer_count s = g_tick_count s \<Longrightarrow> at_tick s = s"
  by (simp add: at_tick_def)

lemma timers_ok_at_tick: "timers_ok s \<Longrightarrow> timers_ok (at_tick s)"
  by (simp add: timers_ok_def at_tick_def good_timer_fields timer_inv_def)

definition next_wait :: "kstate \<Rightarrow> timer_wait" where
  "next_wait s = (case g_timer_head s of [] \<Rightarrow> Wait_cmd | q # _ \<Rightarrow> Wait_cmd_for (left (at_tick s) q))"

locale timer_fun =
  fixes call :: "u32 \<Rightarrow> oid \<Rightarrow> u32 \<Rightarrow> kstate \<Rightarrow> kstate"
  assumes call_good: "good s \<Longrightarrow> good (call f q a s)"
    and call_timers: "good s \<Longrightarrow> timers (call f q a s) = timers s"
    and call_head: "good s \<Longrightarrow> g_timer_head (call f q a s) = g_timer_head s"
    and call_count: "good s \<Longrightarrow> g_timer_count (call f q a s) = g_timer_count s"
    and call_tick: "good s \<Longrightarrow> g_tick_count (call f q a s) = g_tick_count s"
begin

lemma passed_one:
  fixes f a :: u32
  assumes "timers_ok s" and "q \<in> set (due s)"
  defines "s' \<equiv> timer_again q (call f q a s)"
  shows "passed s s'" "set (due s') = set (due s) - {q}"
proof -
  let ?c = "call f q a s"
  have g: "good s" and i: "timer_inv s" and r: "\<And>q. round_ticks (timers s q) < 2 ^ 63" using assms(1) by (auto simp: timers_ok_def)
  note same = call_timers [OF g] call_head [OF g] call_count [OF g] call_tick [OF g]
  have c: "timer_inv ?c" "q \<in> set (g_timer_head ?c)" "round_ticks (timers ?c q) < 2 ^ 63" "due ?c = due s" "on_time ?c = on_time s"
    using i r assms(2) by (simp_all add: timer_inv_def due_def on_time_def left_def [abs_def] same)
  show d: "set (due s') = set (due s) - {q}" using again_due(1) [OF c(1-3)] by (simp add: s'_def c(4))
  have "timers_ok s'"
    using timer_inv_again [OF c(1,2)] good_timer_lists(4) [OF call_good [OF g]] again_due(5) [OF c(1-3)] r
    by (simp add: timers_ok_def s'_def same)
  then show "passed s s'"
    using d on_time_again [OF c(1-3)] again_due(2) [OF c(1-3)] again_fired [OF c(1,2)] assms(2)
    by (auto simp: passed_def s'_def same c(5) tick_again)
qed

lemma cb_loop_passed:
  "timers_ok s \<Longrightarrow> length (due s) < n \<Longrightarrow> set_option start \<subseteq> set (g_timer_head s) \<Longrightarrow>
   passed s (timer_cb_loop call n start s) \<and> set_option start \<inter> set (due (timer_cb_loop call n start s)) = {}"
proof (induction n arbitrary: start s)
  case (Suc n)
  show ?case
  proof (cases start)
    case None
    then show ?thesis using Suc.prems(1) by (simp add: passed_refl)
  next
    case (Some q)
    have h: "q \<in> set (g_timer_head s)" using Suc.prems(3) Some by simp
    show ?thesis
    proof (cases "timer_due (g_timer_count s) (timers s q)")
      case True
      let ?c = "call (timer_cb (timers s q)) q (timer_cb_arg (timers s q)) s"
      let ?s = "timer_again q ?c"
      let ?next = "node_next (if to_head (timers ?s q) then g_timer_head ?s else g_timer_head ?c) q"
      have q: "q \<in> set (due s)" using True h by (simp add: due_def)
      note p = passed_one [OF Suc.prems(1) q, where f = "timer_cb (timers s q)" and a = "timer_cb_arg (timers s q)"]
      have ok: "timers_ok ?s" using p(1) by (simp add: passed_def)
      have d: "distinct (due s)" "distinct (due ?s)" using Suc.prems(1) ok by (auto simp: timers_ok_def timer_inv_def due_def)
      have "card (set (due ?s)) < card (set (due s))" unfolding p(2) by (rule card_Diff1_less) (use q in simp_all)
      then have l: "length (due ?s) < n" using Suc.prems(2) d by (simp add: distinct_card)
      have "timer_inv ?c" "q \<in> set (g_timer_head ?c)" "round_ticks (timers ?c q) < 2 ^ 63"
        using Suc.prems(1) h by (simp_all add: timers_ok_def timer_inv_def call_timers call_head)
      from next_in_list [OF this] have nx: "set_option ?next \<subseteq> set (g_timer_head ?s)" by (auto simp: elem_set)
      note IH = Suc.IH [OF ok l nx, THEN conjunct1]
      have e: "timer_cb_loop call (Suc n) start s = timer_cb_loop call n ?next ?s" using True by (simp add: Let_def Some)
      have "q \<notin> set (due (timer_cb_loop call n ?next ?s))" using passed_due [OF IH, of q] p(2) by blast
      then show ?thesis unfolding e using passed_trans [OF p(1) IH] Some by simp
    next
      case False
      then show ?thesis using Suc.prems(1) Some by (simp add: passed_refl due_def)
    qed
  qed
qed simp

lemma cb_proc_passed:
  assumes "timers_ok s"
  shows "passed s (timer_cb_proc call s)"
    and "g_timer_head s = q # qs \<Longrightarrow> q \<notin> set (due (timer_cb_proc call s))"
proof -
  have "length (due s) < Suc (length (g_timer_head s))" by (simp add: due_def le_imp_less_Suc)
  from cb_loop_passed [OF assms this, of "case g_timer_head s of [] \<Rightarrow> None | q # _ \<Rightarrow> Some q"]
  show "passed s (timer_cb_proc call s)" and "g_timer_head s = q # qs \<Longrightarrow> q \<notin> set (due (timer_cb_proc call s))"
    by (auto simp: timer_cb_proc_def split: list.splits)
qed

lemma inner_passed:
  "timers_ok s \<Longrightarrow> length (due (at_tick s)) < n \<Longrightarrow>
   \<exists>s'. timer_task_inner call n s = Some (next_wait s', s') \<and> passed (at_tick s) (at_tick s') \<and>
     (\<forall>q qs. g_timer_head s' = q # qs \<longrightarrow> q \<notin> set (due (at_tick s')))"
proof (induction n arbitrary: s)
  case (Suc n)
  show ?case
  proof (cases "g_timer_head s")
    case Nil
    then show ?thesis using passed_refl [OF timers_ok_at_tick [OF Suc.prems(1)]] by (simp add: next_wait_def)
  next
    case (Cons q qs)
    have d: "q \<in> set (due (at_tick s)) \<longleftrightarrow> \<not> sint (timer_match (timers s q) - krhino_sys_tick_get s) > 0"
      using Cons by (simp add: due_def at_tick_def timer_due_def krhino_sys_tick_get_def not_less)
    show ?thesis
    proof (cases "sint (timer_match (timers s q) - krhino_sys_tick_get s) > 0")
      case True
      then show ?thesis
        using passed_refl [OF timers_ok_at_tick [OF Suc.prems(1)]] Cons d
        by (simp add: next_wait_def left_def at_tick_def krhino_sys_tick_get_def)
    next
      case False
      let ?s = "timer_cb_proc call (at_tick s)"
      note ok = timers_ok_at_tick [OF Suc.prems(1)]
      note p = cb_proc_passed(1) [OF ok]
      have q: "q \<notin> set (due ?s)" by (rule cb_proc_passed(2) [OF ok, of q qs]) (simp add: Cons at_tick_def)
      have ok': "timers_ok ?s" and "g_timer_count ?s = g_tick_count ?s" using p by (simp_all add: passed_def at_tick_def)
      then have t: "at_tick ?s = ?s" by (intro at_tick_id)
      have "distinct (due (at_tick s))" "distinct (due ?s)" using ok ok' by (auto simp: timers_ok_def timer_inv_def due_def)
      moreover have "card (set (due ?s)) < card (set (due (at_tick s)))"
        by (rule psubset_card_mono) (use passed_due [OF p] q d False in blast)+
      ultimately have "length (due (at_tick ?s)) < n" using Suc.prems(2) by (simp add: distinct_card t)
      from Suc.IH [OF ok' this] obtain s' where s': "timer_task_inner call n ?s = Some (next_wait s', s')" "passed ?s (at_tick s')"
        "\<forall>q qs. g_timer_head s' = q # qs \<longrightarrow> q \<notin> set (due (at_tick s'))"
        unfolding t by blast
      have "timer_task_inner call (Suc n) s = timer_task_inner call n ?s"
        using False Cons by (simp add: Let_def at_tick_def krhino_sys_tick_get_def)
      then show ?thesis using s' passed_trans [OF p] by metis
    qed
  qed
qed simp

end

lemma on_time_none_due:
  assumes "on_time s" and "\<And>q qs. g_timer_head s = q # qs \<Longrightarrow> q \<notin> set (due s)"
  shows "due s = []"
proof (cases "g_timer_head s")
  case Nil
  then show ?thesis by (simp add: due_def)
next
  case (Cons q qs)
  have q: "left s q \<noteq> 0" using assms(2) [OF Cons] Cons by (auto simp: due_def timer_due_left)
  have "\<not> timer_due (g_timer_count s) (timers s r)" if "r \<in> set (g_timer_head s)" for r
  proof -
    have "left s q \<le> left s r" "left s r < 2 ^ 63" using assms(1) that Cons by (auto simp: on_time_def)
    then show ?thesis using q unfolding timer_due_left by (metis leD word_le_0_iff)
  qed
  then show ?thesis by (simp add: due_def filter_empty_conv)
qed

section \<open>A registered function\<close>

text \<open>A function that gives the semaphore whose address is its argument meets the contract.\<close>

lemma frames_timer:
  "timers (core_sched s) = timers s" "g_timer_head (core_sched s) = g_timer_head s" "g_timer_count (core_sched s) = g_timer_count s"
  "g_tick_count (core_sched s) = g_tick_count s"
  "timers (pend_task_wakeup t s) = timers s" "g_timer_head (pend_task_wakeup t s) = g_timer_head s"
  "g_timer_count (pend_task_wakeup t s) = g_timer_count s" "g_tick_count (pend_task_wakeup t s) = g_tick_count s"
  by (simp_all add: core_sched_def preferred_cpu_ready_task_get_def cpu_task_switch_def fault_def Let_def pend_task_wakeup_def
      tick_list_rm_def upd_task_def upd_blk_def ready_list_add_def ready_list_add_tail_def ready_list_add_head_def k_err_proc_def
      blk_list_rm_def split: list.split task_stat_t.split option.split)

definition give_fun :: "u32 \<Rightarrow> oid \<Rightarrow> u32 \<Rightarrow> kstate \<Rightarrow> kstate" where
  "give_fun f q a s = snd (krhino_sem_give (unat a) s)"

interpretation give: timer_fun give_fun
  by unfold_locales
    (simp_all add: give_fun_def good_sem, simp_all add: krhino_sem_give_def sem_give_def upd_sem_def Let_def frames_timer split: list.split)

end
