(* ===== verification/K_Timers.thy ===== *)
theory K_Timers
  imports K_TimerInv K_Examples
begin

text \<open>
  What the software timers promise: commands arrive as they were given, the timers that are due fire and no others, the timer task
  comes to wait again. The last theorem is a defect of the ordered insertion.
\<close>

section \<open>Commands\<close>









section \<open>Firing\<close>


definition ex_timer :: kstate where
  "ex_timer = timer_cmd_proc \<lparr>cb_timer = 50, cb_num = 1, cb_first = 0, u_round = 0, u_arg = 0\<rparr>
     (snd (krhino_timer_create 100 50 7 1 10 10 False ex_sem))"


lemma MAX_TIMER_TICKS_eq: "MAX_TIMER_TICKS = 0x7fffffffffffffff"
  by (simp add: MAX_TIMER_TICKS_def mask_eq_exp_minus_1)

lemma ex_sem_timers: "timers ex_sem = timers zero_state" "g_timer_head ex_sem = []" "g_timer_count ex_sem = 0"
  by (simp_all add: ex_sem_eq boot_eq zero_state_def)

lemma zero_timers: "timers zero_state t = \<lparr>to_head = False, timer_cb = 0, timer_cb_arg = 0, timer_match = 0, timer_remain = 0,
    init_count = 0, round_ticks = 0, timer_priv = 0, timer_obj_type = RHINO_OBJ_TYPE_NONE, timer_state = TIMER_DEACTIVE,
    timer_alloc_flag = K_OBJ_NO_ALLOC\<rparr>"
  by (simp add: zero_state_def)

lemma ex_timer_eq:
  "ex_timer = ex_sem\<lparr>g_timer_head := [50], timers := (timers zero_state)(50 := \<lparr>to_head = True, timer_cb = 7, timer_cb_arg = 10,
     timer_match = 1, timer_remain = 1, init_count = 1, round_ticks = 10, timer_priv = 0, timer_obj_type = RHINO_TIMER_OBJ_TYPE,
     timer_state = TIMER_ACTIVE, timer_alloc_flag = K_OBJ_STATIC_ALLOC\<rparr>)\<rparr>"
proof -
  let ?t = "\<lparr>to_head = False, timer_cb = 7, timer_cb_arg = 10, timer_match = 0, timer_remain = 0, init_count = 1, round_ticks = 10,
    timer_priv = 0, timer_obj_type = RHINO_TIMER_OBJ_TYPE, timer_state = TIMER_DEACTIVE, timer_alloc_flag = K_OBJ_STATIC_ALLOC\<rparr>"
  have m: "\<not> MAX_TIMER_TICKS \<le> 1" "\<not> MAX_TIMER_TICKS \<le> 10" by (simp_all add: MAX_TIMER_TICKS_eq word_le_nat_alt)
  have c: "snd (krhino_timer_create 100 50 7 1 10 10 False ex_sem) = ex_sem\<lparr>timers := (timers zero_state)(50 := ?t)\<rparr>"
    by (simp add: krhino_timer_create_def timer_create_def upd_timer_def Let_def m ex_sem_timers zero_timers)
  show ?thesis
    unfolding ex_timer_def c
    by (simp add: timer_cmd_proc_def cmd_proc_def timer_arm_def upd_timer_def Let_def ex_sem_timers)
qed








text \<open>C38. The ordered insertion compares the remaining times without sign, so an overdue timer counts as one that is far away. If the timer task
  takes a start command while the first timer of the list is overdue, the new timer goes in front of it, the pass over the list calls
  nothing, and the task waits for the whole delay of the new timer although the other one is due.\<close>

theorem timer_overtaken:
  assumes "timer_inv s" and "g_timer_head s = q # qs" and "2 ^ 63 \<le> left s q" and "g_timer_count s = g_tick_count s"
    and "timer_obj_type (timers s t) = RHINO_TIMER_OBJ_TYPE" and "timer_state (timers s t) = TIMER_DEACTIVE"
    and "0 < init_count (timers s t)" and "init_count (timers s t) < 2 ^ 63" and "cb_timer cb = t"
  defines "s' \<equiv> cmd_proc cb (cmd_num TIMER_CMD_START) s"
  shows "g_timer_head s' = t # q # qs \<and> q \<in> set (due s') \<and> timer_cb_proc call s' = s' \<and>
    timer_task_inner call (Suc n) s' = Some (Wait_cmd_for (init_count (timers s t)), s')"
proof -
  let ?n = "init_count (timers s t)"
  have tq: "t \<noteq> q" using timer_inv_idle [OF assms(1), of t] assms(2,6) by auto
  have s': "s' = upd_timer t (\<lambda>k. k\<lparr>timer_state := TIMER_ACTIVE\<rparr>) (timer_arm t ?n s)"
    using assms(5,6,9) by (simp add: s'_def cmd_proc_def Let_def)
  have far: "?n < timer_match (timers s q) - g_timer_count s" using assms(3,8) unfolding left_def by (rule less_le_trans [rotated])
  have h: "g_timer_head s' = t # q # qs" using far tq assms(2) by (simp add: s' timer_arm_def upd_timer_def Let_def)
  have f: "timer_match (timers s' t) = g_tick_count s + ?n" "timers s' q = timers s q" "g_timer_count s' = g_tick_count s"
    "g_tick_count s' = g_tick_count s"
    using tq assms(4) by (simp_all add: s' timer_arm_def upd_timer_def Let_def)
  have pos: "\<not> sint ?n \<le> 0" using assms(7,8) unfolding sint_le_zero by (simp flip: not_less)
  have "left s' q = left s q" using f assms(4) by (simp add: left_def)
  then have "q \<in> set (due s')" using h assms(3) by (simp add: due_def timer_due_left)
  moreover have "timer_cb_proc call s' = s'" using pos by (simp add: timer_cb_proc_def h timer_due_def f)
  moreover have "timer_task_inner call (Suc n) s' = Some (Wait_cmd_for ?n, s')"
    using pos by (simp add: h f krhino_sys_tick_get_def Let_def)
  ultimately show ?thesis using h by simp
qed

definition ex_late :: kstate where
  "ex_late = (snd (krhino_timer_create 100 51 7 100 0 10 False ex_timer))\<lparr>g_tick_count := 5, g_timer_count := 5\<rparr>"

theorem timer_overtaken_witness:
  "timer_task_inner give_fun 1 (cmd_proc \<lparr>cb_timer = 51, cb_num = 1, cb_first = 0, u_round = 0, u_arg = 0\<rparr> 1 ex_late) =
     Some (Wait_cmd_for 100, cmd_proc \<lparr>cb_timer = 51, cb_num = 1, cb_first = 0, u_round = 0, u_arg = 0\<rparr> 1 ex_late) \<and>
   50 \<in> set (due (cmd_proc \<lparr>cb_timer = 51, cb_num = 1, cb_first = 0, u_round = 0, u_arg = 0\<rparr> 1 ex_late))"
proof -
  have m: "\<not> MAX_TIMER_TICKS \<le> 100" "MAX_TIMER_TICKS \<noteq> 0" by (simp_all add: MAX_TIMER_TICKS_eq word_le_nat_alt)
  have e: "ex_late = ex_timer\<lparr>timers := (timers ex_timer)(51 := \<lparr>to_head = False, timer_cb = 7, timer_cb_arg = 10, timer_match = 0,
      timer_remain = 0, init_count = 100, round_ticks = 0, timer_priv = 0, timer_obj_type = RHINO_TIMER_OBJ_TYPE,
      timer_state = TIMER_DEACTIVE, timer_alloc_flag = K_OBJ_STATIC_ALLOC\<rparr>), g_tick_count := 5, g_timer_count := 5\<rparr>"
    by (simp add: ex_late_def krhino_timer_create_def timer_create_def upd_timer_def Let_def m ex_timer_eq zero_timers)
  have i: "timer_inv ex_late" by (auto simp: timer_inv_def e ex_timer_eq zero_timers)
  have h: "g_timer_head ex_late = [50]" "left ex_late 50 \<ge> 2 ^ 63" "g_timer_count ex_late = g_tick_count ex_late"
    by (simp_all add: e ex_timer_eq left_def word_le_nat_alt)
  have n: "init_count (timers ex_late 51) = 100" by (simp add: e)
  have t: "timer_obj_type (timers ex_late 51) = RHINO_TIMER_OBJ_TYPE" "timer_state (timers ex_late 51) = TIMER_DEACTIVE"
    "0 < init_count (timers ex_late 51)" "init_count (timers ex_late 51) < 2 ^ 63"
    by (simp_all add: e)
  show ?thesis
    using timer_overtaken [OF i h t, of "\<lparr>cb_timer = 51, cb_num = 1, cb_first = 0, u_round = 0, u_arg = 0\<rparr>" give_fun 0] unfolding n
    by (simp del: timer_task_inner.simps)
qed

end
