(* ===== verification/K_Time.thy ===== *)
theory K_Time
  imports K_Tick
begin

text \<open>
  Ticks and milliseconds (\<^verbatim>\<open>core/k_time.c\<close>). The frequency of the tick, \<open>RHINO_CONFIG_TICKS_PER_SECOND\<close>, is set by the board and is the
  argument \<open>hz\<close>; for 1000 the conversions are compiled to nothing. Times are 64 bits wide and wrap around, \<open>surplus\<close> and \<open>padding\<close> are 16
  bits wide in one direction and 32 bits in the other.
\<close>

definition krhino_sys_time_get :: "nat \<Rightarrow> kstate \<Rightarrow> tick_t" where
  "krhino_sys_time_get hz s =
    (if hz = 1000 then krhino_sys_tick_get s else krhino_sys_tick_get s * 1000 div of_nat hz)"

definition krhino_ms_to_ticks :: "nat \<Rightarrow> tick_t \<Rightarrow> tick_t" where
  "krhino_ms_to_ticks hz ms =
    (if hz = 1000 then ms
     else
       let surplus = (ucast (ms mod 1000) :: 16 word);
           ticks = (ms div 1000) * of_nat hz;
           padding = (of_nat (1000 div hz) :: 16 word);
           padding = (if padding > 0 then padding - 1 else 0)
       in ticks + of_nat ((unat surplus + unat padding) * hz div 1000))"

definition krhino_ticks_to_ms :: "nat \<Rightarrow> tick_t \<Rightarrow> tick_t" where
  "krhino_ticks_to_ms hz ticks =
    (if hz = 1000 then ticks
     else
       let surplus = (ucast (ticks mod of_nat hz) :: u32);
           time = (ticks div of_nat hz) * 1000;
           padding = (of_nat (hz div 1000) :: u32);
           padding = (if padding > 0 then padding - 1 else 0)
       in time + ucast ((surplus + padding) * 1000 div of_nat hz))"

section \<open>As natural numbers\<close>

lemma ceil_div_split:
  fixes m k q :: nat
  assumes "0 < k"
  shows "m div (k * q) * q + (m mod (k * q) + (k - 1)) div k = (m + (k - 1)) div k"
proof -
  have "m + (k - 1) = (m mod (k * q) + (k - 1)) + (m div (k * q) * q) * k"
    using div_mult_mod_eq [of m "k * q"] by (simp add: algebra_simps)
  then show ?thesis using assms by (metis add.commute div_mult_self1 neq0_conv)
qed

lemma unat_ms_parts:
  fixes ms :: tick_t
  shows "unat (ms div 1000) = unat ms div 1000" "unat (ucast (ms mod 1000) :: 16 word) = unat ms mod 1000"
proof -
  show "unat (ms div 1000) = unat ms div 1000" by (simp add: unat_div_distrib)
  have "unat (ms mod 1000) = unat ms mod 1000" by (simp add: unat_mod_distrib)
  moreover have "unat ms mod 1000 < 1000" by simp
  ultimately show "unat (ucast (ms mod 1000) :: 16 word) = unat ms mod 1000"
    by (simp add: unsigned_ucast_eq take_bit_nat_eq_self del: mod_less_divisor pos_mod_bound)
qed

lemma padding_nat:
  assumes "0 < hz"
  shows "unat (if (of_nat (1000 div hz) :: 16 word) > 0 then (of_nat (1000 div hz) :: 16 word) - 1 else 0) = 1000 div hz - 1"
proof -
  have "1000 div hz \<le> 1000" by (rule div_le_dividend)
  then have u: "unat (of_nat (1000 div hz) :: 16 word) = 1000 div hz" unfolding unat_of_nat by (intro mod_less le_less_trans [OF \<open>1000 div hz \<le> 1000\<close>]) simp
  show ?thesis
  proof (cases "1000 div hz = 0")
    case False
    then have "unat ((of_nat (1000 div hz) :: 16 word) - 1) = 1000 div hz - 1"
      using u by (subst unat_sub) (simp_all add: word_le_nat_alt)
    then show ?thesis using False u by (simp add: word_less_nat_alt)
  qed simp
qed

lemma ticks_nat:
  fixes m hz :: nat
  assumes "hz dvd 1000"
  shows "m div 1000 * hz + (m mod 1000 + (1000 div hz - 1)) * hz div 1000 = (m * hz + 999) div 1000"
proof -
  define k where "k = 1000 div hz"
  have e: "1000 = k * hz" using assms by (simp add: k_def)
  have k: "0 < k" "0 < hz" using e by (auto intro!: Nat.gr0I)
  have "(m mod (k * hz) + (k - 1)) * hz div (k * hz) = (m mod (k * hz) + (k - 1)) div k"
    using k(2) by simp
  then have "m div (k * hz) * hz + (m mod (k * hz) + (k - 1)) * hz div (k * hz) = (m + (k - 1)) div k"
    using ceil_div_split [OF k(1), of m hz] by simp
  moreover have "(m * hz + (k * hz - 1)) div (k * hz) = (m + (k - 1)) div k"
  proof -
    have "m * hz + (k * hz - 1) = (m + (k - 1)) * hz + (hz - 1)"
      using k by (cases k; cases hz) (simp_all add: algebra_simps)
    moreover have "((m + (k - 1)) * hz + (hz - 1)) div hz = (m + (k - 1)) + (hz - 1) div hz" using k by (intro div_mult_self3) simp
    moreover have "(hz - 1) div hz = 0" using k by simp
    ultimately have "(m * hz + (k * hz - 1)) div hz = m + (k - 1)" by simp
    then show ?thesis by (metis div_mult2_eq mult.commute)
  qed
  moreover have "(999::nat) = k * hz - 1" using e by simp
  ultimately show ?thesis using e k_def by metis
qed

lemma ms_to_ticks_rounds_up_nat:
  assumes "hz dvd 1000" and "unat ms * hz + 1000 < 2 ^ 64"
  shows "unat (krhino_ms_to_ticks hz ms) = (unat ms * hz + 999) div 1000"
proof (cases "hz = 1000")
  case True
  then show ?thesis by (simp add: krhino_ms_to_ticks_def)
next
  case False
  have h: "0 < hz" "hz \<le> 1000" using assms(1) by (auto intro!: Nat.gr0I dvd_imp_le)
  let ?a = "unat ms div 1000 * hz" and ?b = "(unat ms mod 1000 + (1000 div hz - 1)) * hz div 1000"
  have sum: "?a + ?b = (unat ms * hz + 999) div 1000" by (rule ticks_nat [OF assms(1)])
  also have "\<dots> \<le> unat ms * hz + 999" by (rule div_le_dividend)
  finally have lt: "?a + ?b < 2 ^ 64" using assms(2) by linarith
  have "of_nat (unat (ms div 1000)) = ms div 1000" by simp
  then have d: "ms div 1000 = of_nat (unat ms div 1000)" by (simp only: unat_ms_parts(1))
  have "krhino_ms_to_ticks hz ms = of_nat (?a + ?b)"
    using False by (simp only: krhino_ms_to_ticks_def Let_def padding_nat [OF h(1)] unat_ms_parts(2) d of_nat_mult of_nat_add if_False)
  then have "unat (krhino_ms_to_ticks hz ms) = ?a + ?b" using lt by (simp only: unat_of_nat) simp
  then show ?thesis using sum by simp
qed

text \<open>C35. Milliseconds are rounded up to ticks when the frequency of the tick divides 1000: a wait is never shorter than it was asked
  for, and longer by less than a tick.\<close>

theorem ms_to_ticks_rounds_up:
  assumes "hz dvd 1000" and "unat ms * hz + 1000 < 2 ^ 64"
  shows "unat (krhino_ms_to_ticks hz ms) = (unat ms * hz + 999) div 1000"
  by (rule ms_to_ticks_rounds_up_nat [OF assms])

theorem ms_to_ticks_rounds_up_witness: "unat (krhino_ms_to_ticks 100 25) = 3"
  using ms_to_ticks_rounds_up [of 100 25] by simp

text \<open>For a frequency that does not divide 1000 a short wait can be lost.\<close>

lemma ms_to_ticks_short: "krhino_ms_to_ticks 300 1 = 0"
  by (simp add: krhino_ms_to_ticks_def Let_def)

lemma ticks_to_ms_nat:
  assumes "hz dvd 1000" and "hz \<noteq> 1000" and "unat t * 1000 < 2 ^ 64"
  shows "unat (krhino_ticks_to_ms hz t) = unat t * (1000 div hz)"
proof -
  define k where "k = 1000 div hz"
  have e: "1000 = k * hz" using assms(1) by (simp add: k_def)
  have h: "0 < hz" "hz < 1000" using assms(1,2) dvd_imp_le [OF assms(1)] by (auto intro!: Nat.gr0I)
  have u: "unat (of_nat hz :: tick_t) = hz" "unat (of_nat hz :: u32) = hz" using h by (simp_all add: unat_of_nat)
  have "unat (t mod of_nat hz) = unat t mod hz" by (simp add: unat_mod_distrib u)
  moreover have m: "unat t mod hz < 1000" using h less_trans [OF mod_less_divisor [OF h(1)]] by blast
  ultimately have s: "unat (ucast (t mod of_nat hz) :: u32) = unat t mod hz"
    by (simp add: unsigned_ucast_eq take_bit_nat_eq_self)
  have "unat (ucast (t mod of_nat hz) * 1000 :: u32) = unat t mod hz * 1000"
    using m by (simp add: unat_word_ariths s)
  then have b: "unat ((ucast (t mod of_nat hz) :: u32) * 1000 div of_nat hz) = unat t mod hz * k"
    using h e by (simp add: unat_div_distrib u) (metis div_mult_self_is_m mult.assoc)
  have sum: "unat t div hz * 1000 + unat t mod hz * k = unat t * k"
    by (metis add_mult_distrib div_mult_mod_eq e mult.assoc mult.commute)
  have "k \<le> 1000" using e h by (metis dvd_imp_le dvd_triv_left zero_less_numeral)
  then have lt: "unat t * k < 2 ^ 64" using assms(3) le_less_trans [OF mult_le_mono2] by blast
  have d: "unat (t div of_nat hz) = unat t div hz" by (simp add: unat_div_distrib u)
  have "krhino_ticks_to_ms hz t = (t div of_nat hz) * 1000 + ucast ((ucast (t mod of_nat hz) :: u32) * 1000 div of_nat hz)"
    using assms(2) h by (simp add: krhino_ticks_to_ms_def Let_def)
  also have "\<dots> = of_nat (unat t div hz * 1000 + unat t mod hz * k)"
    by (simp add: b [symmetric] d [symmetric])
  finally have "krhino_ticks_to_ms hz t = of_nat (unat t * k)" unfolding sum .
  then have "unat (krhino_ticks_to_ms hz t) = unat t * k mod 2 ^ 64" by (simp only: unat_of_nat) simp
  then show ?thesis using lt by (simp add: k_def)
qed

text \<open>C36. Ticks converted to milliseconds and back are the same ticks, for every frequency that divides 1000.\<close>

theorem ticks_round_trip:
  assumes "hz dvd 1000" and "unat t * 1000 + 1000 < 2 ^ 64"
  shows "krhino_ms_to_ticks hz (krhino_ticks_to_ms hz t) = t"
proof (cases "hz = 1000")
  case True
  then show ?thesis by (simp add: krhino_ms_to_ticks_def krhino_ticks_to_ms_def)
next
  case False
  have t: "unat t * 1000 < 2 ^ 64" using assms(2) by simp
  have e: "1000 div hz * hz = 1000" using assms(1) by simp
  have m: "unat (krhino_ticks_to_ms hz t) * hz = unat t * 1000"
    unfolding ticks_to_ms_nat [OF assms(1) False t] by (simp only: mult.assoc e)
  have "unat (krhino_ms_to_ticks hz (krhino_ticks_to_ms hz t)) = (unat t * 1000 + 999) div 1000"
    using ms_to_ticks_rounds_up_nat [OF assms(1), of "krhino_ticks_to_ms hz t"] assms(2) by (simp only: m)
  then show ?thesis by (simp add: word_unat_eq_iff)
qed

theorem ticks_round_trip_witness: "krhino_ms_to_ticks 100 (krhino_ticks_to_ms 100 12345) = 12345"
  using ticks_round_trip [of 100 12345] by simp

end
