(* ===== verification/K_MmBlk.thy ===== *)
theory K_MmBlk
  imports K_State K_Mem "HOL-Library.Monad_Syntax"
begin

text \<open>
  Pools of blocks of one size (\<^verbatim>\<open>core/k_mm_blk.c\<close>). A free block holds the address of the next one in its first four
  bytes. Addresses and sizes are 32 bits wide; \<open>blk_next\<close> is compared after an addition that may wrap around, so the loop
  that links the blocks is a partial function: \<open>None\<close> is a call that does not return.
\<close>

record mblk_pool_t =
  pool_obj_type :: kobj_type_t
  pool_blk_size :: u32
  blk_avail :: u32
  blk_whole :: u32
  avail_list :: u32

partial_function (option) mblk_link ::
  "u32 \<Rightarrow> u32 \<Rightarrow> u32 \<Rightarrow> u32 \<Rightarrow> u32 \<Rightarrow> mem \<Rightarrow> (u32 \<times> u32 \<times> u32 \<times> mem) option" where
  [code]: "mblk_link blk_sz pool_end blks blk_cur blk_next m =
    (if blk_next < pool_end
     then mblk_link blk_sz pool_end (blks + 1) blk_next (blk_next + blk_sz) (put_u32 (unat blk_cur) blk_next m)
     else Some (blks, blk_cur, blk_next, m))"

definition krhino_mblk_pool_init ::
  "u32 \<Rightarrow> u32 \<Rightarrow> u32 \<Rightarrow> mblk_pool_t \<Rightarrow> mem \<Rightarrow> (kstat_t \<times> mblk_pool_t \<times> mem) option" where
  "krhino_mblk_pool_init pool_start blk_sz pool_size pool m =
    (if pool_size < push_bit 1 blk_sz then Some (RHINO_BLK_POOL_SIZE_ERR, pool, m)
     else if pool_start AND 3 > 0 then Some (RHINO_INV_ALIGN, pool, m)
     else if blk_sz AND 3 > 0 then Some (RHINO_INV_ALIGN, pool, m)
     else if pool_size AND 3 > 0 then Some (RHINO_INV_ALIGN, pool, m)
     else
       let pool_end = pool_start + pool_size
       in do {
         (blks, blk_cur, blk_next, m) \<leftarrow> mblk_link blk_sz pool_end 0 pool_start (pool_start + blk_sz) m;
         let blks = (if blk_next = pool_end then blks + 1 else blks);
         let m = put_u32 (unat blk_cur) 0 m;
         Some (RHINO_SUCCESS,
           \<lparr>pool_obj_type = RHINO_MM_BLK_OBJ_TYPE, pool_blk_size = blk_sz, blk_avail = blks, blk_whole = blks,
             avail_list = pool_start\<rparr>, m)
       })"

definition krhino_mblk_alloc :: "mblk_pool_t \<Rightarrow> mem \<Rightarrow> kstat_t \<times> u32 option \<times> mblk_pool_t" where
  "krhino_mblk_alloc pool m =
    (if pool_obj_type pool \<noteq> RHINO_MM_BLK_OBJ_TYPE then (RHINO_KOBJ_TYPE_ERR, None, pool)
     else if blk_avail pool > 0 then
       (RHINO_SUCCESS, Some (avail_list pool),
         pool\<lparr>avail_list := get_u32 (unat (avail_list pool)) m, blk_avail := blk_avail pool - 1\<rparr>)
     else (RHINO_NO_MEM, Some 0, pool))"

definition krhino_mblk_free :: "mblk_pool_t \<Rightarrow> u32 \<Rightarrow> mem \<Rightarrow> kstat_t \<times> mblk_pool_t \<times> mem" where
  "krhino_mblk_free pool blk m =
    (if pool_obj_type pool \<noteq> RHINO_MM_BLK_OBJ_TYPE then (RHINO_KOBJ_TYPE_ERR, pool, m)
     else (RHINO_SUCCESS, pool\<lparr>avail_list := blk, blk_avail := blk_avail pool + 1\<rparr>, put_u32 (unat blk) (avail_list pool) m))"

section \<open>Linking the blocks\<close>

lemma mblk_link_run:
  assumes "4 \<le> unat bs" and "unat e + unat bs \<le> 2 ^ 32"
    and "unat next = unat cur + unat bs" and "unat cur < unat e"
  shows "\<exists>j cur' m'. mblk_link bs e blks cur next m = Some (blks + of_nat j, cur', cur' + bs, m') \<and>
    unat cur' = unat cur + j * unat bs \<and> unat cur' < unat e \<and> unat e \<le> unat cur' + unat bs \<and>
    (\<forall>t<j. get_u32 (unat cur + t * unat bs) m' = of_nat (unat cur + Suc t * unat bs)) \<and>
    (\<forall>a. a < unat cur \<or> unat cur' \<le> a \<longrightarrow> m' a = m a)"
  using assms(3,4)
proof (induction "unat e - unat cur" arbitrary: blks cur "next" m rule: less_induct)
  case less
  have "unat next < 4294967296" using less.prems assms(2) by simp
  then have nx: "next = cur + bs" by (simp add: word_unat_eq_iff unat_word_ariths flip: less.prems(1))
  show ?case
  proof (cases "next < e")
    case False
    then have "mblk_link bs e blks cur next m = Some (blks + of_nat 0, cur, cur + bs, m)"
      by (subst mblk_link.simps) (simp add: nx)
    moreover have "unat e \<le> unat cur + unat bs" using False less.prems(1) by (simp add: word_less_nat_alt)
    ultimately show ?thesis using less.prems by (intro exI [of _ 0] exI [of _ cur] exI [of _ m]) simp
  next
    case True
    then have n: "unat next < unat e" by (simp add: word_less_nat_alt)
    have nn: "unat (next + bs) = unat next + unat bs"
      using n assms(2) by (simp add: unat_word_ariths)
    have "unat e - unat next < unat e - unat cur" using n less.prems assms(1) by linarith
    from less.hyps [OF this nn n, of "blks + 1" "put_u32 (unat cur) next m"]
    obtain j cur' m' where l: "mblk_link bs e (blks + 1) next (next + bs) (put_u32 (unat cur) next m) =
        Some (blks + 1 + of_nat j, cur', cur' + bs, m')"
      and c: "unat cur' = unat next + j * unat bs" "unat cur' < unat e" "unat e \<le> unat cur' + unat bs"
      and g: "\<forall>t<j. get_u32 (unat next + t * unat bs) m' = of_nat (unat next + Suc t * unat bs)"
      and f: "\<forall>a. a < unat next \<or> unat cur' \<le> a \<longrightarrow> m' a = put_u32 (unat cur) next m a"
      by blast
    have "mblk_link bs e blks cur next m = Some (blks + of_nat (Suc j), cur', cur' + bs, m')"
      using l True by (subst mblk_link.simps) (simp add: add.assoc)
    moreover have "get_u32 (unat cur + t * unat bs) m' = of_nat (unat cur + Suc t * unat bs)" if "t < Suc j" for t
    proof (cases t)
      case 0
      have "get_u32 (unat cur) m' = get_u32 (unat cur) (put_u32 (unat cur) next m)"
        by (rule get_u32_cong) (use f less.prems(1) assms(1) in auto)
      then show ?thesis using 0 less.prems(1) by (simp flip: less.prems(1))
    next
      case (Suc u)
      then show ?thesis using g that less.prems(1) by (simp add: add.assoc)
    qed
    moreover have "m' a = m a" if "a < unat cur \<or> unat cur' \<le> a" for a
      using that f less.prems(1) c(1) put_u32_byte [of a "unat cur" "next" m] assms(1) by (auto simp: add.assoc)
    ultimately show ?thesis using c less.prems(1) by (intro exI [of _ "Suc j"] exI [of _ cur'] exI [of _ m']) simp
  qed
qed

section \<open>The free blocks\<close>

fun chain :: "mem \<Rightarrow> u32 \<Rightarrow> u32 list \<Rightarrow> bool" where
  "chain m a [] = True"
| "chain m a (x # xs) = (a = x \<and> chain m (get_u32 (unat x) m) xs)"

definition mblk_rep :: "mblk_pool_t \<Rightarrow> mem \<Rightarrow> u32 list \<Rightarrow> bool" where
  "mblk_rep p m xs \<longleftrightarrow> pool_obj_type p = RHINO_MM_BLK_OBJ_TYPE \<and> unat (blk_avail p) = length xs \<and> chain m (avail_list p) xs"

text \<open>A pool that does not reach the end of the address space, aligned, with blocks that can hold an address.\<close>

definition mblk_fits :: "u32 \<Rightarrow> u32 \<Rightarrow> u32 \<Rightarrow> bool" where
  "mblk_fits start bs sz \<longleftrightarrow> 4 \<le> unat bs \<and> 2 * unat bs \<le> unat sz \<and> unat start + unat sz + unat bs < 2 ^ 32 \<and>
     start AND 3 = 0 \<and> bs AND 3 = 0 \<and> sz AND 3 = 0"

definition mblk :: "u32 \<Rightarrow> u32 \<Rightarrow> nat \<Rightarrow> u32" where
  "mblk start bs i = start + of_nat i * bs"

definition mblks :: "u32 \<Rightarrow> u32 \<Rightarrow> u32 \<Rightarrow> u32 list" where
  "mblks start bs sz = map (mblk start bs) [0..<unat sz div unat bs]"

lemma mblk_0 [simp]: "mblk start bs 0 = start"
  by (simp add: mblk_def)

lemma unat_mblk:
  assumes "mblk_fits start bs sz" and "i * unat bs \<le> unat sz"
  shows "unat (mblk start bs i) = unat start + i * unat bs"
proof -
  have lt: "unat start + i * unat bs < 2 ^ 32" using assms by (simp add: mblk_fits_def)
  have "mblk start bs i = of_nat (unat start + i * unat bs)" by (simp add: mblk_def)
  then show ?thesis using lt by (simp only: unat_of_nat) simp
qed

lemma chain_blocks:
  assumes "\<And>t. Suc t < n \<Longrightarrow> get_u32 (unat (mblk start bs t)) m = mblk start bs (Suc t)"
  shows "i \<le> n \<Longrightarrow> chain m (mblk start bs i) (map (mblk start bs) [i..<n])"
proof (induction "n - i" arbitrary: i)
  case (Suc d)
  then have i: "i < n" by simp
  have "chain m (get_u32 (unat (mblk start bs i)) m) (map (mblk start bs) [Suc i..<n])"
  proof (cases "Suc i < n")
    case True
    then show ?thesis using Suc.hyps(1) [of "Suc i"] Suc.hyps(2) assms by simp
  qed simp
  then show ?case using i by (simp add: upt_conv_Cons)
qed simp

lemma push_bit_less: "2 * unat (bs::u32) \<le> unat (sz::u32) \<Longrightarrow> \<not> sz < push_bit 1 bs"
proof -
  assume a: "2 * unat bs \<le> unat sz"
  have "unat sz < 2 ^ 32" using unsigned_less [of sz] by simp
  then have "unat (push_bit 1 bs) = 2 * unat bs" using a by (simp add: push_bit_eq_mult unat_word_ariths)
  then show ?thesis using a by (simp add: word_less_nat_alt)
qed

lemma mblk_init_rep:
  assumes f: "mblk_fits start bs sz"
  shows "\<exists>p' m'. krhino_mblk_pool_init start bs sz p m = Some (RHINO_SUCCESS, p', m') \<and> mblk_rep p' m' (mblks start bs sz)"
proof -
  let ?S = "unat start" and ?B = "unat bs" and ?e = "start + sz"
  note d = f [unfolded mblk_fits_def]
  have e: "unat ?e = ?S + unat sz" using d by (simp add: unat_word_ariths)
  have nx: "unat (start + bs) = ?S + ?B" using d by (simp add: unat_word_ariths)
  have pre: "4 \<le> ?B" "unat ?e + ?B \<le> 2 ^ 32" "?S < unat ?e" using d by (simp_all add: e)
  obtain j cur m1 where l: "mblk_link bs ?e 0 start (start + bs) m = Some (0 + of_nat j, cur, cur + bs, m1)"
    and c: "unat cur = ?S + j * ?B" "unat cur < unat ?e" "unat ?e \<le> unat cur + ?B"
    and g: "\<forall>t<j. get_u32 (?S + t * ?B) m1 = of_nat (?S + Suc t * ?B)"
    using mblk_link_run [OF pre(1,2) nx pre(3), of 0 m] by blast
  let ?n = "unat sz div ?B" and ?m = "put_u32 (unat cur) 0 m1"
  have j: "j * ?B < unat sz" "unat sz \<le> Suc j * ?B" using c e by simp_all
  have jn: "?n = (if unat sz = Suc j * ?B then Suc j else j)"
  proof (cases "unat sz = Suc j * ?B")
    case False
    then have "unat sz div ?B = j" using j by (intro div_nat_eqI) (simp_all add: mult.commute)
    then show ?thesis using False by simp
  qed (use pre(1) in simp)
  have last: "cur + bs = ?e \<longleftrightarrow> unat sz = Suc j * ?B"
  proof -
    have "unat (cur + bs) = unat cur + ?B" using c(2) pre(2) by (simp add: unat_word_ariths)
    then show ?thesis using c(1) e by (auto simp: word_unat_eq_iff)
  qed
  have links: "get_u32 (unat (mblk start bs t)) ?m = mblk start bs (Suc t)" if "Suc t < ?n" for t
  proof -
    have t: "t < j" using that jn by (simp split: if_splits)
    have "t * ?B \<le> unat sz" using t j(1) by (meson less_imp_le_nat mult_le_mono1 order.trans)
    then have u: "unat (mblk start bs t) = ?S + t * ?B" by (rule unat_mblk [OF f])
    have "Suc t * ?B \<le> j * ?B" using t by (intro mult_le_mono1) simp
    then have "?S + t * ?B + 4 \<le> unat cur" using c(1) pre(1) by simp
    then show ?thesis using g t u by (simp add: get_put_u32_other mblk_def distrib_right)
  qed
  have "?n < 2 ^ 32" using le_less_trans [OF div_le_dividend unsigned_less [of sz]] by simp
  then have n: "unat (if cur + bs = ?e then of_nat j + 1 else of_nat j :: u32) = ?n"
    unfolding last by (auto simp: jn unat_of_nat unat_word_ariths)
  have "chain ?m start (mblks start bs sz)"
    using chain_blocks [where n = ?n and i = 0, OF links] by (simp add: mblks_def)
  then show ?thesis
    using d l n push_bit_less [of bs sz] by (simp add: krhino_mblk_pool_init_def Let_def mblk_rep_def mblks_def)
qed

section \<open>Clients\<close>

text \<open>
  What the clients of a pool do: allocate, give back a block they hold, and write to the blocks they hold and outside the pool.
  The first argument is the list of the blocks that are held.
\<close>

inductive pool_state :: "u32 \<Rightarrow> u32 \<Rightarrow> u32 \<Rightarrow> u32 list \<Rightarrow> mblk_pool_t \<Rightarrow> mem \<Rightarrow> bool" for start bs sz where
  init: "krhino_mblk_pool_init start bs sz p m = Some (RHINO_SUCCESS, p', m') \<Longrightarrow> pool_state start bs sz [] p' m'"
| alloc: "pool_state start bs sz held p m \<Longrightarrow> krhino_mblk_alloc p m = (RHINO_SUCCESS, Some b, p') \<Longrightarrow>
    pool_state start bs sz (b # held) p' m"
| free: "pool_state start bs sz held p m \<Longrightarrow> b \<in> set held \<Longrightarrow> krhino_mblk_free p b m = (RHINO_SUCCESS, p', m') \<Longrightarrow>
    pool_state start bs sz (remove1 b held) p' m'"
| use: "pool_state start bs sz held p m \<Longrightarrow>
    (\<And>a. m' a \<noteq> m a \<Longrightarrow> (\<exists>b\<in>set held. unat b \<le> a \<and> a < unat b + unat bs) \<or> a < unat start \<or> unat start + unat sz \<le> a) \<Longrightarrow>
    pool_state start bs sz held p m'"

definition pool_inv :: "u32 \<Rightarrow> u32 \<Rightarrow> u32 \<Rightarrow> u32 list \<Rightarrow> mblk_pool_t \<Rightarrow> mem \<Rightarrow> bool" where
  "pool_inv start bs sz held p m \<longleftrightarrow>
     (\<exists>xs. mblk_rep p m xs \<and> distinct (held @ xs) \<and> set (held @ xs) = set (mblks start bs sz))"

lemma chain_cong:
  "(\<And>x i. x \<in> set xs \<Longrightarrow> i < 4 \<Longrightarrow> m' (unat x + i) = m (unat x + i)) \<Longrightarrow> chain m' a xs = chain m a xs"
proof (induction xs arbitrary: a)
  case (Cons x xs)
  have "get_u32 (unat x) m' = get_u32 (unat x) m" by (rule get_u32_cong) (use Cons.prems in simp)
  then show ?case using Cons by simp
qed simp

text \<open>Different blocks do not overlap, and all of them are in the pool.\<close>

lemma blocks_apart:
  assumes f: "mblk_fits start bs sz" and x: "x \<in> set (mblks start bs sz)"
  shows "unat start \<le> unat x" "unat x + unat bs \<le> unat start + unat sz"
    "y \<in> set (mblks start bs sz) \<Longrightarrow> x \<noteq> y \<Longrightarrow> unat x + unat bs \<le> unat y \<or> unat y + unat bs \<le> unat x"
proof -
  have B: "0 < unat bs" using f by (simp add: mblk_fits_def)
  have in_pool: "Suc i * unat bs \<le> unat sz" if "i < unat sz div unat bs" for i
    using that B by (metis Suc_leI le_trans mult_le_mono1 div_times_less_eq_dividend)
  have blk: "\<exists>i. z = mblk start bs i \<and> unat z = unat start + i * unat bs \<and> Suc i * unat bs \<le> unat sz"
    if "z \<in> set (mblks start bs sz)" for z
  proof -
    obtain i where i: "z = mblk start bs i" "i < unat sz div unat bs" using \<open>z \<in> _\<close> by (auto simp: mblks_def)
    then show ?thesis using unat_mblk [OF f, of i] in_pool [OF i(2)] by auto
  qed
  obtain i where i: "x = mblk start bs i" "unat x = unat start + i * unat bs" "Suc i * unat bs \<le> unat sz" using blk [OF x] by blast
  show "unat start \<le> unat x" "unat x + unat bs \<le> unat start + unat sz" using i by simp_all
  assume y: "y \<in> set (mblks start bs sz)" and ne: "x \<noteq> y"
  obtain k where k: "y = mblk start bs k" "unat y = unat start + k * unat bs" using blk [OF y] by blast
  have "i \<noteq> k" using ne i k by auto
  then have "Suc i * unat bs \<le> k * unat bs \<or> Suc k * unat bs \<le> i * unat bs" by (metis Suc_leI linorder_neqE_nat mult_le_mono1)
  then show "unat x + unat bs \<le> unat y \<or> unat y + unat bs \<le> unat x" using i k by auto
qed

lemma distinct_mblks: "mblk_fits start bs sz \<Longrightarrow> distinct (mblks start bs sz)"
proof -
  assume f: "mblk_fits start bs sz"
  have B: "0 < unat bs" using f by (simp add: mblk_fits_def)
  have le: "i * unat bs \<le> unat sz" if "i < unat sz div unat bs" for i
    using le_trans [OF mult_le_mono1 [OF less_imp_le [OF that]] div_times_less_eq_dividend] .
  have "inj_on (mblk start bs) {0..<unat sz div unat bs}"
  proof (rule inj_onI)
    fix i k assume ik: "i \<in> {0..<unat sz div unat bs}" "k \<in> {0..<unat sz div unat bs}" "mblk start bs i = mblk start bs k"
    have "i * unat bs \<le> unat sz" by (rule le) (use ik in simp)
    note i = unat_mblk [OF f this]
    have "k * unat bs \<le> unat sz" by (rule le) (use ik in simp)
    note k = unat_mblk [OF f this]
    have "i * unat bs = k * unat bs" using i k unfolding ik(3) by linarith
    then show "i = k" using B by simp
  qed
  then show ?thesis by (simp add: mblks_def distinct_map)
qed

lemma pool_state_inv:
  assumes f: "mblk_fits start bs sz" and "pool_state start bs sz held p m"
  shows "pool_inv start bs sz held p m"
  using assms(2)
proof (induction rule: pool_state.induct)
  case (init p m p' m')
  then show ?case using mblk_init_rep [OF f, of p m] distinct_mblks [OF f] by (auto simp: pool_inv_def)
next
  case (alloc held p m b p')
  then obtain xs where r: "mblk_rep p m xs" "distinct (held @ xs)" "set (held @ xs) = set (mblks start bs sz)"
    by (auto simp: pool_inv_def)
  have av: "blk_avail p > 0" "b = avail_list p"
    "p' = p\<lparr>avail_list := get_u32 (unat (avail_list p)) m, blk_avail := blk_avail p - 1\<rparr>"
    using alloc.hyps(2) by (auto simp: krhino_mblk_alloc_def split: if_splits)
  then obtain ys where xs: "xs = b # ys" using r(1) by (cases xs) (auto simp: mblk_rep_def word_gt_0 unat_eq_zero)
  have "mblk_rep p' m ys" using r(1) av xs by (simp add: mblk_rep_def unat_minus_one word_gt_0)
  then show ?case using r(2,3) xs by (auto simp: pool_inv_def)
next
  case (free held p m b p' m')
  then obtain xs where r: "mblk_rep p m xs" "distinct (held @ xs)" "set (held @ xs) = set (mblks start bs sz)"
    by (auto simp: pool_inv_def)
  have e: "p' = p\<lparr>avail_list := b, blk_avail := blk_avail p + 1\<rparr>" "m' = put_u32 (unat b) (avail_list p) m"
    using free.hyps(3) by (auto simp: krhino_mblk_free_def split: if_splits)
  have b: "b \<in> set (mblks start bs sz)" "b \<notin> set xs" using r(2,3) free.hyps(2) by auto
  have B: "4 \<le> unat bs" using f by (simp add: mblk_fits_def)
  have "m' (unat x + i) = m (unat x + i)" if "x \<in> set xs" "i < 4" for x i
  proof -
    have "x \<in> set (mblks start bs sz)" "x \<noteq> b" using that b r(3) by auto
    then have "unat x + unat bs \<le> unat b \<or> unat b + unat bs \<le> unat x" using blocks_apart(3) [OF f _ b(1)] by blast
    then show ?thesis unfolding e using that(2) B by (intro put_u32_byte) linarith
  qed
  then have "chain m' (avail_list p) xs" using chain_cong [of xs m' m "avail_list p"] r(1) by (simp add: mblk_rep_def)
  moreover have "unat (blk_avail p + 1) = Suc (length xs)"
  proof -
    have "card (set (held @ xs)) \<le> length (mblks start bs sz)" unfolding r(3) by (rule card_length)
    also have "\<dots> < 2 ^ 32" using le_less_trans [OF div_le_dividend unsigned_less [of sz]] by (simp add: mblks_def)
    finally have "length held + length xs < 2 ^ 32" using r(2) by (simp add: distinct_card del: set_append)
    moreover have "0 < length held" using free.hyps(2) by (cases held) auto
    ultimately have "Suc (length xs) < 2 ^ 32" by linarith
    then show ?thesis using r(1) by (simp add: mblk_rep_def unat_word_ariths)
  qed
  ultimately have "mblk_rep p' m' (b # xs)" using r(1) by (simp add: mblk_rep_def e)
  moreover have "distinct (remove1 b held @ b # xs)" "set (remove1 b held @ b # xs) = set (mblks start bs sz)"
    using r(2,3) free.hyps(2) b(2) by auto
  ultimately show ?case unfolding pool_inv_def by blast
next
  case (use held p m m')
  then obtain xs where r: "mblk_rep p m xs" "distinct (held @ xs)" "set (held @ xs) = set (mblks start bs sz)"
    by (auto simp: pool_inv_def)
  have B: "4 \<le> unat bs" using f by (simp add: mblk_fits_def)
  have "m' (unat x + i) = m (unat x + i)" if x: "x \<in> set xs" and i: "i < 4" for x i
  proof (rule ccontr)
    assume "m' (unat x + i) \<noteq> m (unat x + i)"
    then have w: "(\<exists>b\<in>set held. unat b \<le> unat x + i \<and> unat x + i < unat b + unat bs) \<or> unat x + i < unat start \<or>
        unat start + unat sz \<le> unat x + i" by (rule use.hyps(2))
    have xm: "x \<in> set (mblks start bs sz)" using x r(3) by auto
    have "unat x + unat bs \<le> unat b \<or> unat b + unat bs \<le> unat x" if "b \<in> set held" for b
      using that x r(2,3) blocks_apart(3) [OF f xm, of b] by auto
    then have "\<not> (unat b \<le> unat x + i \<and> unat x + i < unat b + unat bs)" if "b \<in> set held" for b
      using that B i by fastforce
    with w blocks_apart(1,2) [OF f xm] B i show False by auto
  qed
  then have "mblk_rep p m' xs" using chain_cong [of xs m' m "avail_list p"] r(1) by (simp add: mblk_rep_def)
  then show ?case using r(2,3) by (auto simp: pool_inv_def)
qed

section \<open>Properties\<close>

text \<open>C26. A pool never hands out a block that is still held, nor bytes of one: whatever its clients do with the blocks they hold, the blocks
  held are different blocks of the pool, an allocation succeeds exactly if not all of them are held, and the new block overlaps none
  of them.\<close>

theorem mblk_alloc_fresh:
  assumes "mblk_fits start bs sz" and "pool_state start bs sz held p m"
  shows "distinct held \<and> set held \<subseteq> set (mblks start bs sz) \<and>
    (case krhino_mblk_alloc p m of (e, b, p') \<Rightarrow>
      if length held < unat sz div unat bs
      then e = RHINO_SUCCESS \<and> (\<exists>x. b = Some x \<and> x \<in> set (mblks start bs sz) \<and>
        (\<forall>y\<in>set held. unat x + unat bs \<le> unat y \<or> unat y + unat bs \<le> unat x))
      else e = RHINO_NO_MEM)"
proof -
  obtain xs where r: "mblk_rep p m xs" "distinct (held @ xs)" "set (held @ xs) = set (mblks start bs sz)"
    using pool_state_inv [OF assms] by (auto simp: pool_inv_def)
  have "card (set (held @ xs)) = unat sz div unat bs"
    unfolding r(3) using distinct_mblks [OF assms(1)] by (simp only: distinct_card) (simp add: mblks_def)
  then have len: "length held + length xs = unat sz div unat bs" using r(2) by (simp only: distinct_card) simp
  have d: "distinct held" "set held \<subseteq> set (mblks start bs sz)" using r(2,3) by auto
  show ?thesis
  proof (cases xs)
    case Nil
    then have "blk_avail p = 0" using r(1) by (simp add: mblk_rep_def unat_eq_zero)
    then show ?thesis using Nil len d r(1) by (simp add: krhino_mblk_alloc_def mblk_rep_def)
  next
    case (Cons x ys)
    have av: "blk_avail p > 0" "avail_list p = x" using r(1) Cons by (auto simp: mblk_rep_def word_gt_0)
    have x: "x \<in> set (mblks start bs sz)" "x \<notin> set held" using r(2,3) Cons by auto
    have "unat x + unat bs \<le> unat y \<or> unat y + unat bs \<le> unat x" if "y \<in> set held" for y
      using blocks_apart(3) [OF assms(1) x(1), of y] that d(2) x(2) by blast
    then show ?thesis using av x(1) d len Cons r(1) by (simp add: krhino_mblk_alloc_def mblk_rep_def)
  qed
qed

definition ex_pool :: mblk_pool_t where
  "ex_pool = \<lparr>pool_obj_type = RHINO_OBJ_TYPE_NONE, pool_blk_size = 0, blk_avail = 0, blk_whole = 0, avail_list = 0\<rparr>"

lemma ex_pool_fits: "mblk_fits 4096 16 40"
  by (simp add: mblk_fits_def)

theorem mblk_alloc_fresh_witness:
  "\<exists>p m. krhino_mblk_pool_init 4096 16 40 ex_pool (\<lambda>_. 0) = Some (RHINO_SUCCESS, p, m) \<and> fst (krhino_mblk_alloc p m) = RHINO_SUCCESS"
proof -
  obtain p m where i: "krhino_mblk_pool_init 4096 16 40 ex_pool (\<lambda>_. 0) = Some (RHINO_SUCCESS, p, m)"
    using mblk_init_rep [OF ex_pool_fits] by blast
  from mblk_alloc_fresh [OF ex_pool_fits pool_state.init [OF i]] i show ?thesis by (auto split: prod.splits)
qed

text \<open>C37. Initialising a pool that is aligned, holds two blocks and does not reach the end of the address space returns, and all whole blocks of
  the pool are free.\<close>

theorem mblk_pool_init_ends:
  assumes "mblk_fits start bs sz"
  shows "\<exists>p' m'. krhino_mblk_pool_init start bs sz p m = Some (RHINO_SUCCESS, p', m') \<and> mblk_rep p' m' (mblks start bs sz)"
  by (rule mblk_init_rep [OF assms])

theorem mblk_pool_init_ends_witness:
  "\<exists>p' m'. krhino_mblk_pool_init 4096 16 40 ex_pool (\<lambda>_. 0) = Some (RHINO_SUCCESS, p', m') \<and> mblk_rep p' m' [4096, 4112]"
  using mblk_pool_init_ends [OF ex_pool_fits, of ex_pool "\<lambda>_. 0"] by (simp add: mblks_def mblk_def upt_rec)

text \<open>Blocks of size zero pass the checks, and the call does not return.\<close>

lemma mblk_zero_diverges:
  assumes "start AND 3 = 0" and "sz AND 3 = 0" and "start < start + sz"
  shows "krhino_mblk_pool_init start 0 sz p m = None"
proof -
  have nd: "\<not> (next < e \<and> bs = 0)" if "mblk_link bs e blks cur next m = Some r" for bs e blks cur "next" m r
    by (rule mblk_link.raw_induct [where P = "\<lambda>bs e blks cur next m r. \<not> (next < e \<and> bs = 0)", OF _ that]) (fastforce split: if_splits)
  have "mblk_link 0 (start + sz) 0 start start m = None"
  proof (rule ccontr)
    assume "mblk_link 0 (start + sz) 0 start start m \<noteq> None"
    then obtain r where "mblk_link 0 (start + sz) 0 start start m = Some r" by blast
    from nd [OF this] assms(3) show False by simp
  qed
  then show ?thesis using assms by (simp add: krhino_mblk_pool_init_def Let_def)
qed

end
