(* ===== verification/K_Fifo.thy ===== *)
theory K_Fifo
  imports K_Mem
begin

text \<open>
  The byte fifo of \<^verbatim>\<open>common/k_fifo.c\<close>: a buffer whose size is a power of two, with two 32-bit counters that are never
  reset and wrap around; the position in the buffer is the counter without its high bits.
\<close>

record k_fifo =
  fi_in :: u32
  fi_out :: u32
  fi_mask :: u32
  fi_data :: u32
  free_bytes :: u32
  fi_size :: u32

definition fifo_min :: "u32 \<Rightarrow> u32 \<Rightarrow> u32" where
  "fifo_min x y = (if x > y then y else x)"

definition fifo_unused :: "k_fifo \<Rightarrow> u32" where
  "fifo_unused fifo = (fi_mask fifo + 1) - (fi_in fifo - fi_out fifo)"

definition is_power_of_2 :: "u32 \<Rightarrow> bool" where
  "is_power_of_2 n \<longleftrightarrow> n \<noteq> 0 \<and> n AND (n - 1) = 0"

definition fifo_init :: "k_fifo \<Rightarrow> u32 \<Rightarrow> u32 \<Rightarrow> int \<times> k_fifo" where
  "fifo_init fifo buffer sz =
    (if \<not> is_power_of_2 sz then (1, fifo)
     else
       let fifo = fifo\<lparr>fi_in := 0, fi_out := 0, fi_data := buffer\<rparr>
       in if sz < 2 then (1, fifo\<lparr>fi_mask := 0\<rparr>)
          else (0, fifo\<lparr>fi_mask := sz - 1, free_bytes := sz, fi_size := sz\<rparr>))"

text \<open>The source of a copy is a function of the offset.\<close>

definition fifo_copy_in :: "k_fifo \<Rightarrow> (nat \<Rightarrow> u8) \<Rightarrow> u32 \<Rightarrow> u32 \<Rightarrow> mem \<Rightarrow> mem" where
  "fifo_copy_in fifo src len off m =
    (let sz = fi_mask fifo + 1;
         off = off AND fi_mask fifo;
         l = fifo_min len (sz - off);
         m = memcpy (unat (fi_data fifo) + unat off) src (unat l) m
     in memcpy (unat (fi_data fifo)) (\<lambda>i. src (unat l + i)) (unat (len - l)) m)"

definition fifo_in :: "k_fifo \<Rightarrow> (nat \<Rightarrow> u8) \<Rightarrow> u32 \<Rightarrow> mem \<Rightarrow> u32 \<times> k_fifo \<times> mem" where
  "fifo_in fifo buf len m =
    (let l = fifo_unused fifo;
         len = (if len > l then l else len);
         m = fifo_copy_in fifo buf len (fi_in fifo) m
     in (len, fifo\<lparr>fi_in := fi_in fifo + len, free_bytes := free_bytes fifo - len\<rparr>, m))"

definition kfifo_copy_out :: "k_fifo \<Rightarrow> nat \<Rightarrow> u32 \<Rightarrow> u32 \<Rightarrow> mem \<Rightarrow> mem" where
  "kfifo_copy_out fifo dst len off m =
    (let sz = fi_mask fifo + 1;
         off = off AND fi_mask fifo;
         l = fifo_min len (sz - off);
         m = memcpy dst (\<lambda>i. m (unat (fi_data fifo) + unat off + i)) (unat l) m
     in memcpy (dst + unat l) (\<lambda>i. m (unat (fi_data fifo) + i)) (unat (len - l)) m)"

definition internal_fifo_out_peek :: "k_fifo \<Rightarrow> nat \<Rightarrow> u32 \<Rightarrow> mem \<Rightarrow> u32 \<times> mem" where
  "internal_fifo_out_peek fifo buf len m =
    (let l = fi_in fifo - fi_out fifo;
         len = (if len > l then l else len)
     in (len, kfifo_copy_out fifo buf len (fi_out fifo) m))"

definition fifo_out_peek :: "k_fifo \<Rightarrow> nat \<Rightarrow> u32 \<Rightarrow> mem \<Rightarrow> u32 \<times> mem" where
  "fifo_out_peek fifo buf len m = internal_fifo_out_peek fifo buf len m"

definition fifo_out :: "k_fifo \<Rightarrow> nat \<Rightarrow> u32 \<Rightarrow> mem \<Rightarrow> u32 \<times> k_fifo \<times> mem" where
  "fifo_out fifo buf len m =
    (let (len, m) = internal_fifo_out_peek fifo buf len m
     in (len, fifo\<lparr>fi_out := fi_out fifo + len, free_bytes := free_bytes fifo + len\<rparr>, m))"

definition fifo_out_all :: "k_fifo \<Rightarrow> nat \<Rightarrow> mem \<Rightarrow> u32 \<times> k_fifo \<times> mem" where
  "fifo_out_all fifo buf m =
    (let len = fi_size fifo - free_bytes fifo
     in if len = 0 then (0, fifo, m)
        else
          let (len, m) = internal_fifo_out_peek fifo buf len m
          in (len, fifo\<lparr>fi_out := fi_out fifo + len, free_bytes := free_bytes fifo + len\<rparr>, m))"

section \<open>The bytes in the fifo\<close>

definition fifo_wf :: "k_fifo \<Rightarrow> bool" where
  "fifo_wf f \<longleftrightarrow> (\<exists>k<32. fi_mask f = mask k \<and> fi_size f = 2 ^ k) \<and> fi_in f - fi_out f \<le> fi_size f \<and>
     free_bytes f = fi_size f - (fi_in f - fi_out f)"

definition cap :: "k_fifo \<Rightarrow> nat" where
  "cap f = unat (fi_size f)"

definition used :: "k_fifo \<Rightarrow> nat" where
  "used f = unat (fi_in f - fi_out f)"

definition slot :: "k_fifo \<Rightarrow> nat \<Rightarrow> nat" where
  "slot f i = unat (fi_data f) + i mod cap f"

definition fifo_bytes :: "k_fifo \<Rightarrow> mem \<Rightarrow> u8 list" where
  "fifo_bytes f m = map (\<lambda>i. m (slot f (unat (fi_out f) + i))) [0..<used f]"

lemma wf_facts:
  assumes "fifo_wf f"
  shows "0 < cap f" "cap f dvd 2 ^ 32" "unat (x AND fi_mask f) = unat x mod cap f" "fi_mask f + 1 = fi_size f"
    "used f \<le> cap f" "unat (fifo_unused f) = cap f - used f" "unat (free_bytes f) = cap f - used f"
proof -
  obtain k where k: "k < 32" "fi_mask f = mask k" "fi_size f = 2 ^ k" using assms by (auto simp: fifo_wf_def)
  have lt: "(2::nat) ^ k < 2 ^ 32" using k(1) by (rule power_strict_increasing) simp
  have "fi_size f = of_nat (2 ^ k)" using k(3) by simp
  then have c: "cap f = 2 ^ k" using lt by (simp only: cap_def unat_of_nat) simp
  show "0 < cap f" by (simp add: c)
  show "cap f dvd 2 ^ 32" unfolding c by (rule le_imp_power_dvd) (use k(1) in simp)
  have "x AND fi_mask f = take_bit k x" by (simp add: k take_bit_eq_mask)
  moreover have "unat (take_bit k x) = take_bit k (unat x)" by (simp add: unsigned_take_bit_eq)
  ultimately show "unat (x AND fi_mask f) = unat x mod cap f" unfolding c by (simp only: take_bit_eq_mod)
  show m: "fi_mask f + 1 = fi_size f" by (simp add: k mask_eq_exp_minus_1)
  have u: "fi_in f - fi_out f \<le> fi_size f" using assms by (simp add: fifo_wf_def)
  then show "used f \<le> cap f" by (simp add: used_def cap_def word_le_nat_alt)
  show "unat (fifo_unused f) = cap f - used f" using u by (simp add: fifo_unused_def m unat_sub used_def cap_def)
  show "unat (free_bytes f) = cap f - used f" using u assms by (simp add: fifo_wf_def unat_sub used_def cap_def)
qed

lemma slot_add: "0 < cap f \<Longrightarrow> slot f (i mod cap f + j) = slot f (i + j)"
  by (simp add: slot_def mod_add_left_eq)

lemma copy_two:
  fixes d o' n c j l :: nat
  assumes "o' < c" and "n \<le> c" and "j < c" and "l = min n (c - o')"
  shows "memcpy d (\<lambda>i. src (l + i)) (n - l) (memcpy (d + o') src l m) (if o' + j < c then d + (o' + j) else d + (o' + j - c)) =
    (if j < n then src j else m (if o' + j < c then d + (o' + j) else d + (o' + j - c)))"
proof (cases "o' + j < c")
  case True
  then have "\<not> o' + j < n - l" using assms by (simp add: min_def split: if_splits)
  moreover have "j < l \<longleftrightarrow> j < n" using True assms by (simp add: min_def) linarith
  ultimately show ?thesis using True by (simp add: memcpy_def)
next
  case False
  then have k: "o' + j - c < o'" using assms by linarith
  moreover have "l + (o' + j - c) = j \<or> n \<le> j" using False assms by (cases "n \<le> c - o'") (simp_all, linarith)
  moreover have "o' + j - c < n - l \<longleftrightarrow> j < n" using False assms by (simp add: min_def) linarith
  ultimately show ?thesis using False by (auto simp: memcpy_def)
qed

text \<open>Where a byte is written: the \<open>j\<close>-th byte from position \<open>off\<close>.\<close>

lemma copy_in_byte:
  assumes wf: "fifo_wf f" and len: "unat len \<le> cap f" and j: "j < cap f"
  shows "fifo_copy_in f src len off m (slot f (unat off + j)) = (if j < unat len then src j else m (slot f (unat off + j)))"
proof -
  note w = wf_facts [OF wf]
  let ?o = "unat off mod cap f" and ?d = "unat (fi_data f)"
  let ?l = "min (unat len) (cap f - ?o)"
  have o: "unat (off AND fi_mask f) = ?o" by (rule w(3))
  have lo: "?o < cap f" using w(1) by simp
  have "off AND fi_mask f \<le> fi_size f" using lo o by (simp add: word_le_nat_alt cap_def)
  then have r: "unat (fi_size f - (off AND fi_mask f)) = cap f - ?o" by (simp add: unat_sub o cap_def)
  have l: "unat (fifo_min len (fi_size f - (off AND fi_mask f))) = ?l"
    by (auto simp: fifo_min_def r word_less_nat_alt)
  have "fifo_min len (fi_size f - (off AND fi_mask f)) \<le> len" by (auto simp: fifo_min_def)
  then have l2: "unat (len - fifo_min len (fi_size f - (off AND fi_mask f))) = unat len - ?l" by (simp add: unat_sub l)
  have e: "fifo_copy_in f src len off m =
      memcpy ?d (\<lambda>i. src (?l + i)) (unat len - ?l) (memcpy (?d + ?o) src ?l m)"
    unfolding fifo_copy_in_def Let_def w(4) by (simp only: l l2 o)
  have s: "slot f (unat off + j) = (if ?o + j < cap f then ?d + (?o + j) else ?d + (?o + j - cap f))"
  proof -
    have "(unat off + j) mod cap f = (?o + j) mod cap f" by (simp add: mod_add_left_eq)
    also have "\<dots> = (if ?o + j < cap f then ?o + j else ?o + j - cap f)"
      using lo j by (intro mod_lt_double) linarith
    finally show ?thesis by (simp add: slot_def)
  qed
  show ?thesis unfolding e s by (rule copy_two [OF lo len j refl])
qed

text \<open>The counters may wrap around: the size divides their range.\<close>

lemma slot_counter:
  fixes x :: u32
  assumes "fifo_wf f"
  shows "slot f (unat (x + of_nat i) + j) = slot f (unat x + i + j)" "slot f (unat (fi_in f) + j) = slot f (unat (fi_out f) + used f + j)"
proof -
  have d: "cap f dvd 2 ^ 32" by (rule wf_facts(2) [OF assms])
  have u: "unat (x + y) mod cap f = (unat x + unat y) mod cap f" for x y :: u32
    using d by (simp add: unat_word_ariths mod_mod_cancel)
  have n: "unat (of_nat i :: u32) mod cap f = i mod cap f"
    using d by (simp add: unat_of_nat mod_mod_cancel)
  have "unat (x + of_nat i) mod cap f = (unat x + i) mod cap f"
    unfolding u using n by (rule mod_add_cong [OF refl])
  from mod_add_cong [OF this refl, of j] show "slot f (unat (x + of_nat i) + j) = slot f (unat x + i + j)"
    unfolding slot_def by (rule arg_cong)
  have "unat (fi_in f) mod cap f = (unat (fi_out f) + used f) mod cap f"
    using u [of "fi_out f" "fi_in f - fi_out f"] by (simp add: used_def)
  from mod_add_cong [OF this refl, of j] show "slot f (unat (fi_in f) + j) = slot f (unat (fi_out f) + used f + j)"
    unfolding slot_def by (rule arg_cong)
qed

lemma fifo_in_bytes:
  fixes len :: u32
  assumes wf: "fifo_wf f"
  defines "l \<equiv> min (unat len) (cap f - used f)"
  shows "\<exists>f' m'. fifo_in f src len m = (of_nat l, f', m') \<and> fifo_wf f' \<and> cap f' = cap f \<and> fi_data f' = fi_data f \<and>
    fifo_bytes f' m' = fifo_bytes f m @ map src [0..<l]"
proof -
  note w = wf_facts [OF wf]
  let ?n = "if len > fifo_unused f then fifo_unused f else len"
  let ?f = "f\<lparr>fi_in := fi_in f + ?n, free_bytes := free_bytes f - ?n\<rparr>" and ?m = "fifo_copy_in f src ?n (fi_in f) m"
  have un: "unat ?n = l" by (auto simp: l_def w(6) word_less_nat_alt)
  have lc: "used f + l \<le> cap f" using w(5) by (simp add: l_def)
  have diff: "fi_in f + ?n - fi_out f = (fi_in f - fi_out f) + ?n" by (simp add: algebra_simps)
  have c32: "cap f < 2 ^ 32" using unsigned_less [of "fi_size f"] by (simp add: cap_def)
  have ul: "unat (fi_in f + ?n - fi_out f) = used f + l"
    using lc c32 unfolding diff by (simp add: unat_word_ariths un flip: used_def)
  have wf': "fifo_wf ?f"
  proof -
    have "fi_in f + ?n - fi_out f \<le> fi_size f" using ul lc by (simp add: word_le_nat_alt cap_def)
    moreover have "free_bytes f - ?n = fi_size f - (fi_in f + ?n - fi_out f)" using wf unfolding diff by (simp add: fifo_wf_def)
    ultimately show ?thesis using wf by (auto simp: fifo_wf_def)
  qed
  have same: "cap ?f = cap f" "slot ?f = slot f" by (simp_all add: cap_def slot_def fun_eq_iff)
  have old: "?m (slot f (unat (fi_out f) + i)) = m (slot f (unat (fi_out f) + i))" if "i < used f" for i
  proof -
    let ?j = "cap f - used f + i"
    have j: "?j < cap f" "\<not> ?j < l" using that w(5) lc by auto
    have "slot f (unat (fi_in f) + ?j) = slot f (unat (fi_out f) + used f + ?j)" by (rule slot_counter(2) [OF wf])
    also have "unat (fi_out f) + used f + ?j = unat (fi_out f) + i + cap f" using w(5) by simp
    also have "slot f \<dots> = slot f (unat (fi_out f) + i)" by (simp add: slot_def)
    finally show ?thesis using copy_in_byte [OF wf, of ?n ?j src "fi_in f" m] j un lc by simp
  qed
  have new: "?m (slot f (unat (fi_out f) + (used f + i))) = src i" if "i < l" for i
    using copy_in_byte [OF wf, of ?n i src "fi_in f" m] that lc un slot_counter(2) [OF wf, of i] by (simp add: add.assoc)
  have "fifo_bytes ?f ?m = fifo_bytes f m @ map src [0..<l]"
  proof (rule nth_equalityI)
    have len: "used ?f = used f + l" using ul by (simp add: used_def)
    then show "length (fifo_bytes ?f ?m) = length (fifo_bytes f m @ map src [0..<l])" by (simp add: fifo_bytes_def)
    fix i assume "i < length (fifo_bytes ?f ?m)"
    then have i: "i < used f + l" by (simp add: fifo_bytes_def len)
    show "fifo_bytes ?f ?m ! i = (fifo_bytes f m @ map src [0..<l]) ! i"
    proof (cases "i < used f")
      case True
      then show ?thesis using old [OF True] i by (simp add: fifo_bytes_def len same nth_append)
    next
      case False
      then have "i - used f < l" "used f + (i - used f) = i" using i by simp_all
      with new [OF this(1)] False i show ?thesis by (simp add: fifo_bytes_def len same nth_append)
    qed
  qed
  moreover have "fifo_in f src len m = (of_nat l, ?f, ?m)" by (simp add: fifo_in_def Let_def un [symmetric])
  ultimately show ?thesis using wf' same by (intro exI [of _ ?f] exI [of _ ?m]) simp
qed

lemma memcpy_in: "d \<le> a \<Longrightarrow> a < d + n \<Longrightarrow> memcpy d src n m a = src (a - d)"
  by (simp add: memcpy_def)

lemma copy_out_byte:
  assumes wf: "fifo_wf f" and len: "unat len \<le> cap f" and out: "dst + unat len \<le> unat (fi_data f) \<or> unat (fi_data f) + cap f \<le> dst"
  shows "mem_read (kfifo_copy_out f dst len off m) dst (unat len) = map (\<lambda>j. m (slot f (unat off + j))) [0..<unat len]"
    "a < dst \<or> dst + unat len \<le> a \<Longrightarrow> kfifo_copy_out f dst len off m a = m a"
proof -
  note w = wf_facts [OF wf]
  let ?o = "unat off mod cap f" and ?d = "unat (fi_data f)"
  define L where "L = min (unat len) (cap f - ?o)"
  have o: "unat (off AND fi_mask f) = ?o" by (rule w(3))
  have lo: "?o < cap f" using w(1) by simp
  have "off AND fi_mask f \<le> fi_size f" using lo o by (simp add: word_le_nat_alt cap_def)
  then have r: "unat (fi_size f - (off AND fi_mask f)) = cap f - ?o" by (simp add: unat_sub o cap_def)
  have l: "unat (fifo_min len (fi_size f - (off AND fi_mask f))) = L" by (auto simp: fifo_min_def r word_less_nat_alt L_def)
  have "fifo_min len (fi_size f - (off AND fi_mask f)) \<le> len" by (auto simp: fifo_min_def)
  then have l2: "unat (len - fifo_min len (fi_size f - (off AND fi_mask f))) = unat len - L" by (simp add: unat_sub l)
  let ?m = "memcpy dst (\<lambda>i. m (?d + ?o + i)) L m"
  have e: "kfifo_copy_out f dst len off m = memcpy (dst + L) (\<lambda>i. ?m (?d + i)) (unat len - L) ?m"
    unfolding kfifo_copy_out_def Let_def w(4) by (simp only: l l2 o)
  have ll: "L \<le> unat len" "L \<le> cap f - ?o" "L = unat len \<or> L = cap f - ?o" by (auto simp: L_def min_def)
  show "kfifo_copy_out f dst len off m a = m a" if "a < dst \<or> dst + unat len \<le> a"
    unfolding e using that ll(1) by (auto simp: memcpy_def)
  have "kfifo_copy_out f dst len off m (dst + j) = m (slot f (unat off + j))" if j: "j < unat len" for j
  proof -
    have "(unat off + j) mod cap f = (?o + j) mod cap f" by (simp add: mod_add_left_eq)
    also have "\<dots> = (if ?o + j < cap f then ?o + j else ?o + j - cap f)" using lo j len by (intro mod_lt_double) linarith
    finally have s: "slot f (unat off + j) = (if ?o + j < cap f then ?d + (?o + j) else ?d + (?o + j - cap f))" by (simp add: slot_def)
    show ?thesis
    proof (cases "j < L")
      case True
      then have "?o + j < cap f" using ll(2) by linarith
      then show ?thesis unfolding e s using True by (simp add: memcpy_def add.assoc)
    next
      case False
      then have k: "\<not> ?o + j < cap f" "j - L = ?o + j - cap f" "?o + j - cap f < cap f" using j lo len ll by linarith+
      have "?m (?d + (?o + j - cap f)) = m (?d + (?o + j - cap f))" using out k(3) ll(1) by (auto simp: memcpy_def)
      moreover have "kfifo_copy_out f dst len off m (dst + j) = ?m (?d + (dst + j - (dst + L)))"
        unfolding e by (rule memcpy_in) (use False j ll(1) in simp_all)
      moreover have "dst + j - (dst + L) = ?o + j - cap f" using k(2) by simp
      ultimately show ?thesis unfolding s using k(1) by simp
    qed
  qed
  then show "mem_read (kfifo_copy_out f dst len off m) dst (unat len) = map (\<lambda>j. m (slot f (unat off + j))) [0..<unat len]"
    by (simp add: mem_read_def)
qed

lemma fifo_out_bytes:
  fixes len :: u32
  assumes wf: "fifo_wf f"
  defines "l \<equiv> min (unat len) (used f)"
  assumes out: "dst + l \<le> unat (fi_data f) \<or> unat (fi_data f) + cap f \<le> dst"
  shows "\<exists>f' m'. fifo_out f dst len m = (of_nat l, f', m') \<and> fifo_wf f' \<and> cap f' = cap f \<and> fi_data f' = fi_data f \<and>
    mem_read m' dst l = take l (fifo_bytes f m) \<and> fifo_bytes f' m' = drop l (fifo_bytes f m)"
proof -
  note w = wf_facts [OF wf]
  let ?u = "fi_in f - fi_out f"
  let ?n = "if len > ?u then ?u else len"
  let ?f = "f\<lparr>fi_out := fi_out f + ?n, free_bytes := free_bytes f + ?n\<rparr>" and ?m = "kfifo_copy_out f dst ?n (fi_out f) m"
  have un: "unat ?n = l" by (auto simp: l_def used_def word_less_nat_alt)
  have lu: "l \<le> used f" by (simp add: l_def)
  have diff: "fi_in f - (fi_out f + ?n) = ?u - ?n" by (simp add: algebra_simps)
  have "?n \<le> ?u" by (simp add: word_le_nat_alt un lu flip: used_def)
  then have ul: "unat (fi_in f - (fi_out f + ?n)) = used f - l" unfolding diff by (simp only: unat_sub un used_def)
  have wf': "fifo_wf ?f"
  proof -
    have "?u - ?n \<le> fi_size f" using ul w(5) unfolding diff by (simp add: word_le_nat_alt cap_def)
    moreover have "free_bytes f + ?n = fi_size f - (?u - ?n)" using wf by (simp add: fifo_wf_def)
    ultimately show ?thesis using wf unfolding fifo_wf_def by (simp add: diff)
  qed
  have same: "cap ?f = cap f" "slot ?f = slot f" "used ?f = used f - l" using ul by (simp_all add: cap_def slot_def fun_eq_iff used_def)
  have c: "unat ?n \<le> cap f" "dst + unat ?n \<le> unat (fi_data f) \<or> unat (fi_data f) + cap f \<le> dst" using un lu w(5) out by auto
  note rd = copy_out_byte [OF wf c, where off = "fi_out f" and m = m, unfolded un]
  have bytes: "mem_read ?m dst l = take l (fifo_bytes f m)"
    unfolding rd(1) using lu by (simp add: fifo_bytes_def take_map)
  have unch: "?m (slot f i) = m (slot f i)" for i
  proof (rule rd(2))
    have "i mod cap f < cap f" using w(1) by simp
    then show "slot f i < dst \<or> dst + l \<le> slot f i" using c(2) un unfolding slot_def by linarith
  qed
  have "unat (fi_out f + ?n) = unat (fi_out f + of_nat l)" by (simp add: un [symmetric])
  then have sl: "slot f (unat (fi_out f + ?n) + i) = slot f (unat (fi_out f) + l + i)" for i
    using slot_counter(1) [OF wf, of "fi_out f" l i] by simp
  have "fifo_bytes ?f ?m = drop l (fifo_bytes f m)"
  proof (rule nth_equalityI)
    show "length (fifo_bytes ?f ?m) = length (drop l (fifo_bytes f m))" by (simp add: fifo_bytes_def same)
    fix i assume "i < length (fifo_bytes ?f ?m)"
    then have i: "i < used f - l" by (simp add: fifo_bytes_def same)
    have "fifo_bytes ?f ?m ! i = m (slot f (unat (fi_out f) + l + i))"
      using i sl [of i] unch [of "unat (fi_out f) + l + i"] by (simp add: fifo_bytes_def same)
    moreover have "drop l (fifo_bytes f m) ! i = m (slot f (unat (fi_out f) + l + i))"
      using i nth_upt [of 0 "l + i" "used f"] by (simp add: fifo_bytes_def add.assoc)
    ultimately show "fifo_bytes ?f ?m ! i = drop l (fifo_bytes f m) ! i" by simp
  qed
  moreover have "fifo_out f dst len m = (of_nat l, ?f, ?m)"
    by (simp add: fifo_out_def internal_fifo_out_peek_def Let_def un [symmetric])
  ultimately show ?thesis using wf' same bytes by (intro exI [of _ ?f] exI [of _ ?m]) simp
qed

text \<open>The test for a power of two is right.\<close>

lemma power_of_2_nat:
  fixes n :: nat
  assumes "0 < n" and "n AND (n - 1) = 0"
  shows "\<exists>k. n = 2 ^ k"
proof -
  have "\<exists>k q. n = 2 ^ k * (2 * q + 1)" using assms(1)
  proof (induction n rule: less_induct)
    case (less n)
    show ?case
    proof (cases "even n")
      case True
      then obtain h where h: "n = 2 * h" by blast
      then obtain k q where "h = 2 ^ k * (2 * q + 1)" using less.IH [of h] less.prems by auto
      then have "n = 2 ^ Suc k * (2 * q + 1)" using h by simp
      then show ?thesis by blast
    next
      case False
      then obtain q where "n = 2 * q + 1" by (rule oddE)
      then have "n = 2 ^ 0 * (2 * q + 1)" by simp
      then show ?thesis by blast
    qed
  qed
  then obtain k q where n: "n = 2 ^ k * (2 * q + 1)" by blast
  have e: "n = 2 ^ k + 2 ^ Suc k * q" "n - 1 = (2 ^ k - 1) + 2 ^ Suc k * q" by (simp_all add: n algebra_simps)
  have lt: "(2::nat) ^ k < 2 ^ Suc k" "(2::nat) ^ k - 1 < 2 ^ Suc k" by (simp_all add: less_imp_diff_less)
  have d: "(r + c * q) div c = q" if "r < c" for r c :: nat using that by simp
  have "n div 2 ^ Suc k = q" "(n - 1) div 2 ^ Suc k = q" using d [OF lt(1)] d [OF lt(2)] by (simp_all only: e(1) [symmetric] e(2) [symmetric])
  then have "drop_bit (Suc k) n = q" "drop_bit (Suc k) (n - 1) = q" by (simp_all only: drop_bit_eq_div)
  then have "drop_bit (Suc k) (n AND (n - 1)) = q AND q" by (simp only: drop_bit_and)
  then have "q = 0" unfolding assms(2) by simp
  then show ?thesis using n by auto
qed

lemma fifo_init_wf:
  assumes "fifo_init f buf sz = (0, f')"
  shows "fifo_wf f' \<and> cap f' = unat sz \<and> fi_data f' = buf \<and> fifo_bytes f' m = []"
proof -
  have p: "sz \<noteq> 0" "sz AND (sz - 1) = 0" and f': "f' = f\<lparr>fi_in := 0, fi_out := 0, fi_data := buf, fi_mask := sz - 1, free_bytes := sz, fi_size := sz\<rparr>"
    using assms by (auto simp: fifo_init_def is_power_of_2_def Let_def split: if_splits)
  have "unat sz AND (unat sz - 1) = unat (sz AND (sz - 1))" using p(1) by (simp add: unsigned_and_eq unat_minus_one)
  then obtain k where k: "unat sz = 2 ^ k" using power_of_2_nat [of "unat sz"] p by (auto simp: unat_gt_0)
  have "unat sz < 2 ^ 32" using unsigned_less [of sz] by simp
  then have "(2::nat) ^ k < 2 ^ 32" unfolding k .
  then have k32: "k < 32" by (rule power_less_imp_less_exp [rotated]) simp
  have "of_nat (unat sz) = sz" by simp
  then have sz: "sz = 2 ^ k" unfolding k by simp
  show ?thesis using k32 by (auto simp: f' fifo_wf_def sz mask_eq_exp_minus_1 cap_def fifo_bytes_def used_def)
qed

text \<open>C27. The fifo is a bounded queue of bytes, also across the wrap-around of its counters: writing accepts as many bytes as fit and appends
  them, reading delivers the oldest bytes, as many as there are up to the length asked for, and leaves the rest.\<close>

theorem fifo_refines:
  fixes len :: u32
  assumes "fifo_wf f"
    and "dst + min (unat len) (used f) \<le> unat (fi_data f) \<or> unat (fi_data f) + cap f \<le> dst"
  shows "(\<exists>f' m'. fifo_in f src len m = (of_nat (min (unat len) (cap f - used f)), f', m') \<and> fifo_wf f' \<and>
      fifo_bytes f' m' = fifo_bytes f m @ map src [0..<min (unat len) (cap f - used f)]) \<and>
    (\<exists>f' m'. fifo_out f dst len m = (of_nat (min (unat len) (used f)), f', m') \<and> fifo_wf f' \<and>
      mem_read m' dst (min (unat len) (used f)) = take (unat len) (fifo_bytes f m) \<and>
      fifo_bytes f' m' = drop (unat len) (fifo_bytes f m))"
proof -
  have "length (fifo_bytes f m) = used f" by (simp add: fifo_bytes_def)
  then have "take (min (unat len) (used f)) (fifo_bytes f m) = take (unat len) (fifo_bytes f m)"
    "drop (min (unat len) (used f)) (fifo_bytes f m) = drop (unat len) (fifo_bytes f m)"
    by (auto simp: min_def)
  note eqs = this
  show ?thesis using fifo_in_bytes [OF assms(1), of src len m] fifo_out_bytes [OF assms, of m] unfolding eqs by blast
qed

definition ex_fifo :: k_fifo where
  "ex_fifo = \<lparr>fi_in = 0xfffffffe, fi_out = 0xfffffffd, fi_mask = 7, fi_data = 64, free_bytes = 7, fi_size = 8\<rparr>"

text \<open>The witness writes across the wrap-around of the counter.\<close>

theorem fifo_refines_witness:
  "\<exists>f' m'. fifo_in ex_fifo (bytes_at [1, 2, 3]) 3 (\<lambda>a. 9) = (3, f', m') \<and> fifo_bytes f' m' = [9, 1, 2, 3]"
proof -
  have wf: "fifo_wf ex_fifo"
    unfolding fifo_wf_def by (intro conjI exI [of _ 3]) (simp_all add: ex_fifo_def mask_eq_exp_minus_1)
  have c: "cap ex_fifo = 8" "used ex_fifo = 1" "unat (fi_data ex_fifo) = 64" by (simp_all add: cap_def used_def ex_fifo_def)
  have b: "fifo_bytes ex_fifo (\<lambda>a. 9) = [9]" by (simp add: fifo_bytes_def c)
  have d: "0 + min (unat (3::u32)) (used ex_fifo) \<le> unat (fi_data ex_fifo) \<or> unat (fi_data ex_fifo) + cap ex_fifo \<le> 0"
    by (simp add: c)
  have m: "min (unat (3::u32)) (cap ex_fifo - used ex_fifo) = 3" by (simp add: c)
  have l: "map (bytes_at [1, 2, 3]) [0..<3] = [1, 2, 3]" by (simp add: bytes_at_def upt_rec)
  show ?thesis
    using fifo_refines [OF wf d, of "bytes_at [1, 2, 3]" "\<lambda>a. 9", THEN conjunct1] unfolding m l b by auto
qed

end
