(* ===== verification/Spec2Isabelle.thy ===== *)
theory Spec2Isabelle
  imports K_Messages K_Calls K_Timers K_Time K_MmBlk K_Fifo
begin

text \<open>
  Verification of the Rhino kernel.
\<close>

section \<open>The system\<close>

text \<open>C1. In every state the system reaches from reset by calls of tasks, interrupts and ticks, the invariant
  of the kernel holds and no task waits for something that is there.\<close>

theorem reachable_inv:
  assumes "reachable s"
  shows "sys_inv s \<and> inv_wait s"
  using reachable_good [OF assms] by (simp add: good_def)

theorem reachable_inv_witness: "reachable ex_pi \<and> sys_inv ex_pi \<and> inv_wait ex_pi"
  using reachable_inv [OF reachable_ex_pi] reachable_ex_pi by simp

text \<open>C2. While the scheduler is not locked and no interrupt is served, the running task is ready and no
  ready task is more urgent.\<close>

theorem reachable_runs_most_urgent:
  assumes "reachable s" and "g_sched_lock s = 0" and "g_intrpt_nested_level s = 0"
  shows "task_state (tcb s (g_active_task s)) = K_RDY \<and>
    (\<forall>u. task_state (tcb s u) = K_RDY \<longrightarrow> prio (tcb s (g_active_task s)) \<le> prio (tcb s u))"
proof -
  have s: "sys_inv s" using reachable_good [OF assms(1)] by (rule goodD)
  then have "g_active_task s = first_ready s" using assms sys_invD(3) by (auto simp: inv_running_def)
  then show ?thesis using first_ready_props [OF sys_invD(2) [OF s]] by simp
qed

theorem reachable_runs_most_urgent_witness:
  "task_state (tcb ex_two 2) = K_RDY \<and> task_state (tcb ex_two 3) = K_RDY \<and> prio (tcb ex_two 2) \<le> prio (tcb ex_two 3)"
proof -
  have e: "g_sched_lock ex_two = 0" "g_intrpt_nested_level ex_two = 0" "g_active_task ex_two = 2"
    "task_state (tcb ex_two 3) = K_RDY"
    by simp_all
  show ?thesis using reachable_runs_most_urgent [OF reachable_ex_two e(1,2)] e(3,4) by metis
qed

text \<open>C3. No wake-up is lost. A task that waits for a semaphore finds the count 0, one that waits for a queue finds it empty,
  one that waits for events finds its condition false, one that waits for a mutex finds it owned by
  another task, and nobody waits for a deleted object.\<close>

theorem reachable_no_lost_wakeup:
  assumes r: "reachable s" and t: "t \<in> set (blk_list (blk_objs s ob))"
  shows "case obj_type (blk_objs s ob) of
      RHINO_SEM_OBJ_TYPE \<Rightarrow> sem_count (sems s ob) = 0
    | RHINO_QUEUE_OBJ_TYPE \<Rightarrow> q_cur_num (queues s ob) = 0
    | RHINO_BUF_QUEUE_OBJ_TYPE \<Rightarrow> ringbuf_is_empty (bq_ringbuf (buf_queues s ob))
    | RHINO_EVENT_OBJ_TYPE \<Rightarrow> \<not> event_status (event_flags (events s ob)) (pend_flags (tcb s t)) (pend_option (tcb s t))
    | RHINO_MUTEX_OBJ_TYPE \<Rightarrow> (\<exists>w. mutex_task (mutexes s ob) = Some w \<and> w \<noteq> t)
    | RHINO_OBJ_TYPE_NONE \<Rightarrow> False
    | _ \<Rightarrow> True"
proof -
  note g = reachable_good [OF r]
  have w: "\<not> can_serve s ob (tcb s t)" using goodD(2) [OF g] t by (simp add: inv_wait_def)
  have p: "pended (tcb s t) \<and> blk_obj (tcb s t) = Some ob"
    using t kinvD(2) [OF goodD(3) [OF g]] unfolding inv_blk_def by blast
  have m: "\<exists>w. mutex_task (mutexes s ob) = Some w \<and> w \<noteq> t" if mx: "is_mutex s ob"
  proof -
    have ms: "mtx_struct s" using kernel_invD(3) goodD(4) [OF g] by blast
    moreover have "blk_list (blk_objs s ob) \<noteq> []" using t by auto
    ultimately obtain w where w: "mutex_task (mutexes s ob) = Some w"
      using mx unfolding mtx_struct_def by blast
    moreover have "w \<noteq> t"
    proof
      assume "w = t"
      then have "(t, t) \<in> waits_for s"
        using mx w p by (simp add: waits_for_def owner_of_def is_mutex_def)
      then show False using ms unfolding mtx_struct_def acyclic_def by blast
    qed
    ultimately show ?thesis by blast
  qed
  show ?thesis using w m by (cases "obj_type (blk_objs s ob)") (simp_all add: can_serve_def is_mutex_def word_gt_0)
qed

theorem reachable_no_lost_wakeup_witness:
  "1 \<in> set (blk_list (blk_objs ex_wait 10)) \<and> sem_count (sems ex_wait 10) = 0"
proof -
  have e: "1 \<in> set (blk_list (blk_objs ex_wait 10))" "obj_type (blk_objs ex_wait 10) = RHINO_SEM_OBJ_TYPE"
    by simp_all
  show ?thesis using reachable_no_lost_wakeup [OF reachable_ex_wait e(1)] e by simp
qed



text \<open>C5. Every task is where its state says. A ready task is in the ready list of its priority and in no other,
  a waiting task in the list of the object it waits for, a task with a timeout in the tick list, and the task list holds the
  tasks that exist; no list holds a task twice.\<close>

theorem reachable_places:
  assumes "reachable s"
  shows "(t \<in> set (cur_list_item (g_ready_queue s) p) \<longleftrightarrow> task_state (tcb s t) = K_RDY \<and> prio (tcb s t) = p) \<and>
    (t \<in> set (blk_list (blk_objs s ob)) \<longleftrightarrow> pended (tcb s t) \<and> blk_obj (tcb s t) = Some ob) \<and>
    (t \<in> set (g_tick_head s) \<longleftrightarrow> tick_head (tcb s t)) \<and> (sleeping (tcb s t) \<longrightarrow> tick_head (tcb s t)) \<and>
    (t \<in> set (g_tasks s) \<longleftrightarrow> live (tcb s t)) \<and> (live (tcb s t) \<longrightarrow> prio (tcb s t) < RHINO_CONFIG_PRI_MAX) \<and>
    distinct (cur_list_item (g_ready_queue s) p) \<and> distinct (blk_list (blk_objs s ob)) \<and> distinct (g_tick_head s) \<and>
    distinct (g_tasks s)"
proof -
  note i = kinvD [OF goodD(3) [OF reachable_good [OF assms]]]
  show ?thesis
    using i(1) i(2) i(3) i(4) unfolding inv_ready_def inv_blk_def inv_tick_def inv_tasks_def by blast
qed

theorem reachable_places_witness:
  "2 \<in> set (blk_list (blk_objs ex_pi 20)) \<and> pended (tcb ex_pi 2) \<and> blk_obj (tcb ex_pi 2) = Some 20 \<and>
   2 \<notin> set (cur_list_item (g_ready_queue ex_pi) 10)"
proof -
  have e: "2 \<in> set (blk_list (blk_objs ex_pi 20))" by (simp)
  show ?thesis using reachable_places [OF reachable_ex_pi, of 2 10 20] e by (auto simp: pended_def)
qed



text \<open>C7. From any state of zeroed globals, initialisation and start succeed, and the first task that runs is
  the timer task.\<close>

theorem boot_runs_timer_task:
  assumes "zeroed s"
  shows "fst (krhino_init buf s) = RHINO_SUCCESS \<and> fst (krhino_start (snd (krhino_init buf s))) = Blocked \<and>
    g_active_task (snd (krhino_start (snd (krhino_init buf s)))) = g_timer_task"
  using assms by (simp add: zeroed_def boot_evals)

theorem boot_runs_timer_task_witness:
  "zeroed zero_state \<and> g_active_task (snd (krhino_start (snd (krhino_init 4096 zero_state)))) = 1"
  using boot_runs_timer_task [OF zeroed_zero_state, of 4096] zeroed_zero_state by (simp add: g_timer_task_def)

section \<open>Time\<close>

text \<open>C8. Advancing the tick by \<open>n\<close> ends exactly the sleeps and timeouts of at most \<open>n\<close> ticks: such a task becomes ready, or stays
  suspended if it was suspended too, with the status \<open>BLK_TIMEOUT\<close> if it waited for an object;
  every other task keeps its state.\<close>

theorem tick_exact:
  assumes "kernel_inv s" and "n < 2 ^ 63"
  shows "(tick_head (tcb s t) \<and> ticks_left s t \<le> n \<longrightarrow>
      task_state (tcb (tick_list_update n s) t) =
        (if task_state (tcb s t) \<in> {K_SLEEP, K_PEND} then K_RDY else K_SUSPENDED) \<and>
      blk_state (tcb (tick_list_update n s) t) = (if pended (tcb s t) then BLK_TIMEOUT else BLK_FINISH) \<and>
      \<not> tick_head (tcb (tick_list_update n s) t)) \<and>
    (\<not> (tick_head (tcb s t) \<and> ticks_left s t \<le> n) \<longrightarrow>
      task_state (tcb (tick_list_update n s) t) = task_state (tcb s t) \<and>
      tick_head (tcb (tick_list_update n s) t) = tick_head (tcb s t))"
  using tick_list_update_ok(3-5) [OF assms, of t] by (auto simp: woken_def)

theorem tick_exact_witness:
  "task_state (tcb ex_sleep 1) = K_SLEEP \<and> task_state (tcb (tick_list_update 4 ex_sleep) 1) = K_SLEEP \<and>
   task_state (tcb (tick_list_update 5 ex_sleep) 1) = K_RDY"
proof -
  have k: "kernel_inv ex_sleep" by (rule goodD(4) [OF reachable_good [OF reachable_ex_sleep]])
  have e: "task_state (tcb ex_sleep 1) = K_SLEEP" "tick_head (tcb ex_sleep 1)" "ticks_left ex_sleep 1 = 5"
    by (simp_all add: ticks_left_def)
  show ?thesis using tick_exact [OF k, of 4 1] tick_exact [OF k, of 5 1] e by simp
qed

text \<open>C9. A task that sleeps or waits with a timeout of \<open>n\<close> ticks still does so after fewer ticks,
  and after \<open>n\<close> of them it is ready, or only suspended.\<close>

theorem timeout_fires:
  assumes "kernel_inv s" and "tick_head (tcb s t)" and "unat (ticks_left s t) = n"
  shows "(\<forall>k<n. tick_head (tcb ((krhino_tick_proc ^^ k) s) t) \<and>
      task_state (tcb ((krhino_tick_proc ^^ k) s) t) = task_state (tcb s t)) \<and>
    task_state (tcb ((krhino_tick_proc ^^ n) s) t) = (if suspended (tcb s t) then K_SUSPENDED else K_RDY)"
proof -
  have i: "sleeping (tcb s t) \<or> pended (tcb s t)" "0 < ticks_left s t"
    using assms(2) kinvD(3) [OF kernel_invD(1) [OF assms(1)]] unfolding inv_tick_def by blast+
  then obtain m where m: "n = Suc m" using assms(3) by (cases n) (auto simp: word_gt_0 unat_eq_0)
  show ?thesis
    using ticks_wake [OF assms(1,2), of m] assms(3) i(1) unfolding m by (auto simp: woken_def kstates)
qed

theorem timeout_fires_witness:
  "task_state (tcb ((krhino_tick_proc ^^ 4) ex_sleep) 1) = K_SLEEP \<and>
   task_state (tcb ((krhino_tick_proc ^^ 5) ex_sleep) 1) = K_RDY"
proof -
  have k: "kernel_inv ex_sleep" by (rule goodD(4) [OF reachable_good [OF reachable_ex_sleep]])
  have e: "task_state (tcb ex_sleep 1) = K_SLEEP" "tick_head (tcb ex_sleep 1)" "unat (ticks_left ex_sleep 1) = 5"
    by (simp_all add: ticks_left_def)
  show ?thesis using timeout_fires [OF k e(2,3)] e(1) by (simp add: suspended_def)
qed

section \<open>Semaphores\<close>

text \<open>C10. The value of a semaphore, its count minus the number of waiting tasks, is one more after a give, unless it has
  reached the largest count.\<close>

theorem sem_give_counts:
  assumes "sys_inv s" and "obj_type (blk_objs s sem) = RHINO_SEM_OBJ_TYPE" and "sem_value s sem < 2 ^ 32 - 1"
  shows "fst (krhino_sem_give sem s) = RHINO_SUCCESS \<and> sem_value (snd (krhino_sem_give sem s)) sem = sem_value s sem + 1"
  using sem_value_give [OF assms] by auto

theorem sem_give_counts_witness:
  "sem_value ex_wait 10 = - 1 \<and> fst (krhino_sem_give 10 ex_wait) = RHINO_SUCCESS \<and>
   sem_value (snd (krhino_sem_give 10 ex_wait)) 10 = 0"
proof -
  have s: "sys_inv ex_wait" by (rule goodD(1) [OF reachable_good [OF reachable_ex_wait]])
  have e: "obj_type (blk_objs ex_wait 10) = RHINO_SEM_OBJ_TYPE" "sem_value ex_wait 10 = - 1"
    by (simp_all add: sem_value_def)
  show ?thesis using sem_give_counts [OF s e(1)] e(2) by simp
qed

text \<open>C11. A take that may wait lowers the value by one, and returns at once exactly when the value was positive;
  otherwise the caller waits.\<close>

theorem sem_take_counts:
  assumes "sys_inv s" and "inv_wait s" and "obj_type (blk_objs s sem) = RHINO_SEM_OBJ_TYPE"
    and "g_intrpt_nested_level s = 0" and "g_sched_lock s = 0" and "g_active_task s \<noteq> idle_tid"
    and "ticks \<noteq> RHINO_NO_WAIT" and "ticks = RHINO_WAIT_FOREVER \<or> ticks < 2 ^ 63"
  shows "fst (krhino_sem_take sem ticks s) = (if sem_value s sem > 0 then Ret RHINO_SUCCESS else Blocked) \<and>
    sem_value (snd (krhino_sem_take sem ticks s)) sem = sem_value s sem - 1"
  using sem_value_take [OF assms] by auto

theorem sem_take_counts_witness:
  "fst (krhino_sem_take 10 100 ex_sem) = Blocked \<and> sem_value (snd (krhino_sem_take 10 100 ex_sem)) 10 = - 1"
proof -
  note g = reachable_good [OF reachable_ex_sem]
  have e: "obj_type (blk_objs ex_sem 10) = RHINO_SEM_OBJ_TYPE" "g_intrpt_nested_level ex_sem = 0" "g_sched_lock ex_sem = 0"
    "g_active_task ex_sem \<noteq> idle_tid" "sem_value ex_sem 10 = 0"
    by (simp_all add: sem_value_def idle_tid_def)
  show ?thesis
    using sem_take_counts [OF goodD(1,2) [OF g] e(1-4), of 100] e(5) by (simp add: RHINO_NO_WAIT_def)
qed

text \<open>C12. A give that finds waiting tasks serves the first of the list, which is the most urgent, and the task at
  place \<open>i\<close> of the list is served after \<open>i + 1\<close> gives.\<close>

theorem sem_give_order:
  assumes "sys_inv s" and "obj_type (blk_objs s sem) = RHINO_SEM_OBJ_TYPE" and "blk_policy (blk_objs s sem) = BLK_POLICY_PRI"
    and "i < length (blk_list (blk_objs s sem))"
  shows "(\<forall>u\<in>set (blk_list (blk_objs s sem)). prio (tcb s (hd (blk_list (blk_objs s sem)))) \<le> prio (tcb s u)) \<and>
    task_state (tcb (((\<lambda>s. snd (krhino_sem_give sem s)) ^^ Suc i) s) (blk_list (blk_objs s sem) ! i)) \<in> {K_RDY, K_SUSPENDED} \<and>
    blk_list (blk_objs (((\<lambda>s. snd (krhino_sem_give sem s)) ^^ Suc i) s) sem) = drop (Suc i) (blk_list (blk_objs s sem))"
proof -
  obtain t ts where l: "blk_list (blk_objs s sem) = t # ts" using assms(4) by (cases "blk_list (blk_objs s sem)") auto
  have "\<forall>u\<in>set (blk_list (blk_objs s sem)). prio (tcb s (hd (blk_list (blk_objs s sem)))) \<le> prio (tcb s u)"
    using first_waiting_most_urgent [OF sys_invD(2) [OF assms(1)] assms(3) l] unfolding l by simp
  then show ?thesis using sem_gives_reach [OF assms(1,2,4)] by blast
qed

theorem sem_give_order_witness:
  "task_state (tcb (((\<lambda>s. snd (krhino_sem_give 10 s)) ^^ Suc 0) ex_wait) 1) \<in> {K_RDY, K_SUSPENDED}"
proof -
  have s: "sys_inv ex_wait" by (rule goodD(1) [OF reachable_good [OF reachable_ex_wait]])
  have e: "obj_type (blk_objs ex_wait 10) = RHINO_SEM_OBJ_TYPE" "blk_policy (blk_objs ex_wait 10) = BLK_POLICY_PRI"
    "0 < length (blk_list (blk_objs ex_wait 10))" "blk_list (blk_objs ex_wait 10) ! 0 = 1"
    by simp_all
  show ?thesis using sem_give_order [OF s e(1-3)] unfolding e(4) by blast
qed

text \<open>C13. A give at the largest count is refused and changes nothing.\<close>

theorem sem_give_overflow:
  assumes "obj_type (blk_objs s sem) = RHINO_SEM_OBJ_TYPE" and "blk_list (blk_objs s sem) = []" and "sem_count (sems s sem) = - 1"
  shows "krhino_sem_give sem s = (RHINO_SEM_OVF, s)"
  using assms by (simp add: krhino_sem_give_def sem_give_eq)

theorem sem_give_overflow_witness:
  "krhino_sem_give 10 (snd (krhino_sem_create 10 (- 1) boot)) = (RHINO_SEM_OVF, snd (krhino_sem_create 10 (- 1) boot))"
  by (rule sem_give_overflow) (simp_all add: krhino_sem_create_def sem_create_eq upd_sem_def upd_blk_def)

section \<open>Events\<close>

text \<open>C14. Setting flags wakes exactly the waiting tasks whose condition the new flags meet, keeps the others in their order,
  and touches no other object's waiting tasks.\<close>

theorem event_set_wakes:
  assumes s: "sys_inv s" and o: "obj_type (blk_objs s ev) = RHINO_EVENT_OBJ_TYPE"
  shows "fst (krhino_event_set ev flags RHINO_OR s) = RHINO_SUCCESS \<and>
    blk_list (blk_objs (snd (krhino_event_set ev flags RHINO_OR s)) ev) =
      filter (\<lambda>t. \<not> event_status (event_flags (events s ev) OR flags) (pend_flags (tcb s t)) (pend_option (tcb s t)))
        (blk_list (blk_objs s ev)) \<and>
    (\<forall>ob. ob \<noteq> ev \<longrightarrow> blk_list (blk_objs (snd (krhino_event_set ev flags RHINO_OR s)) ob) = blk_list (blk_objs s ob))"
proof -
  let ?s0 = "upd_event ev (\<lambda>e. e\<lparr>event_flags := event_flags e OR flags\<rparr>) s"
  let ?s' = "event_set_loop ev (event_flags (events ?s0 ev)) (blk_list (blk_objs ?s0 ev)) ?s0"
  note e = event_set_ok [where flags = flags, OF sys_invD(1) [OF s] o]
  have "krhino_event_set ev flags RHINO_OR s = (RHINO_SUCCESS, core_sched ?s')"
    using o by (simp add: krhino_event_set_def event_set_def Let_def event_opts)
  moreover have "blk_objs (core_sched ?s') = blk_objs ?s'" using kernel_invD(1) [OF e(1)] by simp
  ultimately show ?thesis using e(3,4) by (simp add: met_def)
qed

theorem event_set_wakes_witness:
  "blk_list (blk_objs ex_ev 30) = [1] \<and> blk_list (blk_objs (snd (krhino_event_set 30 1 RHINO_OR ex_ev)) 30) = [1] \<and>
   blk_list (blk_objs (snd (krhino_event_set 30 3 RHINO_OR ex_ev)) 30) = []"
proof -
  have s: "sys_inv ex_ev" by (rule goodD(1) [OF reachable_good [OF reachable_ex_ev]])
  have e: "obj_type (blk_objs ex_ev 30) = RHINO_EVENT_OBJ_TYPE" "blk_list (blk_objs ex_ev 30) = [1]"
    "event_flags (events ex_ev 30) = 0" "pend_flags (tcb ex_ev 1) = 3" "pend_option (tcb ex_ev 1) = 2"
    by simp_all
  show ?thesis
    using event_set_wakes [OF s e(1), of 1] event_set_wakes [OF s e(1), of 3] e by (simp add: event_status_def event_opts)
qed

section \<open>Mutexes\<close>

text \<open>C15. Locking a mutex that another task owns makes the caller wait for it, and the owner runs at least as urgently as
  the caller.\<close>

theorem mutex_lock_inherits:
  assumes "sys_inv s" and "g_intrpt_nested_level s = 0" and "g_sched_lock s = 0" and "g_active_task s \<noteq> idle_tid"
    and "ticks \<noteq> RHINO_NO_WAIT" and "ticks = RHINO_WAIT_FOREVER \<or> ticks < 2 ^ 63"
    and "is_mutex s m" and "mutex_task (mutexes s m) = Some w" and "w \<noteq> g_active_task s"
    and "(w, g_active_task s) \<notin> (waits_for s)\<^sup>*"
  shows "fst (krhino_mutex_lock m ticks s) = Blocked \<and>
    g_active_task s \<in> set (blk_list (blk_objs (snd (krhino_mutex_lock m ticks s)) m)) \<and>
    mutex_task (mutexes (snd (krhino_mutex_lock m ticks s)) m) = Some w \<and>
    prio (tcb (snd (krhino_mutex_lock m ticks s)) w) \<le> prio (tcb (snd (krhino_mutex_lock m ticks s)) (g_active_task s))"
  using mutex_lock_waits [OF assms] by blast

theorem mutex_lock_inherits_witness:
  "prio (tcb ex_two 3) = 20 \<and> fst (krhino_mutex_lock 20 100 ex_two) = Blocked \<and>
   prio (tcb (snd (krhino_mutex_lock 20 100 ex_two)) 3) \<le> prio (tcb (snd (krhino_mutex_lock 20 100 ex_two)) 2)"
proof -
  have s: "sys_inv ex_two" by (rule goodD(1) [OF reachable_good [OF reachable_ex_two]])
  have e: "g_intrpt_nested_level ex_two = 0" "g_sched_lock ex_two = 0" "g_active_task ex_two = 2" "is_mutex ex_two 20"
    "mutex_task (mutexes ex_two 20) = Some 3" "prio (tcb ex_two 3) = 20" "\<not> pended (tcb ex_two 3)"
    by (simp_all add: is_mutex_def pended_def Let_def)
  show ?thesis
    using mutex_lock_inherits [OF s e(1,2) _ _ _ e(4,5), of 100] ex_two_safe e(3,6) by (simp add: idle_tid_def RHINO_NO_WAIT_def)
qed

text \<open>C16. Unlocking a mutex for the last time hands it to the most urgent of the tasks that wait for it, which becomes ready, or stays
  suspended; the others keep waiting in their order.\<close>

theorem mutex_unlock_hands_over:
  assumes "sys_inv s" and "g_intrpt_nested_level s = 0" and "is_mutex s m"
    and "mutex_task (mutexes s m) = Some (g_active_task s)" and "owner_nested (mutexes s m) = 1"
    and "blk_list (blk_objs s m) = w # ws"
  shows "fst (krhino_mutex_unlock m s) = RHINO_SUCCESS \<and> mutex_task (mutexes (snd (krhino_mutex_unlock m s)) m) = Some w \<and>
    owner_nested (mutexes (snd (krhino_mutex_unlock m s)) m) = 1 \<and> blk_list (blk_objs (snd (krhino_mutex_unlock m s)) m) = ws \<and>
    task_state (tcb (snd (krhino_mutex_unlock m s)) w) = (if task_state (tcb s w) = K_PEND then K_RDY else K_SUSPENDED) \<and>
    (\<forall>u\<in>set (w # ws). prio (tcb s w) \<le> prio (tcb s u))"
  using mutex_unlock_next [OF assms] by blast

theorem mutex_unlock_hands_over_witness:
  "mutex_task (mutexes ex_pi 20) = Some 3 \<and> mutex_task (mutexes (snd (krhino_mutex_unlock 20 ex_pi)) 20) = Some 2 \<and>
   task_state (tcb (snd (krhino_mutex_unlock 20 ex_pi)) 2) = K_RDY"
proof -
  have s: "sys_inv ex_pi" by (rule goodD(1) [OF reachable_good [OF reachable_ex_pi]])
  have e: "g_intrpt_nested_level ex_pi = 0" "is_mutex ex_pi 20" "mutex_task (mutexes ex_pi 20) = Some (g_active_task ex_pi)"
    "owner_nested (mutexes ex_pi 20) = 1" "blk_list (blk_objs ex_pi 20) = [2]" "task_state (tcb ex_pi 2) = K_PEND"
    "g_active_task ex_pi = 3"
    by (simp_all add: is_mutex_def)
  show ?thesis using mutex_unlock_hands_over [OF s e(1-5)] e(3,6,7) by simp
qed

text \<open>C17. Only the owner unlocks a mutex: every other task gets an error and nothing changes.\<close>

theorem mutex_unlock_not_owner:
  assumes "g_sys_stat s \<noteq> RHINO_STOPPED" and "g_intrpt_nested_level s = 0" and "is_mutex s m"
    and "mutex_task (mutexes s m) \<noteq> Some (g_active_task s)"
  shows "krhino_mutex_unlock m s = (RHINO_MUTEX_NOT_RELEASED_BY_OWNER, s)"
  using assms by (simp add: krhino_mutex_unlock_def is_mutex_def)

theorem mutex_unlock_not_owner_witness: "krhino_mutex_unlock 20 ex_two = (RHINO_MUTEX_NOT_RELEASED_BY_OWNER, ex_two)"
  by (rule mutex_unlock_not_owner)
    (simp_all add: is_mutex_def)

section \<open>Tasks\<close>

text \<open>C18. Changing the priority of a task ends, whatever the chain of mutex owners above it, and leaves every task at
  its effective priority.\<close>

theorem task_pri_change_ends:
  assumes "sys_inv s" and "live (tcb s t)" and "prio (tcb s t) < RHINO_IDLE_PRI" and "pri < RHINO_IDLE_PRI"
    and "g_intrpt_nested_level s = 0"
  shows "fst (krhino_task_pri_change t pri s) = RHINO_SUCCESS \<and>
    fst (snd (krhino_task_pri_change t pri s)) = Some (prio (tcb s t)) \<and>
    \<not> k_fault (snd (snd (krhino_task_pri_change t pri s))) \<and> pi_inv (snd (snd (krhino_task_pri_change t pri s))) \<and>
    b_prio (tcb (snd (snd (krhino_task_pri_change t pri s))) t) = pri"
proof -
  obtain s' where r: "krhino_task_pri_change t pri s = (RHINO_SUCCESS, Some (prio (tcb s t)), core_sched s')"
    and k: "kernel_inv s'" and b: "b_prio (tcb s' t) = pri"
    using krhino_task_pri_change_ok [OF assms] by metis
  have "kernel_inv (core_sched s')" by (rule kernel_inv_core_sched [OF k])
  then show ?thesis using r b kernel_invD kinvD(6) [OF kernel_invD(1)] by (simp add: no_fault_def kernel_invD(1) [OF k])
qed

theorem task_pri_change_ends_witness:
  "fst (krhino_task_pri_change 2 7 ex_pi) = RHINO_SUCCESS \<and> pi_inv (snd (snd (krhino_task_pri_change 2 7 ex_pi)))"
proof -
  have s: "sys_inv ex_pi" by (rule goodD(1) [OF reachable_good [OF reachable_ex_pi]])
  have e: "live (tcb ex_pi 2)" "prio (tcb ex_pi 2) < RHINO_IDLE_PRI" "(7::nat) < RHINO_IDLE_PRI" "g_intrpt_nested_level ex_pi = 0"
    by (simp_all add: kconfig live_def Let_def)
  show ?thesis using task_pri_change_ends [OF s e] by simp
qed

text \<open>C19. Deleting a task succeeds in whatever state the task is, leaves no mutex in its hands, and keeps the
  invariant: its mutexes pass to waiting tasks or are free.\<close>

theorem task_del_releases:
  assumes "sys_inv s" and "live (tcb s t)" and "prio (tcb s t) \<noteq> RHINO_IDLE_PRI"
    and "mm_alloc_flag (tcb s t) = K_OBJ_STATIC_ALLOC" and "g_intrpt_nested_level s = 0"
    and "\<not> (t = g_active_task s \<and> g_sched_lock s > 0)"
  shows "fst (krhino_task_del (Some t) s) = RHINO_SUCCESS \<and> task_state (tcb (snd (krhino_task_del (Some t) s)) t) = K_DELETED \<and>
    (\<forall>m. is_mutex (snd (krhino_task_del (Some t) s)) m \<longrightarrow> mutex_task (mutexes (snd (krhino_task_del (Some t) s)) m) \<noteq> Some t) \<and>
    sys_inv (snd (krhino_task_del (Some t) s))"
proof -
  note d = krhino_task_del_eq [OF assms]
  have "tcb (core_sched x) = tcb x" "mutexes (core_sched x) = mutexes x" "is_mutex (core_sched x) = is_mutex x" if "kernel_inv x" for x
    using kernel_invD(1) [OF that] by (auto simp: core_sched_eq is_mutex_def fun_eq_iff)
  then show ?thesis using d(1,2,5,6) sys_inv_task_del_Some [OF assms(1,2)] by simp
qed

theorem task_del_releases_witness:
  "fst (krhino_task_del (Some 3) ex_pi) = RHINO_SUCCESS \<and> task_state (tcb (snd (krhino_task_del (Some 3) ex_pi)) 3) = K_DELETED"
proof -
  have s: "sys_inv ex_pi" by (rule goodD(1) [OF reachable_good [OF reachable_ex_pi]])
  have e: "live (tcb ex_pi 3)" "prio (tcb ex_pi 3) \<noteq> RHINO_IDLE_PRI" "mm_alloc_flag (tcb ex_pi 3) = K_OBJ_STATIC_ALLOC"
    "g_intrpt_nested_level ex_pi = 0" "\<not> (3 = g_active_task ex_pi \<and> g_sched_lock ex_pi > 0)"
    by (simp_all add: kconfig live_def Let_def)
  show ?thesis using task_del_releases [OF s e] by simp
qed

section \<open>Data structures\<close>

text \<open>C39. The search over the priority bitmap returns a position exactly when the position is
  set and no smaller position is.\<close>

theorem bitmap_find_first:
  "krhino_find_first_bit bm = Some nr \<longleftrightarrow>
     bitmap_test bm nr \<and> Min {k. bitmap_test bm k} = nr"
proof -
  have fin: "finite {k. bitmap_test bm k}"
  proof (rule finite_subset)
    show "{k. bitmap_test bm k} \<subseteq> {..<32 * length bm}"
      by (auto simp: bitmap_test_def)
  qed simp
  show ?thesis
    using krhino_find_first_bit_least [of bm nr] fin
    by (auto intro!: Min_eqI simp: not_less [symmetric]) (metis CollectI Min_le leD)
qed

end
